(* ===== verification/Snort_Prelude.thy ===== *)
theory Snort_Prelude
  imports Main "HOL-Library.Word"
begin

unbundle bit_operations_syntax

text \<open>
  The shared vocabulary of the development: the machine integer types of the C++ sources,
  the collections of simplification and invariant rules that the component theories fill,
  the C conversions that several components use, and the generic facts on lists and words
  that carry their proofs.
\<close>

section \<open>Machine integers\<close>

type_synonym u8 = "8 word"
type_synonym u16 = "16 word"
type_synonym u32 = "32 word"
type_synonym u64 = "64 word"

text \<open>A byte buffer, as the sources pass it by pointer and length.\<close>

type_synonym bytes = "u8 list"

text \<open>
  \<open>model_defs\<close> collects the unfolding equations of the small non-recursive helpers of the
  sources; \<open>inv_intros\<close> the preservation lemmas of the component invariants.
\<close>

named_theorems model_defs
named_theorems inv_intros

text \<open>
  The conversion of an unbounded integer to a 32 bit \<open>int\<close>: two's complement wrap-around,
  which is what every compiler the project supports does for an out-of-range conversion.
\<close>

definition to_int32 :: "int \<Rightarrow> int" where
  "to_int32 x = (x + 2 ^ 31) mod 2 ^ 32 - 2 ^ 31"

lemma to_int32_id: "- (2 ^ 31) \<le> x \<Longrightarrow> x < 2 ^ 31 \<Longrightarrow> to_int32 x = x"
  by (simp add: to_int32_def)

lemma to_int32_range: "- (2 ^ 31) \<le> to_int32 x \<and> to_int32 x < 2 ^ 31"
proof -
  have "0 \<le> (x + 2 ^ 31) mod 2 ^ 32" and "(x + 2 ^ 31) mod 2 ^ 32 < (2 ^ 32 :: int)"
    by simp_all
  then show ?thesis by (simp add: to_int32_def)
qed

section \<open>Word arithmetic that does not wrap\<close>

lemma unat_add_nowrap:
  "unat a + unat b < 2 ^ LENGTH('a) \<Longrightarrow> unat (a + b) = unat a + unat (b :: 'a::len word)"
  by (simp add: unat_word_ariths)

lemma unat_mult_nowrap:
  "unat a * unat b < 2 ^ LENGTH('a) \<Longrightarrow> unat (a * b) = unat a * unat (b :: 'a::len word)"
  by (simp add: unat_word_ariths)

lemma unat_sub_nowrap: "b \<le> a \<Longrightarrow> unat (a - b) = unat a - unat (b :: 'a::len word)"
  by (simp add: unat_sub)

lemma unat_eq_numeral: "unat (w :: 'a::len word) = k \<longleftrightarrow> k < 2 ^ LENGTH('a) \<and> w = of_nat k"
  by (auto simp: unat_of_nat take_bit_nat_eq_self)

lemma sint_small: "unat (w :: u32) < 2 ^ 31 \<Longrightarrow> sint w = int (unat w)"
proof -
  assume "unat w < 2 ^ 31"
  then have "int (unat w) < int (2 ^ 31)" by (simp only: of_nat_less_iff)
  then have "uint w < 2 ^ 31" by simp
  moreover have "- (2 ^ 31) \<le> uint w" by (rule order_trans [of _ 0]) simp_all
  ultimately have "signed_take_bit 31 (uint w) = uint w" by (intro signed_take_bit_int_eq_self)
  then show ?thesis by (simp add: sint_uint)
qed

lemma mod_wrap: "a < 2 * N \<Longrightarrow> a mod N = (if a < N then a else a - (N :: nat))"
  by (auto simp: mod_if)

section \<open>Lists\<close>

lemma map_nth_shift:
  "k + n \<le> length xs \<Longrightarrow> map (\<lambda>i. xs ! (k + i)) [0..<n] = take n (drop k xs)"
  by (rule nth_equalityI) auto

lemma map_upt_offset: "map f [a..<a + n] = map (\<lambda>i. f (a + i)) [0..<n]"
  by (rule nth_equalityI) auto

lemma list_all_nth_iff: "list_all P xs \<longleftrightarrow> (\<forall>i < length xs. P (xs ! i))"
  by (rule list_all_length)

end
