(* ===== verification/Pcie.thy ===== *)
theory Pcie
  imports Snort_Prelude
begin

unbundle bit_operations_syntax

text \<open>
  The FPGA-to-CPU side of Pigasus: the shared ring of protocol data units (PDUs) that the
  FPGA fills by DMA and the packet thread drains, from \<^verbatim>\<open>pigasus/pcie/pcie.cc\<close> and
  \<^verbatim>\<open>pcie.h\<close>.  The kernel memory that both sides share is an array of 32 bit words
  (\<open>kdata\<close>); slot 0 holds the global registers, slots 1 to \<open>BUFFER_SIZE\<close> the ring, and one
  more page behind the ring lets a PDU that wraps be read contiguously.  The producer is the
  DMA engine of \<^verbatim>\<open>fpga2cpu_pcie.sv\<close>; it is modelled as the environment of the CPU loop.
\<close>

section \<open>Constants and data\<close>

definition RULE_ID_LINE_LEN :: nat where "RULE_ID_LINE_LEN = 64"
definition RULE_ID_SIZE :: nat where "RULE_ID_SIZE = 2"
definition NB_RULES_IN_LINE :: nat where
  "NB_RULES_IN_LINE = RULE_ID_LINE_LEN div RULE_ID_SIZE"

definition BUFFER_SIZE :: u32 where "BUFFER_SIZE = 16384 * 16 - 1"
definition C2F_BUFFER_SIZE :: u32 where "C2F_BUFFER_SIZE = 512"
definition C2F_BUFFER_OFFSET :: u32 where
  "C2F_BUFFER_OFFSET = (BUFFER_SIZE + 1) * 16 + 1024"

definition PDU_ID_OFFSET :: u32 where "PDU_ID_OFFSET = 0"
definition PDU_SIZE_OFFSET :: u32 where "PDU_SIZE_OFFSET = 6"
definition PDU_FLIT_OFFSET :: u32 where "PDU_FLIT_OFFSET = 7"
definition ACTION_OFFSET :: u32 where "ACTION_OFFSET = 8"
definition ACTION_NO_MATCH :: u32 where "ACTION_NO_MATCH = 1"

lemmas pcie_constants =
  BUFFER_SIZE_def C2F_BUFFER_SIZE_def C2F_BUFFER_OFFSET_def PDU_ID_OFFSET_def
  PDU_SIZE_OFFSET_def PDU_FLIT_OFFSET_def ACTION_OFFSET_def ACTION_NO_MATCH_def
  RULE_ID_LINE_LEN_def RULE_ID_SIZE_def NB_RULES_IN_LINE_def

text \<open>The shared memory, indexed by 32 bit word.\<close>

type_synonym mem = "nat \<Rightarrow> u32"

text \<open>The header of a PDU.  The two pointers are word indices into the shared memory.\<close>

record block_s =
  pdu_id :: u32
  dst_port :: u16
  src_port :: u16
  dst_ip :: u32
  src_ip :: u32
  protocol :: u32
  num_rule_id :: u32
  pdu_size :: u32
  pdu_flit :: u32
  action :: u32
  pdu_payload :: nat
  rule_id :: nat

text \<open>\<open>fill_block\<close> parses the header flit at \<open>addr\<close>; \<open>action\<close> is left as it was.\<close>

definition fill_block :: "mem \<Rightarrow> nat \<Rightarrow> block_s \<Rightarrow> block_s" where
  "fill_block kdata addr block =
     (let size = kdata (addr + 6);
          reminder = size AND 0x3F;
          off0 = unat (drop_bit 6 size);
          off1 = (if 0 < reminder then off0 + 1 else off0);
          offset = (off1 + 1) * 16
      in block\<lparr>
           pdu_id := kdata addr,
           dst_port := ucast (kdata (addr + 1) AND 0xFFFF),
           src_port := ucast (drop_bit 16 (kdata (addr + 1)) AND 0xFFFF),
           dst_ip := kdata (addr + 2),
           src_ip := kdata (addr + 3),
           protocol := kdata (addr + 4),
           num_rule_id := kdata (addr + 5),
           pdu_size := size,
           pdu_flit := kdata (addr + 7),
           pdu_payload := addr + 16,
           rule_id := addr + offset\<rparr>)"

text \<open>
  Reading through the two pointers of a block on the little-endian host: byte \<open>i\<close> of the
  payload and 16 bit rule identifier \<open>i\<close>.
\<close>

definition payload_byte :: "mem \<Rightarrow> block_s \<Rightarrow> nat \<Rightarrow> u8" where
  "payload_byte kdata block i =
     ucast (drop_bit (8 * (i mod 4)) (kdata (pdu_payload block + i div 4)))"

definition raw_sid :: "mem \<Rightarrow> block_s \<Rightarrow> nat \<Rightarrow> u16" where
  "raw_sid kdata block i =
     ucast (drop_bit (16 * (i mod 2)) (kdata (rule_id block + i div 2)))"

section \<open>Device handles\<close>

text \<open>
  \<open>get_dev_handles\<close> with the results of its system calls as arguments: the two \<open>open\<close>
  calls and the two \<open>ioctl\<close> queries.  The result is the return value, the two reference
  parameters (\<open>None\<close> when not assigned) and the descriptors that are still open.
\<close>

record dev_result =
  dev_ret :: int
  dev_handle :: "int option"
  uio_dev_handle :: "int option"
  dev_open :: "int set"

definition get_dev_handles :: "int \<Rightarrow> int \<Rightarrow> bool \<Rightarrow> bool \<Rightarrow> dev_result" where
  "get_dev_handles fd ufd ioctl_dev_fails ioctl_bar_fails =
     (if fd < 0 then \<lparr>dev_ret = fd, dev_handle = None, uio_dev_handle = None, dev_open = {}\<rparr>
      else if ufd < 0 then
        \<lparr>dev_ret = ufd, dev_handle = Some fd, uio_dev_handle = None, dev_open = {fd} - {fd}\<rparr>
      else
        let opened = {fd, ufd};
            opened1 = (if ioctl_dev_fails then opened - {fd} - {ufd} else opened);
            opened2 = (if ioctl_bar_fails then opened1 - {fd} - {ufd} else opened1)
        in \<lparr>dev_ret = 0, dev_handle = Some fd, uio_dev_handle = Some ufd, dev_open = opened2\<rparr>)"

section \<open>The DMA loop\<close>

text \<open>The words that \<open>memcpy\<close> and the DMA engine write, starting at word \<open>dst\<close>.\<close>

definition copy_dwords :: "nat \<Rightarrow> u32 list \<Rightarrow> mem \<Rightarrow> mem" where
  "copy_dwords dst xs m =
     (\<lambda>a. if dst \<le> a \<and> a < dst + length xs then xs ! (a - dst) else m a)"

text \<open>
  The bytes \<open>dma_run\<close> allocates and maps: the ring with its global slot and one page.
\<close>

definition allocated_size :: u32 where
  "allocated_size = (BUFFER_SIZE + 1) * 16 * 4 + 4096"

text \<open>
  The variables of \<open>dma_run\<close> that survive an iteration, with the state \<open>user\<close> that the
  packet callback keeps, and the head register the FPGA reads.
\<close>

record 's dma_state =
  kdata :: mem
  cpu_head :: u32
  cpu_tail :: u32
  free_slot :: int
  pdu :: block_s
  cpu_head_reg :: u32
  rx_pkts :: u64
  num_rules :: u64
  user :: 's

datatype dma_error =
    No_Core_Id
  | No_Kernel_Memory
  | Mmap_Failed
  | Uio_Mmap_Failed
  | Copy_Out_Of_Bounds

type_synonym 's proc_packet_f = "mem \<Rightarrow> block_s \<Rightarrow> 's \<Rightarrow> 's"

text \<open>
  One iteration of the main loop, after \<open>cpu_tail\<close> was read from the global registers: an
  empty ring continues, otherwise the header is parsed, a PDU that wraps is completed behind
  the ring, the callback runs, and the head moves on.  A \<open>memcpy\<close> that would leave the
  allocated region is the error \<open>Copy_Out_Of_Bounds\<close>.
\<close>

definition ring_advance :: "u32 \<Rightarrow> u32 \<Rightarrow> u32" where
  "ring_advance h n =
     (if h + n < BUFFER_SIZE then h + n else h + n - BUFFER_SIZE)"

definition f2c_free_slot :: "u32 \<Rightarrow> u32 \<Rightarrow> int" where
  "f2c_free_slot h t =
     to_int32 (uint (if t \<le> h then h - t else BUFFER_SIZE - t + h))"

definition round_copy :: "u32 \<Rightarrow> u32 \<Rightarrow> mem \<Rightarrow> dma_error + mem" where
  "round_copy h flit m =
     (if BUFFER_SIZE < h + flit then
        let copy_size = h + flit - BUFFER_SIZE;
            n = unat (copy_size * 16 * 4) div 4;
            dst = unat ((BUFFER_SIZE + 1) * 16)
        in if unat allocated_size < 4 * (dst + n) then Inl Copy_Out_Of_Bounds
           else Inr (copy_dwords dst (map m [16..<16 + n]) m)
      else Inr m)"

definition dma_iter :: "'s proc_packet_f \<Rightarrow> 's dma_state \<Rightarrow> dma_error + 's dma_state" where
  "dma_iter proc_pkt s =
     (if cpu_tail s = cpu_head s then Inr s
      else
        let h = cpu_head s;
            b = fill_block (kdata s) (unat ((h + 1) * 16)) (pdu s)
        in case round_copy h (pdu_flit b) (kdata s) of
             Inl e \<Rightarrow> Inl e
           | Inr m \<Rightarrow>
               let h' = ring_advance h (pdu_flit b)
               in Inr (s\<lparr>kdata := m,
                         cpu_head := h',
                         free_slot := f2c_free_slot h (cpu_tail s),
                         pdu := b,
                         cpu_head_reg := h',
                         rx_pkts := rx_pkts s + 1,
                         num_rules := num_rules s + ucast (num_rule_id b),
                         user := proc_pkt m b (user s)\<rparr>))"

text \<open>
  The whole loop.  Each element of \<open>polls\<close> is one iteration for which \<open>keep_running\<close> was
  read as set: the effect of the DMA writes that landed since the previous iteration.  The
  tail is the first word of the global registers and is read once per iteration.
\<close>

definition read_tail :: "'s dma_state \<Rightarrow> 's dma_state" where
  "read_tail s = s\<lparr>cpu_tail := kdata s 0\<rparr>"

fun dma_loop ::
    "'s proc_packet_f \<Rightarrow> (mem \<Rightarrow> mem) list \<Rightarrow> 's dma_state \<Rightarrow> dma_error + 's dma_state" where
  "dma_loop proc_pkt [] s = Inr s"
| "dma_loop proc_pkt (w # ws) s =
     (case dma_iter proc_pkt (read_tail (s\<lparr>kdata := w (kdata s)\<rparr>)) of
        Inl e \<Rightarrow> Inl e
      | Inr s' \<Rightarrow> dma_loop proc_pkt ws s')"

text \<open>
  \<open>dma_run\<close>: the set-up with its early returns (the results of \<open>sched_getcpu\<close>, of the
  \<open>ioctl\<close> and of the two \<open>mmap\<close> calls are arguments), then the loop.  Printing and the
  final \<open>munmap\<close> have no effect on the state.
\<close>

definition dma_run ::
    "'s proc_packet_f \<Rightarrow> int \<Rightarrow> bool \<Rightarrow> mem option \<Rightarrow> bool \<Rightarrow> block_s \<Rightarrow> 's
     \<Rightarrow> (mem \<Rightarrow> mem) list \<Rightarrow> dma_error + 's dma_state" where
  "dma_run proc_pkt core_id ioctl_fails mmap_result uio_mmap_fails pdu0 user0 polls =
     (if core_id < 0 then Inl No_Core_Id
      else if ioctl_fails then Inl No_Kernel_Memory
      else case mmap_result of
             None \<Rightarrow> Inl Mmap_Failed
           | Some m \<Rightarrow>
               if uio_mmap_fails then Inl Uio_Mmap_Failed
               else dma_loop proc_pkt polls
                      \<lparr>kdata = m, cpu_head = 0, cpu_tail = 0, free_slot = 0, pdu = pdu0,
                       cpu_head_reg = 0, rx_pkts = 0, num_rules = 0, user = user0\<rparr>)"

section \<open>The CPU-to-FPGA ring\<close>

definition c2f_free_slot :: "u32 \<Rightarrow> u32 \<Rightarrow> u32" where
  "c2f_free_slot c2f_head c2f_tail =
     (if c2f_tail < c2f_head then c2f_head - c2f_tail - 1
      else C2F_BUFFER_SIZE - c2f_tail + c2f_head - 1)"

definition c2f_next :: "u32 \<Rightarrow> u32" where
  "c2f_next c2f_tail =
     (if c2f_tail = C2F_BUFFER_SIZE - 1 then 0 else c2f_tail + 1)"

text \<open>
  \<open>c2f_copy_head\<close> spins until a slot is free.  \<open>heads\<close> are the successive values it reads
  from the register \<open>c2f_head\<close>; \<open>None\<close> means that it is still spinning when they are used up.
\<close>

fun c2f_wait :: "u32 \<Rightarrow> u32 list \<Rightarrow> u32 option" where
  "c2f_wait c2f_tail [] = None"
| "c2f_wait c2f_tail (h # hs) =
     (if c2f_free_slot h c2f_tail < 1 then c2f_wait c2f_tail hs else Some h)"

definition c2f_copy_head ::
    "u32 \<Rightarrow> u32 list \<Rightarrow> block_s \<Rightarrow> mem \<Rightarrow> (u32 \<times> mem) option" where
  "c2f_copy_head c2f_tail heads block m =
     (case c2f_wait c2f_tail heads of
        None \<Rightarrow> None
      | Some _ \<Rightarrow>
          let base_addr = C2F_BUFFER_OFFSET + c2f_tail * 16
          in Some (c2f_next c2f_tail,
                   m(unat (base_addr + PDU_ID_OFFSET) := pdu_id block,
                     unat (base_addr + PDU_SIZE_OFFSET) := pdu_size block,
                     unat (base_addr + PDU_FLIT_OFFSET) :=
                       pdu_flit block - num_rule_id block - 1,
                     unat (base_addr + ACTION_OFFSET) := ACTION_NO_MATCH)))"

end
