(* ===== verification/Pcie_Ring.thy ===== *)
theory Pcie_Ring
  imports Pcie
begin

text \<open>
  Correctness of the PDU ring.  A locale states what the index arithmetic of a ring owes its
  users and derives the occupancy laws; both rings of \<^verbatim>\<open>pcie.cc\<close> are interpretations.
  The DMA engine (\<^verbatim>\<open>fpga2cpu_pcie.sv\<close>) and the loop of \<open>dma_run\<close> are then two
  components of one step relation, and an invariant relates the shared memory to the
  abstract queue of PDUs.
\<close>

section \<open>Index arithmetic of a ring\<close>

definition occupied :: "nat \<Rightarrow> nat \<Rightarrow> nat \<Rightarrow> nat" where
  "occupied N h t = (t + N - h) mod N"

locale ring_space =
  fixes N :: nat
    and M :: nat
    and free :: "u32 \<Rightarrow> u32 \<Rightarrow> nat"
    and adv :: "u32 \<Rightarrow> nat \<Rightarrow> u32"
  assumes N_pos: "0 < N"
    and free_law: "unat h < N \<Longrightarrow> unat t < N \<Longrightarrow> free h t = N - 1 - occupied N (unat h) (unat t)"
    and adv_law: "unat t < N \<Longrightarrow> n \<le> M \<Longrightarrow> unat (adv t n) = (unat t + n) mod N"
begin

lemma occupied_less: "occupied N h t < N"
  using N_pos by (simp add: occupied_def)

lemma occupied_eq: "h < N \<Longrightarrow> t < N \<Longrightarrow> occupied N h t = (if h \<le> t then t - h else t + N - h)"
  by (auto simp: occupied_def mod_wrap)

lemma empty_iff: "h < N \<Longrightarrow> t < N \<Longrightarrow> occupied N h t = 0 \<longleftrightarrow> h = t"
  by (auto simp: occupied_eq)

lemma adv_less: "unat t < N \<Longrightarrow> n \<le> M \<Longrightarrow> unat (adv t n) < N"
  using N_pos by (simp add: adv_law)

lemma occupied_produce:
  assumes "unat h < N" and "unat t < N" and "n \<le> free h t" and "n \<le> M"
  shows "occupied N (unat h) (unat (adv t n)) = occupied N (unat h) (unat t) + n"
proof -
  have room: "occupied N (unat h) (unat t) + n < N"
    using assms free_law [of h t] occupied_less [of "unat h" "unat t"] by linarith
  have "occupied N (unat h) ((unat t + n) mod N) = occupied N (unat h) (unat t) + n"
    using assms(1,2) room by (auto simp: occupied_eq mod_wrap split: if_splits)
  then show ?thesis using assms by (simp add: adv_law)
qed

lemma produce_not_empty:
  assumes "unat h < N" and "unat t < N" and "0 < n" and "n \<le> free h t" and "n \<le> M"
  shows "adv t n \<noteq> h"
proof
  assume "adv t n = h"
  then have "occupied N (unat h) (unat (adv t n)) = 0"
    using assms by (simp add: occupied_def)
  then show False using occupied_produce [OF assms(1,2,4,5)] assms(3) by simp
qed

lemma occupied_consume:
  assumes "unat h < N" and "unat t < N" and "n \<le> occupied N (unat h) (unat t)" and "n \<le> M"
  shows "occupied N (unat (adv h n)) (unat t) = occupied N (unat h) (unat t) - n"
  using assms adv_law [of h n]
  by (auto simp: occupied_eq mod_wrap split: if_splits)

end

subsection \<open>The FPGA-to-CPU ring\<close>

text \<open>The producer's view: one slot always stays free, and the tail wraps like the head.\<close>

definition fpga_free_slot :: "u32 \<Rightarrow> u32 \<Rightarrow> u32" where
  "fpga_free_slot h t =
     (if h \<le> t then BUFFER_SIZE - t + h - 1 else h - t - 1)"

abbreviation RING :: nat where "RING \<equiv> 262143"

lemma unat_BUFFER_SIZE: "unat BUFFER_SIZE = RING"
  by (simp add: BUFFER_SIZE_def)

lemma ring_advance_unat:
  assumes "unat t < RING" and "n \<le> RING"
  shows "unat (ring_advance t (of_nat n)) = (unat t + n) mod RING"
proof -
  have n: "unat (of_nat n :: u32) = n"
    using assms by (simp add: unat_of_nat take_bit_nat_eq_self)
  have s: "unat (t + of_nat n) = unat t + n"
    using assms n by (subst unat_add_nowrap) auto
  show ?thesis
  proof (cases "unat t + n < RING")
    case True
    then show ?thesis
      using s by (simp add: ring_advance_def word_less_nat_alt unat_BUFFER_SIZE)
  next
    case False
    then have "unat (t + of_nat n - BUFFER_SIZE) = unat t + n - RING"
      using s by (subst unat_sub_nowrap) (auto simp: word_le_nat_alt unat_BUFFER_SIZE)
    then show ?thesis
      using False s assms
      by (simp add: ring_advance_def word_less_nat_alt unat_BUFFER_SIZE mod_wrap)
  qed
qed

lemma fpga_free_slot_unat:
  assumes "unat h < RING" and "unat t < RING"
  shows "unat (fpga_free_slot h t) = RING - 1 - occupied RING (unat h) (unat t)"
proof (cases "h \<le> t")
  case True
  have "unat (BUFFER_SIZE - t) = RING - unat t"
    using assms by (subst unat_sub_nowrap) (auto simp: word_le_nat_alt unat_BUFFER_SIZE)
  then have "unat (BUFFER_SIZE - t + h) = RING - unat t + unat h"
    using assms by (subst unat_add_nowrap) auto
  then have "unat (BUFFER_SIZE - t + h - 1) = RING - unat t + unat h - 1"
    using assms by (subst unat_sub_nowrap) (auto simp: word_le_nat_alt)
  then show ?thesis
    using True assms by (auto simp: fpga_free_slot_def occupied_def mod_wrap word_le_nat_alt)
next
  case False
  then have lt: "unat t < unat h" by (simp add: word_le_nat_alt)
  have "unat (h - t) = unat h - unat t"
    using lt by (subst unat_sub_nowrap) (auto simp: word_le_nat_alt)
  then have "unat (h - t - 1) = unat h - unat t - 1"
    using lt by (subst unat_sub_nowrap) (auto simp: word_le_nat_alt)
  then show ?thesis
    using False lt assms by (auto simp: fpga_free_slot_def occupied_def mod_wrap)
qed

interpretation f2c: ring_space RING RING
  "\<lambda>h t. unat (fpga_free_slot h t)" "\<lambda>t n. ring_advance t (of_nat n)"
  by unfold_locales (simp_all add: fpga_free_slot_unat ring_advance_unat)

subsection \<open>The CPU-to-FPGA ring\<close>

definition c2f_advance :: "u32 \<Rightarrow> nat \<Rightarrow> u32" where
  "c2f_advance t n = (if n = 0 then t else c2f_next t)"

lemma unat_C2F_BUFFER_SIZE: "unat C2F_BUFFER_SIZE = 512"
  by (simp add: C2F_BUFFER_SIZE_def)

lemma c2f_next_unat: "unat t < 512 \<Longrightarrow> unat (c2f_next t) = (unat t + 1) mod 512"
proof (cases "t = 511")
  case True
  then show ?thesis by (simp add: c2f_next_def C2F_BUFFER_SIZE_def)
next
  case False
  assume lt: "unat t < 512"
  have "unat t \<noteq> 511"
    using False by (simp add: unat_eq_numeral)
  with lt False show ?thesis
    by (simp add: c2f_next_def C2F_BUFFER_SIZE_def unat_word_ariths)
qed

lemma c2f_free_slot_unat:
  assumes "unat h < 512" and "unat t < 512"
  shows "unat (c2f_free_slot h t) = 512 - 1 - occupied 512 (unat h) (unat t)"
proof (cases "t < h")
  case True
  then have lt: "unat t < unat h" by (simp add: word_less_nat_alt)
  have "unat (h - t) = unat h - unat t"
    using lt by (subst unat_sub_nowrap) (auto simp: word_le_nat_alt)
  then have "unat (h - t - 1) = unat h - unat t - 1"
    using lt by (subst unat_sub_nowrap) (auto simp: word_le_nat_alt)
  then show ?thesis
    using True lt assms by (auto simp: c2f_free_slot_def occupied_def mod_wrap)
next
  case False
  then have le: "unat h \<le> unat t" by (simp add: word_less_nat_alt)
  have "unat (C2F_BUFFER_SIZE - t) = 512 - unat t"
    using assms by (subst unat_sub_nowrap) (auto simp: word_le_nat_alt unat_C2F_BUFFER_SIZE)
  then have "unat (C2F_BUFFER_SIZE - t + h) = 512 - unat t + unat h"
    using assms by (subst unat_add_nowrap) auto
  then have "unat (C2F_BUFFER_SIZE - t + h - 1) = 512 - unat t + unat h - 1"
    using assms by (subst unat_sub_nowrap) (auto simp: word_le_nat_alt)
  then show ?thesis
    using False le assms by (auto simp: c2f_free_slot_def occupied_def mod_wrap)
qed

interpretation c2f: ring_space 512 1
  "\<lambda>h t. unat (c2f_free_slot h t)" c2f_advance
  by unfold_locales
    (auto simp: c2f_advance_def c2f_free_slot_unat c2f_next_unat le_Suc_eq)


section \<open>The DMA engine and the loop as one system\<close>

text \<open>
  A PDU as the FPGA sends it: whole flits of 16 words, the flit count in word 7 of the
  header.  The extra page of the CPU buffer bounds the size of one PDU by 64 flits.
\<close>

definition wf_pdu :: "u32 list \<Rightarrow> bool" where
  "wf_pdu p \<longleftrightarrow> 8 \<le> length p \<and> length p = 16 * unat (p ! 7) \<and> unat (p ! 7) \<le> 64"

text \<open>
  One transfer of the DMA engine: nothing happens until enough slots are free, a PDU that
  crosses the end of the ring is written by two descriptors, and the tail register in the
  global slot is written last.
\<close>

definition fpga_write :: "u32 list \<Rightarrow> u32 \<Rightarrow> mem \<Rightarrow> mem option" where
  "fpga_write p h m =
     (let t = m 0; n = length p div 16; low = unat (BUFFER_SIZE - t) * 16;
          base = (unat t + 1) * 16
      in if n \<le> unat (fpga_free_slot h t) then
           Some ((if unat BUFFER_SIZE < unat t + n
                  then copy_dwords 16 (drop low p) (copy_dwords base (take low p) m)
                  else copy_dwords base p m)
                 (0 := ring_advance t (of_nat n)))
         else None)"

text \<open>Word \<open>j\<close> of the ring counted from slot \<open>h\<close>, and a list of words stored from there.\<close>

definition slot_word :: "mem \<Rightarrow> nat \<Rightarrow> nat \<Rightarrow> u32" where
  "slot_word m h j = m (((h + j div 16) mod RING + 1) * 16 + j mod 16)"

definition ring_holds :: "mem \<Rightarrow> nat \<Rightarrow> u32 list \<Rightarrow> bool" where
  "ring_holds m h xs \<longleftrightarrow> (\<forall>j < length xs. slot_word m h j = xs ! j)"

text \<open>What a callback can read of a PDU: the words from its header on.\<close>

definition pdu_window :: "mem \<Rightarrow> block_s \<Rightarrow> u32 list" where
  "pdu_window m b =
     map m [pdu_payload b - 16 ..< pdu_payload b - 16 + 16 * unat (pdu_flit b)]"

record 's ring_sys =
  dma :: "'s dma_state"
  sent :: "u32 list list"

inductive ring_step :: "'s proc_packet_f \<Rightarrow> 's ring_sys \<Rightarrow> 's ring_sys \<Rightarrow> bool"
  for proc_pkt where
  fpga: "wf_pdu p \<Longrightarrow> fpga_write p (cpu_head_reg (dma S)) (kdata (dma S)) = Some m \<Longrightarrow>
     ring_step proc_pkt S (S\<lparr>dma := (dma S)\<lparr>kdata := m\<rparr>, sent := sent S @ [p]\<rparr>)"
| poll: "ring_step proc_pkt S (S\<lparr>dma := read_tail (dma S)\<rparr>)"
| iter: "dma_iter proc_pkt (dma S) = Inr d \<Longrightarrow> ring_step proc_pkt S (S\<lparr>dma := d\<rparr>)"

inductive ring_reach :: "'s proc_packet_f \<Rightarrow> 's ring_sys \<Rightarrow> 's ring_sys \<Rightarrow> bool"
  for proc_pkt and S0 where
  start: "ring_reach proc_pkt S0 S0"
| step: "ring_reach proc_pkt S0 S \<Longrightarrow> ring_step proc_pkt S T \<Longrightarrow> ring_reach proc_pkt S0 T"

subsection \<open>Memory facts\<close>

lemma copy_dwords_outside: "a < dst \<or> dst + length xs \<le> a \<Longrightarrow> copy_dwords dst xs m a = m a"
  by (auto simp: copy_dwords_def)

lemma copy_dwords_inside: "i < length xs \<Longrightarrow> copy_dwords dst xs m (dst + i) = xs ! i"
  by (simp add: copy_dwords_def)

lemma slot_split: "s < RING \<Longrightarrow> r < 16 \<Longrightarrow> (s + 1) * 16 + r < (RING + 1) * 16"
  by simp

text \<open>The words of a slot after a transfer: those of the PDU, at their distance from the tail.\<close>

lemma fpga_write_slot:
  assumes w: "fpga_write p h m = Some m'" and t: "unat (m 0) < RING"
    and len: "length p = 16 * n" and n: "n < RING" and s: "s < RING" and r: "r < 16"
  shows "m' ((s + 1) * 16 + r) =
     (if occupied RING (unat (m 0)) s < n
      then p ! (occupied RING (unat (m 0)) s * 16 + r) else m ((s + 1) * 16 + r))"
proof -
  define tl where "tl = unat (m 0)"
  have low: "unat (BUFFER_SIZE - m 0) = RING - tl"
    using t by (subst unat_sub_nowrap) (auto simp: word_le_nat_alt unat_BUFFER_SIZE tl_def)
  have occ: "occupied RING tl s = (if tl \<le> s then s - tl else s + RING - tl)"
    using t s unfolding tl_def by (rule f2c.occupied_eq)
  show ?thesis
  proof (cases "RING < tl + n")
    case True
    then have m': "m' = (copy_dwords 16 (drop ((RING - tl) * 16) p)
        (copy_dwords ((tl + 1) * 16) (take ((RING - tl) * 16) p) m))
        (0 := ring_advance (m 0) (of_nat n))"
      using w len low by (auto simp: fpga_write_def Let_def unat_BUFFER_SIZE tl_def split: if_splits)
    have lt: "tl < RING" using t by (simp add: tl_def)
    show ?thesis
      using True lt s r n len
      by (auto simp: m' occ copy_dwords_def tl_def [symmetric] nth_drop algebra_simps
          split: if_splits)
  next
    case False
    then have m': "m' = (copy_dwords ((tl + 1) * 16) p m)(0 := ring_advance (m 0) (of_nat n))"
      using w len low by (auto simp: fpga_write_def Let_def unat_BUFFER_SIZE tl_def split: if_splits)
    show ?thesis
      using False s r len n
      by (auto simp: m' occ copy_dwords_def tl_def [symmetric] algebra_simps split: if_splits)
  qed
qed


lemma occupied_shift:
  "h < RING \<Longrightarrow> k < RING \<Longrightarrow> occupied RING h ((h + k) mod RING) = k"
  by (auto simp: occupied_def mod_wrap)

lemma occupied_from_tail:
  assumes "h < RING" and "t < RING" and "j < RING"
  shows "occupied RING t ((h + j) mod RING) =
     (if occupied RING h t \<le> j then j - occupied RING h t
      else j + RING - occupied RING h t)"
  using assms by (auto simp: f2c.occupied_eq mod_wrap split: if_splits)

text \<open>A transfer keeps what the ring holds and appends the new PDU.\<close>

lemma ring_holds_fpga_write:
  assumes w: "fpga_write p hd_reg m = Some m'" and h: "unat hd_reg < RING"
    and t: "unat (m 0) < RING" and len: "length p = 16 * n"
    and xs: "ring_holds m (unat hd_reg) xs"
    and occ: "length xs = 16 * occupied RING (unat hd_reg) (unat (m 0))"
  shows "ring_holds m' (unat hd_reg) (xs @ p)"
proof -
  let ?h = "unat hd_reg" and ?t = "unat (m 0)"
  let ?k = "occupied RING ?h ?t"
  have room: "?k + n < RING"
    using w len fpga_free_slot_unat [OF h t] f2c.occupied_less [of ?h ?t]
    by (auto simp: fpga_write_def Let_def split: if_splits)
  have slot: "slot_word m' ?h j =
      (if j < 16 * ?k then slot_word m ?h j else p ! (j - 16 * ?k))"
    if j: "j < 16 * (?k + n)" for j
  proof -
    have q: "j div 16 < RING" using j room by simp
    have "occupied RING ?t ((?h + j div 16) mod RING) =
        (if ?k \<le> j div 16 then j div 16 - ?k else j div 16 + RING - ?k)"
      using h t q by (rule occupied_from_tail)
    moreover have "(j div 16 - ?k) * 16 + j mod 16 = j - 16 * ?k"
      if "?k \<le> j div 16"
      using that by (simp add: diff_mult_distrib)
    ultimately show ?thesis
      unfolding slot_word_def
      using fpga_write_slot [OF w t len, of "(?h + j div 16) mod RING" "j mod 16"] room j q
      by (auto split: if_splits)
  qed
  show ?thesis
    using xs slot occ len by (auto simp: ring_holds_def nth_append)
qed

lemma fpga_write_tail:
  assumes "fpga_write p h m = Some m'"
  shows "m' 0 = ring_advance (m 0) (of_nat (length p div 16))"
    and "length p div 16 \<le> unat (fpga_free_slot h (m 0))"
  using assms by (auto simp: fpga_write_def Let_def split: if_splits)

subsection \<open>A PDU is read contiguously\<close>

lemma head_index: "unat h < RING \<Longrightarrow> unat ((h + 1) * 16 :: u32) = (unat h + 1) * 16"
  by (subst unat_mult_nowrap; subst unat_add_nowrap) auto

lemma round_copy_window:
  assumes h: "unat h < RING" and n: "unat flit \<le> 64"
  shows "\<exists>m'. round_copy h flit m = Inr m' \<and>
     (\<forall>a < (RING + 1) * 16. m' a = m a) \<and>
     (\<forall>j < 16 * unat flit. m' ((unat h + 1) * 16 + j) = slot_word m (unat h) j)"
proof -
  have sum: "unat (h + flit) = unat h + unat flit"
    using h n by (subst unat_add_nowrap) auto
  show ?thesis
  proof (cases "RING < unat h + unat flit")
    case False
    then have "round_copy h flit m = Inr m"
      by (simp add: round_copy_def word_less_nat_alt unat_BUFFER_SIZE sum)
    moreover have "slot_word m (unat h) j = m ((unat h + 1) * 16 + j)"
      if "j < 16 * unat flit" for j
    proof -
      have "unat h + j div 16 < RING" using that False by auto
      then show ?thesis by (simp add: slot_word_def ac_simps)
    qed
    ultimately show ?thesis by auto
  next
    case True
    let ?c = "unat h + unat flit - RING"
    have c: "unat (h + flit - BUFFER_SIZE) = ?c"
      using True sum by (subst unat_sub_nowrap) (auto simp: word_le_nat_alt unat_BUFFER_SIZE)
    have c64: "?c \<le> 64" using h n by linarith
    have c16: "unat ((h + flit - BUFFER_SIZE) * 16) = ?c * 16"
      using c c64 by (subst unat_mult_nowrap) auto
    have cb: "unat ((h + flit - BUFFER_SIZE) * 16 * 4) = ?c * 16 * 4"
      using c16 c64 by (subst unat_mult_nowrap) auto
    define m' where "m' = copy_dwords ((RING + 1) * 16) (map m [16..<16 + 16 * ?c]) m"
    have dst: "unat ((BUFFER_SIZE + 1) * 16) = (RING + 1) * 16"
      and al: "unat allocated_size = 4 * ((RING + 1) * 16 + 1024)"
      by (simp_all add: BUFFER_SIZE_def allocated_size_def)
    have rc: "round_copy h flit m = Inr m'"
      unfolding round_copy_def Let_def cb dst al using True c64
      by (simp add: word_less_nat_alt unat_BUFFER_SIZE sum m'_def mult.commute)
    have out: "m' a = m a" if "a < (RING + 1) * 16" for a
      using that by (simp add: m'_def copy_dwords_def)
    moreover have "m' ((unat h + 1) * 16 + j) = slot_word m (unat h) j"
      if j: "j < 16 * unat flit" for j
    proof (cases "unat h + j div 16 < RING")
      case True
      then show ?thesis using out by (simp add: slot_word_def ac_simps)
    next
      case False
      define jq jr where "jq = j div 16" and "jr = j mod 16"
      have j': "j = 16 * jq + jr" "jr < 16" by (simp_all add: jq_def jr_def)
      obtain e where e: "unat h + jq = RING + e"
        using False jq_def le_Suc_ex linorder_not_less by blast
      have jq: "jq < unat flit" using j j' by linarith
      have wrap: "(unat h + j div 16) mod RING = e"
        using e h n jq unfolding jq_def [symmetric] by simp
      have "(unat h + 1) * 16 + j = (unat h + jq) * 16 + 16 + jr" using j'(1) by simp
      then have a: "(unat h + 1) * 16 + j = (RING + 1) * 16 + (e * 16 + jr)"
        unfolding e by simp
      have "e * 16 + jr < 16 * ?c"
        using e j' jq by linarith
      then show ?thesis
        unfolding a wrap slot_word_def m'_def jr_def [symmetric]
        by (subst copy_dwords_inside) (auto simp: add.assoc)
    qed
    ultimately show ?thesis using rc by auto
  qed
qed


subsection \<open>The invariant\<close>

definition flits :: "u32 list list \<Rightarrow> nat" where
  "flits q = length (concat q) div 16"

definition ring_inv :: "'s ring_sys \<Rightarrow> u32 list list \<Rightarrow> bool" where
  "ring_inv S q \<longleftrightarrow>
     (let d = dma S; h = unat (cpu_head d); t = unat (kdata d 0); t' = unat (cpu_tail d)
      in cpu_head_reg d = cpu_head d \<and> h < RING \<and> t < RING \<and> t' < RING \<and>
         list_all wf_pdu q \<and>
         ring_holds (kdata d) h (concat q) \<and>
         occupied RING h t = flits q \<and>
         (\<exists>k \<le> length q. occupied RING h t' = flits (take k q)))"

lemma wf_pdu_length: "wf_pdu p \<Longrightarrow> length p = 16 * unat (p ! 7)"
  by (simp add: wf_pdu_def)

lemma wf_pdu_pos: "wf_pdu p \<Longrightarrow> 0 < unat (p ! 7)"
  by (auto simp: wf_pdu_def)

lemma length_concat_wf: "list_all wf_pdu q \<Longrightarrow> length (concat q) = 16 * flits q"
proof (induction q)
  case (Cons p q)
  then have "length (concat q) = 16 * flits q" and "length p = 16 * unat (p ! 7)"
    by (auto simp: wf_pdu_length)
  then show ?case by (simp add: flits_def)
qed (simp add: flits_def)

lemma flits_Nil [simp]: "flits [] = 0"
  by (simp add: flits_def)

lemma flits_Cons: "wf_pdu p \<Longrightarrow> list_all wf_pdu q \<Longrightarrow> flits (p # q) = unat (p ! 7) + flits q"
  using length_concat_wf [of q] by (simp add: flits_def wf_pdu_length)

lemma flits_snoc:
  "wf_pdu p \<Longrightarrow> list_all wf_pdu q \<Longrightarrow> flits (q @ [p]) = flits q + unat (p ! 7)"
  using length_concat_wf [of q] by (simp add: flits_def wf_pdu_length)

lemma ring_inv_fpga:
  assumes inv: "ring_inv S q" and p: "wf_pdu p"
    and w: "fpga_write p (cpu_head_reg (dma S)) (kdata (dma S)) = Some m"
  shows "ring_inv (S\<lparr>dma := (dma S)\<lparr>kdata := m\<rparr>, sent := sent S @ [p]\<rparr>) (q @ [p])"
proof -
  let ?d = "dma S"
  let ?h = "cpu_head ?d" and ?t = "kdata ?d 0" and ?n = "unat (p ! 7)"
  from inv have reg: "cpu_head_reg ?d = ?h" and h: "unat ?h < RING" and t: "unat ?t < RING"
    and q: "list_all wf_pdu q" and holds: "ring_holds (kdata ?d) (unat ?h) (concat q)"
    and occ: "occupied RING (unat ?h) (unat ?t) = flits q"
    and t': "unat (cpu_tail ?d) < RING"
    by (auto simp: ring_inv_def Let_def)
  from inv obtain k where k: "k \<le> length q"
    "occupied RING (unat ?h) (unat (cpu_tail ?d)) = flits (take k q)"
    by (auto simp: ring_inv_def Let_def)
  have len: "length p = 16 * ?n" using p by (rule wf_pdu_length)
  have tail: "m 0 = ring_advance ?t (of_nat ?n)" and free: "?n \<le> unat (fpga_free_slot ?h ?t)"
    using fpga_write_tail [OF w] len reg by simp_all
  have n: "?n \<le> RING" using p by (simp add: wf_pdu_def)
  have "ring_holds m (unat ?h) (concat q @ p)"
    using w h t len holds length_concat_wf [OF q]
    unfolding reg by (intro ring_holds_fpga_write [where n = ?n and hd_reg = ?h]) (auto simp: occ)
  moreover have "occupied RING (unat ?h) (unat (m 0)) = flits (q @ [p])"
    using f2c.occupied_produce [OF h t free n] tail occ flits_snoc [OF p q] by simp
  moreover have "unat (m 0) < RING" using f2c.adv_less [OF t n] tail by simp
  moreover have "k \<le> length (q @ [p]) \<and> take k (q @ [p]) = take k q" using k by simp
  ultimately show ?thesis
    using reg h t' q p k by (auto simp: ring_inv_def Let_def intro!: exI [of _ k])
qed

lemma ring_inv_poll:
  assumes "ring_inv S q" shows "ring_inv (S\<lparr>dma := read_tail (dma S)\<rparr>) q"
  using assms by (auto simp: ring_inv_def Let_def read_tail_def intro!: exI [of _ "length q"])

text \<open>An iteration on a non-empty snapshot hands the oldest PDU, contiguous, to the callback.\<close>

lemma ring_inv_iter:
  assumes inv: "ring_inv S q" and ne: "cpu_tail (dma S) \<noteq> cpu_head (dma S)"
  shows "\<exists>p q' d. q = p # q' \<and> dma_iter proc_pkt (dma S) = Inr d \<and>
     ring_inv (S\<lparr>dma := d\<rparr>) q' \<and> pdu_window (kdata d) (pdu d) = p \<and>
     user d = proc_pkt (kdata d) (pdu d) (user (dma S))"
proof -
  let ?d = "dma S"
  let ?h = "cpu_head ?d" and ?t = "kdata ?d 0" and ?t' = "cpu_tail ?d"
  from inv have reg: "cpu_head_reg ?d = ?h" and h: "unat ?h < RING" and t: "unat ?t < RING"
    and q: "list_all wf_pdu q" and holds: "ring_holds (kdata ?d) (unat ?h) (concat q)"
    and occ: "occupied RING (unat ?h) (unat ?t) = flits q"
    and t': "unat ?t' < RING"
    by (auto simp: ring_inv_def Let_def)
  from inv obtain k where k: "k \<le> length q"
    "occupied RING (unat ?h) (unat ?t') = flits (take k q)"
    by (auto simp: ring_inv_def Let_def)
  have "occupied RING (unat ?h) (unat ?t') \<noteq> 0"
    using f2c.empty_iff [OF h t'] ne by (auto simp: word_unat_eq_iff)
  then obtain p q' k' where qk: "q = p # q'" "k = Suc k'"
    using k by (cases q; cases k) auto
  have p: "wf_pdu p" and q': "list_all wf_pdu q'" using q qk by auto
  let ?n = "unat (p ! 7)"
  let ?b = "fill_block (kdata ?d) (unat ((?h + 1) * 16)) (pdu ?d)"
  have n: "?n \<le> 64" "8 \<le> length p" using p by (auto simp: wf_pdu_def)
  have "slot_word (kdata ?d) (unat ?h) 7 = p ! 7"
    using holds n qk by (auto simp: ring_holds_def nth_append)
  then have flit: "pdu_flit ?b = p ! 7"
    using h unfolding head_index [OF h]
    by (simp add: fill_block_def Let_def slot_word_def add.commute)
  obtain m' where m': "round_copy ?h (p ! 7) (kdata ?d) = Inr m'"
    and same: "\<And>a. a < (RING + 1) * 16 \<Longrightarrow> m' a = kdata ?d a"
    and win: "\<And>j. j < 16 * ?n \<Longrightarrow> m' ((unat ?h + 1) * 16 + j) = slot_word (kdata ?d) (unat ?h) j"
    using round_copy_window [OF h n(1)] by blast
  have slots: "slot_word m' x j = slot_word (kdata ?d) x j" for x j
    unfolding slot_word_def by (intro same slot_split) simp_all
  let ?h' = "ring_advance ?h (p ! 7)"
  have adv: "?h' = ring_advance ?h (of_nat ?n)" by simp
  have h'mod: "unat ?h' = (unat ?h + ?n) mod RING"
    using h n unfolding adv by (intro ring_advance_unat) auto
  have le: "?n \<le> flits q" using flits_Cons [OF p q'] qk by simp
  have nR: "?n \<le> RING" using n by simp
  have tk: "flits (take k q) = ?n + flits (take k' q')"
    using flits_Cons [OF p, of "take k' q'"] q' qk
    by (simp add: list_all_iff) (blast dest: in_set_takeD)
  have occ': "occupied RING (unat ?h') (unat ?t) = flits q'"
    unfolding adv using f2c.occupied_consume [OF h t _ nR] le occ flits_Cons [OF p q'] qk(1)
    by simp
  have occt: "occupied RING (unat ?h') (unat ?t') = flits (take k' q')"
    unfolding adv using f2c.occupied_consume [OF h t' _ nR] tk k(2) by simp
  have shift: "slot_word m' (unat ?h') j = slot_word m' (unat ?h) (16 * ?n + j)" for j
  proof -
    have "((unat ?h + ?n) mod RING + j div 16) mod RING = (unat ?h + (16 * ?n + j) div 16) mod RING"
      by (simp add: mod_add_left_eq add.assoc)
    then show ?thesis by (simp add: slot_word_def h'mod)
  qed
  have hold: "slot_word (kdata ?d) (unat ?h) j = concat q ! j" if "j < length (concat q)" for j
    using holds that by (simp add: ring_holds_def)
  have plen: "length p = 16 * ?n" using p by (rule wf_pdu_length)
  have holds': "ring_holds m' (unat ?h') (concat q')"
    unfolding ring_holds_def
  proof (intro allI impI)
    fix j assume "j < length (concat q')"
    then show "slot_word m' (unat ?h') j = concat q' ! j"
      using hold [of "16 * ?n + j"] shift [of j] slots [of "unat ?h" "16 * ?n + j"] plen qk(1)
      by (simp add: nth_append)
  qed
  have window: "pdu_window m' ?b = p"
  proof (rule nth_equalityI)
    show "length (pdu_window m' ?b) = length p"
      using flit wf_pdu_length [OF p] by (simp add: pdu_window_def)
    fix j assume "j < length (pdu_window m' ?b)"
    then have j: "j < 16 * ?n" using flit by (simp add: pdu_window_def)
    have "pdu_payload ?b - 16 = (unat ?h + 1) * 16"
      unfolding head_index [OF h] by (simp add: fill_block_def Let_def)
    then have "pdu_window m' ?b ! j = slot_word (kdata ?d) (unat ?h) j"
      using j flit win [OF j] by (simp add: pdu_window_def)
    also have "\<dots> = p ! j"
      using hold [of j] j qk(1) plen by (simp add: nth_append)
    finally show "pdu_window m' ?b ! j = p ! j" .
  qed
  let ?d' = "?d\<lparr>kdata := m', cpu_head := ?h',
      free_slot := f2c_free_slot ?h ?t', pdu := ?b, cpu_head_reg := ?h',
      rx_pkts := rx_pkts ?d + 1, num_rules := num_rules ?d + ucast (num_rule_id ?b),
      user := proc_pkt m' ?b (user ?d)\<rparr>"
  have step: "dma_iter proc_pkt ?d = Inr ?d'"
    using ne m' flit by (simp add: dma_iter_def Let_def)
  have "unat ?h' < RING" using h'mod by simp
  moreover have "m' 0 = ?t" by (rule same) simp
  moreover have "k' \<le> length q'" using k qk by simp
  ultimately have "ring_inv (S\<lparr>dma := ?d'\<rparr>) q'"
    unfolding ring_inv_def Let_def using occ' occt q' t t' holds' by simp blast
  then show ?thesis using step window qk(1) by (intro exI [of _ p] exI [of _ q'] exI [of _ ?d']) simp
qed


subsection \<open>Every PDU once, in order, contiguous\<close>

text \<open>A callback that depends on a PDU only through the words of that PDU.\<close>

definition on_window :: "(u32 list \<Rightarrow> 's \<Rightarrow> 's) \<Rightarrow> 's proc_packet_f" where
  "on_window f m b = f (pdu_window m b)"

text \<open>The system before the first transfer: empty ring, all registers zero.\<close>

definition ring_init :: "mem \<Rightarrow> block_s \<Rightarrow> 's \<Rightarrow> 's ring_sys" where
  "ring_init m pdu0 user0 =
     \<lparr>dma = \<lparr>kdata = m(0 := 0), cpu_head = 0, cpu_tail = 0, free_slot = 0, pdu = pdu0,
             cpu_head_reg = 0, rx_pkts = 0, num_rules = 0, user = user0\<rparr>,
      sent = []\<rparr>"

lemma ring_inv_init: "ring_inv (ring_init m pdu0 user0) []"
  by (simp add: ring_inv_def ring_init_def ring_holds_def occupied_def)

lemma dma_iter_idle: "cpu_tail s = cpu_head s \<Longrightarrow> dma_iter proc_pkt s = Inr s"
  by (simp add: dma_iter_def)

inductive_cases ring_stepE: "ring_step proc_pkt S T"

lemma ring_step_queue:
  assumes step: "ring_step (on_window f) S T" and inv: "ring_inv S q"
    and sent: "sent S = done @ q" and user: "user (dma S) = fold f done u"
  shows "\<exists>done' q'. ring_inv T q' \<and> sent T = done' @ q' \<and> user (dma T) = fold f done' u"
  using step
proof (cases rule: ring_step.cases)
  case (fpga p m)
  then have "ring_inv T (q @ [p])" using ring_inv_fpga [OF inv] by simp
  then show ?thesis using fpga sent user by (intro exI [of _ "done"] exI [of _ "q @ [p]"]) simp
next
  case poll
  then have "ring_inv T q" using ring_inv_poll [OF inv] by simp
  then show ?thesis
    using poll sent user by (intro exI [of _ "done"] exI [of _ q]) (simp add: read_tail_def)
next
  case (iter d)
  show ?thesis
  proof (cases "cpu_tail (dma S) = cpu_head (dma S)")
    case True
    then have "T = S" using iter dma_iter_idle [OF True] by simp
    then show ?thesis using inv sent user by blast
  next
    case False
    obtain p q' d' where q: "q = p # q'" and "dma_iter (on_window f) (dma S) = Inr d'"
      and inv': "ring_inv (S\<lparr>dma := d'\<rparr>) q'" and p: "pdu_window (kdata d') (pdu d') = p"
      and us: "user d' = on_window f (kdata d') (pdu d') (user (dma S))"
      using ring_inv_iter [OF inv False, of "on_window f"] by blast
    then have T: "T = S\<lparr>dma := d'\<rparr>" using iter by simp
    have "user (dma T) = fold f (done @ [p]) u"
      using T us p user by (simp add: on_window_def)
    then show ?thesis
      using T inv' sent q by (intro exI [of _ "done @ [p]"] exI [of _ q']) simp
  qed
qed

lemma ring_reach_queue:
  assumes "ring_reach (on_window f) (ring_init m pdu0 u) S"
  shows "\<exists>done q. ring_inv S q \<and> sent S = done @ q \<and> user (dma S) = fold f done u"
  using assms
proof (induction rule: ring_reach.induct)
  case start
  show ?case using ring_inv_init by (auto simp: ring_init_def)
next
  case (step S T)
  then obtain "done" q where "ring_inv S q" "sent S = done @ q" "user (dma S) = fold f done u"
    by blast
  with step.hyps(2) show ?case by (rule ring_step_queue)
qed


section \<open>Properties\<close>

text \<open>
  C2.  The PDU ring is a reliable FIFO.  Whatever the interleaving of DMA transfers, tail
  reads and loop iterations, in every reachable state the PDUs the FPGA has sent are those
  already handled followed by those still queued, and the callback's state is the result of
  applying the callback to the handled PDUs once each, in order, each seen as one contiguous
  block even when it crosses the end of the ring.
\<close>

theorem pdu_ring_fifo:
  assumes "ring_reach (on_window f) (ring_init m pdu0 u) S"
  shows "\<exists>handled queued. sent S = handled @ queued \<and> user (dma S) = fold f handled u \<and>
     flits queued = occupied RING (unat (cpu_head (dma S))) (unat (kdata (dma S) 0))"
proof -
  obtain handled queued where "ring_inv S queued" and "sent S = handled @ queued"
    and "user (dma S) = fold f handled u"
    using ring_reach_queue [OF assms] by blast
  then show ?thesis
    by (intro exI [of _ handled] exI [of _ queued]) (simp add: ring_inv_def Let_def)
qed

definition ring_example_pdu :: "u32 list" where
  "ring_example_pdu = [42, 0x04000050, 1, 2, 6, 0, 0, 1, 0, 0, 0, 0, 0, 0, 0, 0]"

definition ring_example_block :: block_s where
  "ring_example_block = \<lparr>pdu_id = 0, dst_port = 0, src_port = 0, dst_ip = 0, src_ip = 0,
     protocol = 0, num_rule_id = 0, pdu_size = 0, pdu_flit = 0, action = 0,
     pdu_payload = 0, rule_id = 0\<rparr>"

abbreviation log_pdu :: "u32 list \<Rightarrow> u32 list list \<Rightarrow> u32 list list" where
  "log_pdu w log \<equiv> log @ [w]"

text \<open>One PDU travels through the ring: it is written, the tail is read, it is handled.\<close>

lemma ring_example_write:
  "fpga_write ring_example_pdu 0 ((\<lambda>_. 0)(0 := 0)) =
     Some ((copy_dwords 16 ring_example_pdu (\<lambda>_. 0))(0 := 1))"
  by (simp add: fpga_write_def ring_example_pdu_def Let_def fpga_free_slot_def BUFFER_SIZE_def
      ring_advance_def fun_upd_def)

definition ring_example_mem :: mem where
  "ring_example_mem = (copy_dwords 16 ring_example_pdu (\<lambda>_. 0))(0 := 1)"

definition ring_example_state :: "u32 list list ring_sys" where
  "ring_example_state =
     (let S = ring_init (\<lambda>_. 0) ring_example_block []
      in S\<lparr>dma := (dma S)\<lparr>kdata := ring_example_mem, cpu_tail := 1, cpu_head := 1,
            cpu_head_reg := 1, free_slot := f2c_free_slot 0 1,
            pdu := fill_block ring_example_mem 16 ring_example_block,
            rx_pkts := 1, num_rules := 0, user := [ring_example_pdu]\<rparr>,
           sent := [ring_example_pdu]\<rparr>)"

lemma ring_example_header:
  "pdu_flit (fill_block ring_example_mem 16 b) = 1"
  "num_rule_id (fill_block ring_example_mem 16 b) = 0"
  "pdu_payload (fill_block ring_example_mem 16 b) = 32"
  by (simp_all add: fill_block_def Let_def copy_dwords_def ring_example_mem_def
      ring_example_pdu_def)

lemma ring_example_window:
  "pdu_window ring_example_mem (fill_block ring_example_mem 16 b) = ring_example_pdu"
  unfolding pdu_window_def ring_example_header
  by (simp add: copy_dwords_def ring_example_mem_def ring_example_pdu_def)

lemma ring_example_iter:
  "dma_iter (on_window log_pdu)
     (read_tail (dma (ring_init (\<lambda>_. 0) ring_example_block []))\<lparr>kdata := ring_example_mem,
       cpu_tail := 1\<rparr>) = Inr (dma ring_example_state)"
  by (simp add: dma_iter_def ring_init_def read_tail_def ring_example_state_def Let_def
      ring_example_header round_copy_def ring_advance_def BUFFER_SIZE_def on_window_def
      ring_example_window)

lemma ring_example_reach:
  "ring_reach (on_window log_pdu) (ring_init (\<lambda>_. 0) ring_example_block []) ring_example_state"
proof -
  let ?S0 = "ring_init (\<lambda>_. 0) ring_example_block [] :: u32 list list ring_sys"
  let ?S1 = "?S0\<lparr>dma := (dma ?S0)\<lparr>kdata := ring_example_mem\<rparr>,
     sent := sent ?S0 @ [ring_example_pdu]\<rparr>"
  let ?S2 = "?S1\<lparr>dma := read_tail (dma ?S1)\<rparr>"
  have w: "wf_pdu ring_example_pdu" by (simp add: wf_pdu_def ring_example_pdu_def)
  have "fpga_write ring_example_pdu (cpu_head_reg (dma ?S0)) (kdata (dma ?S0)) =
      Some ring_example_mem"
    unfolding ring_example_mem_def ring_example_write [symmetric] by (simp add: ring_init_def)
  with w have "ring_reach (on_window log_pdu) ?S0 ?S1"
    by (intro ring_reach.step [OF ring_reach.start] ring_step.fpga)
  then have r: "ring_reach (on_window log_pdu) ?S0 ?S2"
    by (rule ring_reach.step) (rule ring_step.poll)
  have "dma_iter (on_window log_pdu) (dma ?S2) = Inr (dma ring_example_state)"
    using ring_example_iter by (simp add: read_tail_def ring_example_mem_def)
  from ring_reach.step [OF r ring_step.iter, OF this] show ?thesis
    by (simp add: ring_example_state_def Let_def ring_init_def)
qed

theorem pdu_ring_fifo_witness:
  "ring_reach (on_window log_pdu) (ring_init (\<lambda>_. 0) ring_example_block []) ring_example_state \<and>
   (\<exists>handled queued. sent ring_example_state = handled @ queued \<and>
     user (dma ring_example_state) = fold log_pdu handled [] \<and>
     flits queued = occupied RING (unat (cpu_head (dma ring_example_state)))
       (unat (kdata (dma ring_example_state) 0)))"
  using pdu_ring_fifo [OF ring_example_reach] ring_example_reach by blast




lemma c2f_wait_Some:
  "c2f_wait t hs = Some h \<Longrightarrow> h \<in> set hs \<and> c2f_free_slot h t \<noteq> 0"
  by (induction t hs rule: c2f_wait.induct) (auto split: if_splits)

lemma c2f_wait_progress:
  "h \<in> set hs \<Longrightarrow> c2f_free_slot h t \<noteq> 0 \<Longrightarrow> \<exists>h'. c2f_wait t hs = Some h'"
  by (induction t hs rule: c2f_wait.induct) auto



text \<open>
  C40.  \<open>get_dev_handles\<close> reports success although it has already closed both descriptors:
  when either query fails, it returns 0 and no descriptor is open any more, so the check of
  the caller cannot notice.
\<close>

theorem get_dev_handles_masks_failure:
  assumes "0 \<le> fd" and "0 \<le> ufd" and "ioctl_dev_fails \<or> ioctl_bar_fails"
  shows "dev_ret (get_dev_handles fd ufd ioctl_dev_fails ioctl_bar_fails) = 0 \<and>
     dev_open (get_dev_handles fd ufd ioctl_dev_fails ioctl_bar_fails) = {}"
  using assms by (auto simp: get_dev_handles_def Let_def)


theorem get_dev_handles_masks_failure_witness:
  "dev_ret (get_dev_handles 5 6 True False) = 0 \<and> dev_open (get_dev_handles 5 6 True False) = {}"
  by (rule get_dev_handles_masks_failure) simp_all

end
