(* ===== verification/Cursor.thy ===== *)
theory Cursor
  imports Snort_Prelude
begin

text \<open>
  The detection cursor of \<^verbatim>\<open>framework/cursor.h\<close> and \<^verbatim>\<open>cursor.cc\<close>: a named buffer with a
  position and a loop offset, both 32 bit and both allowed one past the end.  The buffer
  pointer and the size are the byte list and its recorded size.
\<close>

record cursor =
  cur_name :: string
  cur_data :: bytes
  cur_sz :: u32
  cur_pos :: u32
  cur_delta :: u32

definition cursor_set :: "string \<Rightarrow> bytes \<Rightarrow> u32 \<Rightarrow> cursor \<Rightarrow> cursor" where
  "cursor_set s b n c =
     c\<lparr>cur_name := s, cur_data := b, cur_sz := n, cur_pos := 0, cur_delta := 0\<rparr>"

text \<open>
  \<open>reset\<close> takes the alternate buffer of the flow's inspector when there is one (the
  argument \<open>alt\<close>), otherwise the packet data up to the detection limit.
\<close>

definition cursor_reset :: "(bytes \<times> u32) option \<Rightarrow> bytes \<Rightarrow> u32 \<Rightarrow> cursor \<Rightarrow> cursor" where
  "cursor_reset alt data limit c =
     (case alt of
        Some (b, n) \<Rightarrow> cursor_set ''alt_data'' b n c
      | None \<Rightarrow> cursor_set ''pkt_data'' data limit c)"

definition cursor_copy :: "cursor \<Rightarrow> cursor" where
  "cursor_copy rhs = rhs\<lparr>cur_delta := 0\<rparr>"

definition cursor_is :: "cursor \<Rightarrow> string \<Rightarrow> bool" where
  "cursor_is c s \<longleftrightarrow> cur_name c = s"

definition cursor_length :: "cursor \<Rightarrow> u32" where
  "cursor_length c = cur_sz c - cur_pos c"

text \<open>The three movers return their success flag and the cursor.\<close>

definition add_pos :: "u32 \<Rightarrow> cursor \<Rightarrow> bool \<times> cursor" where
  "add_pos n c =
     (if cur_sz c < cur_pos c + n then (False, c) else (True, c\<lparr>cur_pos := cur_pos c + n\<rparr>))"

definition set_pos :: "u32 \<Rightarrow> cursor \<Rightarrow> bool \<times> cursor" where
  "set_pos n c = (if cur_sz c < n then (False, c) else (True, c\<lparr>cur_pos := n\<rparr>))"

definition set_delta :: "u32 \<Rightarrow> cursor \<Rightarrow> bool \<times> cursor" where
  "set_delta n c = (if cur_sz c < n then (False, c) else (True, c\<lparr>cur_delta := n\<rparr>))"

text \<open>The invariant: the recorded size is that of the buffer, and both offsets lie in it.\<close>

definition cursor_ok :: "cursor \<Rightarrow> bool" where
  "cursor_ok c \<longleftrightarrow>
     unat (cur_sz c) = length (cur_data c) \<and> cur_pos c \<le> cur_sz c \<and> cur_delta c \<le> cur_sz c"

lemma cursor_set_ok [inv_intros]:
  "unat n = length b \<Longrightarrow> cursor_ok (cursor_set s b n c)"
  by (simp add: cursor_ok_def cursor_set_def)

lemma cursor_copy_ok [inv_intros]: "cursor_ok c \<Longrightarrow> cursor_ok (cursor_copy c)"
  by (simp add: cursor_ok_def cursor_copy_def)

lemma add_pos_ok [inv_intros]: "cursor_ok c \<Longrightarrow> cursor_ok (snd (add_pos n c))"
  by (auto simp: cursor_ok_def add_pos_def not_less)

lemma set_pos_ok [inv_intros]: "cursor_ok c \<Longrightarrow> cursor_ok (snd (set_pos n c))"
  by (auto simp: cursor_ok_def set_pos_def not_less)

lemma set_delta_ok [inv_intros]: "cursor_ok c \<Longrightarrow> cursor_ok (snd (set_delta n c))"
  by (auto simp: cursor_ok_def set_delta_def not_less)

text \<open>What the movers keep: everything but the field they set.\<close>

lemma add_pos_frame [simp]:
  "cur_data (snd (add_pos n c)) = cur_data c" "cur_sz (snd (add_pos n c)) = cur_sz c"
  "cur_name (snd (add_pos n c)) = cur_name c" "cur_delta (snd (add_pos n c)) = cur_delta c"
  by (simp_all add: add_pos_def)

lemma set_pos_frame [simp]:
  "cur_data (snd (set_pos n c)) = cur_data c" "cur_sz (snd (set_pos n c)) = cur_sz c"
  "cur_name (snd (set_pos n c)) = cur_name c" "cur_delta (snd (set_pos n c)) = cur_delta c"
  by (simp_all add: set_pos_def)

lemma set_delta_frame [simp]:
  "cur_data (snd (set_delta n c)) = cur_data c" "cur_sz (snd (set_delta n c)) = cur_sz c"
  "cur_name (snd (set_delta n c)) = cur_name c" "cur_pos (snd (set_delta n c)) = cur_pos c"
  by (simp_all add: set_delta_def)

text \<open>
  Under the invariant the length never wraps, and a forward move of less than \<open>2^32 - sz\<close>
  succeeds exactly when it stays in the buffer.
\<close>

lemma cursor_length_nat:
  "cursor_ok c \<Longrightarrow> unat (cursor_length c) = length (cur_data c) - unat (cur_pos c)"
  by (simp add: cursor_ok_def cursor_length_def unat_sub_nowrap)

lemma cursor_pos_le: "cursor_ok c \<Longrightarrow> unat (cur_pos c) \<le> length (cur_data c)"
  by (simp add: cursor_ok_def word_le_nat_alt)

lemma add_pos_forward:
  assumes "cursor_ok c" and "length (cur_data c) + unat n < 2 ^ 32"
  shows "fst (add_pos n c) \<longleftrightarrow> unat (cur_pos c) + unat n \<le> length (cur_data c)"
proof -
  have "unat (cur_pos c + n) = unat (cur_pos c) + unat n"
    using assms cursor_pos_le [OF assms(1)] by (intro unat_add_nowrap) simp
  then show ?thesis using assms by (simp add: add_pos_def cursor_ok_def word_less_nat_alt not_less)
qed

end
