(* ===== verification/Cstring.thy ===== *)
theory Cstring
  imports Snort_Prelude
begin

text \<open>
  The C library's character classes and number parsers as the sources use them, and
  \<open>SnortStrToU32\<close> of \<^verbatim>\<open>utils/util_cstring.h\<close>.  A C string is the list of its bytes
  before the terminating NUL.  The parsers return the value and the number of characters
  consumed, which stands for the end pointer.
\<close>

section \<open>Character classes\<close>

definition isspace :: "u8 \<Rightarrow> bool" where
  "isspace c \<longleftrightarrow> c = 32 \<or> (9 \<le> c \<and> c \<le> 13)"

definition isdigit :: "u8 \<Rightarrow> bool" where
  "isdigit c \<longleftrightarrow> 48 \<le> c \<and> c \<le> 57"

text \<open>The value of a character as a digit of a base up to 36.\<close>

definition digit_val :: "u8 \<Rightarrow> nat option" where
  "digit_val c =
     (if 48 \<le> c \<and> c \<le> 57 then Some (unat c - 48)
      else if 65 \<le> c \<and> c \<le> 90 then Some (unat c - 55)
      else if 97 \<le> c \<and> c \<le> 122 then Some (unat c - 87)
      else None)"

definition digit_in :: "nat \<Rightarrow> u8 \<Rightarrow> bool" where
  "digit_in b c = (case digit_val c of Some d \<Rightarrow> d < b | None \<Rightarrow> False)"

definition c_str :: "bytes \<Rightarrow> bytes" where
  "c_str s = takeWhile (\<lambda>c. c \<noteq> 0) s"

section \<open>Number parsers\<close>

fun digits_value :: "nat \<Rightarrow> nat \<Rightarrow> bytes \<Rightarrow> nat" where
  "digits_value b acc [] = acc"
| "digits_value b acc (c # cs) =
     digits_value b (acc * b + (case digit_val c of Some d \<Rightarrow> d | None \<Rightarrow> 0)) cs"

text \<open>
  The common part of \<open>strtol\<close> and \<open>strtoul\<close>: optional white space, an optional sign, for base
  16 (or 0) an optional \<open>0x\<close> that is followed by a hexadecimal digit, then digits.  The
  result is the sign, the magnitude and the characters consumed, 0 of them when there was no
  digit; \<open>None\<close> is the error \<open>EINVAL\<close> for a base that does not exist.
\<close>

definition has_hex_prefix :: "bytes \<Rightarrow> bool" where
  "has_hex_prefix s =
     (case s of c # x # d # _ \<Rightarrow> c = 48 \<and> (x = 120 \<or> x = 88) \<and> digit_in 16 d | _ \<Rightarrow> False)"

definition number_base :: "int \<Rightarrow> bytes \<Rightarrow> nat \<times> nat" where
  "number_base base s =
     (if (base = 0 \<or> base = 16) \<and> has_hex_prefix s then (16, 2)
      else if base = 0 then (if s \<noteq> [] \<and> hd s = 48 then 8 else 10, 0)
      else (nat base, 0))"

definition scan_number :: "int \<Rightarrow> bytes \<Rightarrow> (bool \<times> nat \<times> nat) option" where
  "scan_number base s =
     (if base < 0 \<or> base = 1 \<or> 36 < base then None
      else
        let sp = length (takeWhile isspace s);
            s1 = drop sp s;
            signed = (s1 \<noteq> [] \<and> (hd s1 = 43 \<or> hd s1 = 45));
            neg = (s1 \<noteq> [] \<and> hd s1 = 45);
            s2 = (if signed then tl s1 else s1);
            b = fst (number_base base s2);
            pre = snd (number_base base s2);
            ds = takeWhile (digit_in b) (drop pre s2)
        in if ds = [] then Some (False, 0, 0)
           else Some (neg, digits_value b 0 ds,
                      sp + (if signed then 1 else 0) + pre + length ds))"

definition strtoul :: "int \<Rightarrow> bytes \<Rightarrow> (nat \<times> nat) option" where
  "strtoul base s =
     (case scan_number base s of
        None \<Rightarrow> None
      | Some (neg, v, n) \<Rightarrow>
          Some (if 2 ^ 64 \<le> v then 2 ^ 64 - 1
                else if neg then (2 ^ 64 - v) mod 2 ^ 64 else v, n))"

definition strtol :: "int \<Rightarrow> bytes \<Rightarrow> (int \<times> nat) option" where
  "strtol base s =
     (case scan_number base s of
        None \<Rightarrow> None
      | Some (neg, v, n) \<Rightarrow>
          Some (if neg then max (- (2 ^ 63)) (- int v) else min (2 ^ 63 - 1) (int v), n))"

text \<open>
  \<open>SnortStrToU32\<close>: \<open>None\<close> is the return value -1.  Values beyond 32 bits are clamped.
\<close>

definition SnortStrToU32 :: "bytes \<Rightarrow> int \<Rightarrow> (u32 \<times> nat) option" where
  "SnortStrToU32 buffer base =
     (let sp = length (takeWhile isspace buffer);
          s = drop sp buffer
      in if s = [] \<or> hd s = 45 then None
         else case strtoul base s of
                None \<Rightarrow> None
              | Some (tmp, n) \<Rightarrow>
                  if n = 0 then None
                  else Some (if 2 ^ 32 - 1 < tmp then - 1 else of_nat tmp, sp + n))"

section \<open>Decimal text\<close>

text \<open>The decimal digits of a number, as a packet carries it in text form.\<close>

fun dec_digits :: "nat \<Rightarrow> bytes" where
  "dec_digits n =
     (if n < 10 then [of_nat (48 + n)]
      else dec_digits (n div 10) @ [of_nat (48 + n mod 10)])"

declare dec_digits.simps [simp del]

lemma digits_value_append: "digits_value b acc (xs @ ys) = digits_value b (digits_value b acc xs) ys"
  by (induction xs arbitrary: acc) auto

lemma unat_digit: "d < 10 \<Longrightarrow> unat (of_nat (48 + d) :: u8) = 48 + d"
  by (simp add: unat_of_nat take_bit_nat_eq_self del: of_nat_add of_nat_numeral)

lemma digit_char:
  assumes "d < 10"
  shows "digit_val (of_nat (48 + d)) = Some d" and "isdigit (of_nat (48 + d))"
    and "\<not> isspace (of_nat (48 + d))" and "(of_nat (48 + d) :: u8) \<noteq> 0"
    and "(of_nat (48 + d) :: u8) \<noteq> 45" and "(of_nat (48 + d) :: u8) \<noteq> 43"
proof -
  have u: "unat (of_nat (48 + d) :: u8) = 48 + d" using assms by (rule unat_digit)
  show "digit_val (of_nat (48 + d)) = Some d" "isdigit (of_nat (48 + d))"
    "\<not> isspace (of_nat (48 + d))" "(of_nat (48 + d) :: u8) \<noteq> 0"
    "(of_nat (48 + d) :: u8) \<noteq> 45" "(of_nat (48 + d) :: u8) \<noteq> 43"
    using assms u
    by (auto simp: digit_val_def isdigit_def isspace_def word_le_nat_alt word_unat_eq_iff
        simp del: of_nat_add of_nat_numeral)
qed

lemma dec_digits_not_Nil [simp]: "dec_digits n \<noteq> []"
  by (subst dec_digits.simps) auto

lemma dec_digits_all: "c \<in> set (dec_digits n) \<Longrightarrow> \<exists>d < 10. c = of_nat (48 + d)"
proof (induction n rule: dec_digits.induct)
  case (1 n)
  show ?case
  proof (cases "n < 10")
    case True
    then show ?thesis using 1(2) by (subst (asm) dec_digits.simps) auto
  next
    case False
    then have "c \<in> set (dec_digits (n div 10)) \<or> c = of_nat (48 + n mod 10)"
      using 1(2) by (subst (asm) dec_digits.simps) auto
    then show ?thesis using 1(1) [OF False] by (metis mod_less_divisor zero_less_numeral)
  qed
qed

lemma digits_value_dec: "digits_value 10 0 (dec_digits n) = n"
proof (induction n rule: dec_digits.induct)
  case (1 n)
  show ?case
  proof (cases "n < 10")
    case True
    then show ?thesis
      by (subst dec_digits.simps) (simp add: digit_char(1) del: of_nat_add of_nat_numeral)
  next
    case False
    have "digit_val (of_nat (48 + n mod 10)) = Some (n mod 10)" by (rule digit_char(1)) simp
    then show ?thesis using 1 False
      by (subst dec_digits.simps)
        (simp add: digits_value_append del: of_nat_add of_nat_numeral)
  qed
qed

lemma dec_digits_class:
  assumes "c \<in> set (dec_digits n)"
  shows "digit_in 10 c" and "\<not> isspace c" and "c \<noteq> 0" and "c \<noteq> 45" and "c \<noteq> 43"
  using dec_digits_all [OF assms] digit_char by (auto simp: digit_in_def)

lemma dec_digits_scan:
  assumes "base = 10"
  shows "scan_number base (dec_digits n) = Some (False, n, length (dec_digits n))"
proof -
  let ?s = "dec_digits n"
  have h: "hd ?s \<in> set ?s" by simp
  have sp: "takeWhile isspace ?s = []"
    using dec_digits_class(2) [OF h] by (metis dec_digits_not_Nil hd_Cons_tl takeWhile.simps(2))
  have ds: "takeWhile (digit_in 10) ?s = ?s" using dec_digits_class(1) by (simp add: takeWhile_eq_all_conv)
  show ?thesis
    using assms dec_digits_class(4,5) [OF h]
    by (simp add: scan_number_def sp ds number_base_def digits_value_dec Let_def)
qed

lemma SnortStrToU32_dec:
  assumes "n < 2 ^ 32"
  shows "SnortStrToU32 (dec_digits n) 10 = Some (of_nat n, length (dec_digits n))"
proof -
  let ?s = "dec_digits n"
  have h: "hd ?s \<in> set ?s" by simp
  have sp: "takeWhile isspace ?s = []"
    using dec_digits_class(2) [OF h] by (metis dec_digits_not_Nil hd_Cons_tl takeWhile.simps(2))
  show ?thesis using assms dec_digits_class(4) [OF h]
    by (simp add: SnortStrToU32_def sp strtoul_def dec_digits_scan Let_def)
qed

lemma c_str_dec: "c_str (dec_digits n) = dec_digits n"
  using dec_digits_class(3) by (auto simp: c_str_def takeWhile_eq_all_conv)

end
