(* ===== verification/Hashfcn.thy ===== *)
theory Hashfcn
  imports Cstring
begin

unbundle bit_operations_syntax

text \<open>
  The hash primitives of \<^verbatim>\<open>hash/hashfcn.h\<close> and \<^verbatim>\<open>hashfcn.cc\<close>, and the identity and hash that
  every rule option inherits from \<^verbatim>\<open>framework/ips_option.cc\<close>.  The three accumulators that
  the macros update in place are a triple.
\<close>

section \<open>Mixing\<close>

type_synonym abc = "u32 \<times> u32 \<times> u32"

definition rot :: "u32 \<Rightarrow> nat \<Rightarrow> u32" where
  "rot x k = push_bit k x OR drop_bit (32 - k) x"

text \<open>
  The macro \<open>mix\<close> is six lines of one shape: for line 1, \<open>a -= c; a ^= rot(c,k); c += b\<close>.
  From one line to the next the accumulators change roles cyclically, which \<open>rotate3\<close> does.
\<close>

fun rotate3 :: "abc \<Rightarrow> abc" where
  "rotate3 (a, b, c) = (b, c, a)"

fun mix_line :: "nat \<Rightarrow> abc \<Rightarrow> abc" where
  "mix_line k (a, b, c) = ((a - c) XOR rot c k, b, c + b)"

definition mix :: "abc \<Rightarrow> abc" where
  "mix s = fold (\<lambda>k s. rotate3 (mix_line k s)) [4, 6, 8, 16, 19, 4] s"

text \<open>
  The macro \<open>finalize\<close> is seven lines of the shape \<open>c ^= b; c -= rot(b,k)\<close>, again with the
  roles changing cyclically.
\<close>

fun finalize_line :: "nat \<Rightarrow> abc \<Rightarrow> abc" where
  "finalize_line k (a, b, c) = (a, b, (c XOR b) - rot b k)"

definition finalize :: "abc \<Rightarrow> abc" where
  "finalize s =
     finalize_line 24 (fold (\<lambda>k s. rotate3 (finalize_line k s)) [14, 11, 25, 16, 4, 14] s)"

text \<open>Up to four bytes of a string as a little-endian word.\<close>

fun tmp_word :: "nat \<Rightarrow> bytes \<Rightarrow> u32" where
  "tmp_word l [] = 0"
| "tmp_word l (x # xs) = push_bit (l * 8) (ucast x) OR tmp_word (l + 1) xs"

fun add_slot :: "nat \<Rightarrow> u32 \<Rightarrow> abc \<Rightarrow> abc" where
  "add_slot j tmp (a, b, c) =
     (if j = 0 then (a + tmp, b, c) else if j = 1 then (a, b + tmp, c)
      else if j = 2 then (a, b, c + tmp) else (a, b, c))"

fun mix_str_loop :: "nat \<Rightarrow> abc \<Rightarrow> bytes \<Rightarrow> nat \<times> abc" where
  "mix_str_loop j s [] = (j, s)"
| "mix_str_loop j s (x # xs) =
     (let s' = add_slot j (tmp_word 0 (take 4 (x # xs))) s
      in if j + 1 = 3 then mix_str_loop 0 (mix s') (drop 3 xs)
         else mix_str_loop (j + 1) s' (drop 3 xs))"

definition mix_str :: "abc \<Rightarrow> bytes \<Rightarrow> nat \<Rightarrow> abc" where
  "mix_str s str n =
     (let text = (if n = 0 then c_str str else take n str)
      in case mix_str_loop 0 s text of (j, s') \<Rightarrow> if j \<noteq> 0 then mix s' else s')"

text \<open>\<open>hashfcn_hash\<close> with the seed, scale and hardener of its \<open>HashFnc\<close>.\<close>

record hash_fnc =
  seed :: u32
  scale :: u32
  hardener :: u32

fun hash_bytes :: "u32 \<Rightarrow> u32 \<Rightarrow> bytes \<Rightarrow> u32" where
  "hash_bytes sc h [] = h"
| "hash_bytes sc h (d # ds) = hash_bytes sc (h * sc + ucast d) ds"

definition hashfcn_hash :: "hash_fnc \<Rightarrow> bytes \<Rightarrow> u32" where
  "hashfcn_hash p d = hash_bytes (scale p) (seed p) d XOR hardener p"

section \<open>Mixing loses nothing\<close>

lemma xor_cancel: "(x XOR y) XOR y = (x :: u32)"
  by (simp add: xor.assoc)

lemma bij_rotate3: "bij rotate3"
  by (rule o_bij [of "\<lambda>(b, c, a). (a, b, c)"]) (auto simp: fun_eq_iff)

lemma bij_mix_line: "bij (mix_line k)"
  by (rule o_bij [of "\<lambda>(a, b, c). ((a XOR rot (c - b) k) + (c - b), b, c - b)"])
    (auto simp: fun_eq_iff xor_cancel)

lemma bij_finalize_line: "bij (finalize_line k)"
  by (rule o_bij [of "\<lambda>(a, b, c). (a, b, (c + rot b k) XOR b)"])
    (auto simp: fun_eq_iff xor_cancel)

lemma bij_fold: "(\<And>k. bij (f k)) \<Longrightarrow> bij (fold f ks)"
  by (induction ks) (simp_all add: bij_comp)

lemma bij_mix: "bij mix"
proof -
  have "bij (\<lambda>s. rotate3 (mix_line k s))" for k
    using bij_comp [OF bij_mix_line bij_rotate3] by (simp add: comp_def)
  then have "bij (fold (\<lambda>k s. rotate3 (mix_line k s)) [4, 6, 8, 16, 19, 4])" by (rule bij_fold)
  then show ?thesis by (simp add: mix_def [abs_def] comp_def)
qed

lemma bij_finalize: "bij finalize"
proof -
  have "bij (\<lambda>s. rotate3 (finalize_line k s))" for k
    using bij_comp [OF bij_finalize_line bij_rotate3] by (simp add: comp_def)
  then have "bij (fold (\<lambda>k s. rotate3 (finalize_line k s)) [14, 11, 25, 16, 4, 14])" by (rule bij_fold)
  then have "bij (finalize_line 24 \<circ> fold (\<lambda>k s. rotate3 (finalize_line k s)) [14, 11, 25, 16, 4, 14])"
    using bij_finalize_line by (rule bij_comp)
  then show ?thesis by (simp add: finalize_def [abs_def] comp_def)
qed

text \<open>
  The macros \<open>mix\<close> and \<open>finalize\<close> are permutations of the three accumulators, so that two
  different keys of at most three words never collide before the final truncation to one word.
\<close>

lemma mix_finalize_bij: "bij mix \<and> bij finalize \<and> bij (finalize \<circ> mix)"
  using bij_mix bij_finalize bij_comp by blast

section \<open>Rule options\<close>

datatype eval_status = NO_MATCH | MATCH | NO_ALERT | FAILED_BIT

text \<open>The identity an option inherits: its keyword and the buffer it applies to.\<close>

record ips_option =
  opt_name :: bytes
  opt_buffer :: bytes

definition ips_hash :: "ips_option \<Rightarrow> u32" where
  "ips_hash o1 =
     snd (snd (finalize (mix_str (mix_str (0, 0, 0) (opt_name o1) 0) (opt_buffer o1) 0)))"

definition ips_eq :: "ips_option \<Rightarrow> ips_option \<Rightarrow> bool" where
  "ips_eq o1 o2 \<longleftrightarrow>
     c_str (opt_name o1) = c_str (opt_name o2) \<and> c_str (opt_buffer o1) = c_str (opt_buffer o2)"

lemma mix_str_c_str: "c_str x = c_str y \<Longrightarrow> mix_str s x 0 = mix_str s y 0"
  by (simp add: mix_str_def)

end
