(* ===== verification/Extract.thy ===== *)
theory Extract
  imports Cursor Hashfcn
begin

unbundle bit_operations_syntax

text \<open>
  The value extraction shared by the byte options, from \<^verbatim>\<open>ips_options/extract.cc\<close> and
  \<^verbatim>\<open>extract.h\<close>: the rule variables, the binary and the text extraction with their bounds
  checks, and the bit mask helpers.  A pointer into a buffer is its signed distance from the
  start of the buffer.
\<close>

section \<open>Constants and rule variables\<close>

definition ENDIAN_BIG :: u8 where "ENDIAN_BIG = 0x1"
definition ENDIAN_LITTLE :: u8 where "ENDIAN_LITTLE = 0x2"
definition ENDIAN_FUNC :: u8 where "ENDIAN_FUNC = 0x4"
definition PARSELEN :: int where "PARSELEN = 10"
definition MAX_BYTES_TO_GRAB :: u32 where "MAX_BYTES_TO_GRAB = 4"
definition NUM_IPS_OPTIONS_VARS :: int where "NUM_IPS_OPTIONS_VARS = 3"
definition IPS_OPTIONS_NO_VAR :: int where "IPS_OPTIONS_NO_VAR = - 1"

lemmas extract_constants =
  ENDIAN_BIG_def ENDIAN_LITTLE_def ENDIAN_FUNC_def PARSELEN_def MAX_BYTES_TO_GRAB_def
  NUM_IPS_OPTIONS_VARS_def IPS_OPTIONS_NO_VAR_def

text \<open>
  \<open>variable_names\<close> with \<open>extracted_values_cnt\<close> is the list of the names in use;
  \<open>extracted_values\<close> is the list of the three values of the packet thread.
\<close>

type_synonym var_names = "bytes list"
type_synonym var_values = "u32 list"

fun var_index :: "int \<Rightarrow> var_names \<Rightarrow> bytes \<Rightarrow> int" where
  "var_index i [] name = IPS_OPTIONS_NO_VAR"
| "var_index i (v # vs) name = (if v = name then i else var_index (i + 1) vs name)"

definition GetVarByName :: "var_names \<Rightarrow> bytes option \<Rightarrow> int" where
  "GetVarByName vs name =
     (case name of None \<Rightarrow> IPS_OPTIONS_NO_VAR | Some n \<Rightarrow> var_index 0 vs n)"

definition AddVarNameToList :: "var_names \<Rightarrow> bytes \<Rightarrow> int \<times> var_names" where
  "AddVarNameToList vs name =
     (if var_index 0 vs name \<noteq> IPS_OPTIONS_NO_VAR then (var_index 0 vs name, vs)
      else if int (length vs) < NUM_IPS_OPTIONS_VARS then (int (length vs), vs @ [name])
      else (IPS_OPTIONS_NO_VAR, vs))"

definition ClearIpsOptionsVars :: "var_names \<Rightarrow> var_names" where
  "ClearIpsOptionsVars vs = []"

definition GetVarValueByIndex :: "var_values \<Rightarrow> u8 \<Rightarrow> u32 option" where
  "GetVarValueByIndex vals var_number =
     (if NUM_IPS_OPTIONS_VARS \<le> uint var_number then None else Some (vals ! unat var_number))"

definition SetVarValueByIndex :: "u32 \<Rightarrow> u8 \<Rightarrow> var_values \<Rightarrow> int \<times> var_values" where
  "SetVarValueByIndex val var_number vals =
     (if NUM_IPS_OPTIONS_VARS \<le> uint var_number then (IPS_OPTIONS_NO_VAR, vals)
      else (0, vals[unat var_number := val]))"

definition set_byte_order :: "u8 \<Rightarrow> u8 \<Rightarrow> u8" where
  "set_byte_order order flag = flag"

section \<open>Extraction\<close>

definition inBounds :: "bytes \<Rightarrow> int \<Rightarrow> bool" where
  "inBounds buf p \<longleftrightarrow> 0 \<le> p \<and> p < int (length buf)"

text \<open>One byte read through the pointer, \<open>(*p) & 0xFF\<close>.\<close>

definition grab_byte :: "bytes \<Rightarrow> int \<Rightarrow> u32" where
  "grab_byte buf p = ucast (buf ! nat p) AND 0xFF"

text \<open>The result is \<open>Inl\<close> of the negative return code or \<open>Inr\<close> of the value stored.\<close>

definition byte_extract :: "u8 \<Rightarrow> int \<Rightarrow> int \<Rightarrow> bytes \<Rightarrow> int + u32" where
  "byte_extract endianness bytes_to_grab ptr buf =
     (let b = (\<lambda>i. grab_byte buf (ptr + i))
      in if endianness \<noteq> ENDIAN_LITTLE \<and> endianness \<noteq> ENDIAN_BIG then Inl (- 2)
         else if \<not> inBounds buf (ptr + (bytes_to_grab - 1)) then Inl (- 3)
         else if \<not> inBounds buf ptr then Inl (- 3)
         else if bytes_to_grab = 1 then Inr (b 0)
         else if bytes_to_grab = 2 then
           (if endianness = ENDIAN_LITTLE then Inr (b 0 OR push_bit 8 (b 1))
            else Inr (push_bit 8 (b 0) OR b 1))
         else if bytes_to_grab = 3 then
           (if endianness = ENDIAN_LITTLE
            then Inr (b 0 OR push_bit 8 (b 1) OR push_bit 16 (b 2))
            else Inr (push_bit 16 (b 0) OR push_bit 8 (b 1) OR b 2))
         else if bytes_to_grab = 4 then
           (if endianness = ENDIAN_LITTLE
            then Inr (b 0 OR push_bit 8 (b 1) OR push_bit 16 (b 2) OR push_bit 24 (b 3))
            else Inr (push_bit 24 (b 0) OR push_bit 16 (b 1) OR push_bit 8 (b 2) OR b 3))
         else Inl (- 1))"

text \<open>\<open>string_extract\<close> returns the bytes consumed with the value.\<close>

definition string_extract :: "int \<Rightarrow> int \<Rightarrow> int \<Rightarrow> bytes \<Rightarrow> int + nat \<times> u32" where
  "string_extract bytes_to_grab base ptr buf =
     (if PARSELEN < bytes_to_grab \<or> bytes_to_grab \<le> 0 then Inl (- 1)
      else if \<not> inBounds buf (ptr + (bytes_to_grab - 1)) then Inl (- 3)
      else if \<not> inBounds buf ptr then Inl (- 3)
      else case SnortStrToU32 (c_str (take (nat bytes_to_grab) (drop (nat ptr) buf))) base of
             None \<Rightarrow> Inl (- 1)
           | Some (val, n) \<Rightarrow> Inr (n, val))"

definition ffs :: "u32 \<Rightarrow> nat" where
  "ffs w = (case find (bit w) [0..<32] of None \<Rightarrow> 0 | Some i \<Rightarrow> i + 1)"

definition getNumberTailingZerosInBitmask :: "u32 \<Rightarrow> nat" where
  "getNumberTailingZerosInBitmask bitmask = (if bitmask = 0 then 32 else ffs bitmask - 1)"

definition numBytesInBitmask :: "u32 \<Rightarrow> u8" where
  "numBytesInBitmask bitmask_value =
     (if bitmask_value \<le> 0xFF then 1 else if bitmask_value \<le> 0xFFFF then 2
      else if bitmask_value \<le> 0xFFFFFF then 3 else 4)"

text \<open>The block that each option repeats: mask the value and shift the field down.\<close>

definition apply_bitmask :: "u32 \<Rightarrow> u32 \<Rightarrow> u32" where
  "apply_bitmask bitmask_val v =
     (if bitmask_val = 0 then v
      else let v' = v AND bitmask_val; n = getNumberTailingZerosInBitmask bitmask_val
           in if v' \<noteq> 0 \<and> n \<noteq> 0 then drop_bit n v' else v')"

section \<open>The packet side of an evaluation\<close>

text \<open>
  What the options read of the packet: its byte order oracle (the DCE/RPC inspector, absent
  for most packets), as a function of the distance from the packet data, and how far the
  cursor's buffer lies from the packet data.
\<close>

record ips_packet =
  pkt_endianness :: "(int \<Rightarrow> u8 option) option"
  buf_off :: int

definition resolve_endian :: "ips_packet \<Rightarrow> u8 \<Rightarrow> int \<Rightarrow> u8 option" where
  "resolve_endian p endian ptr =
     (if endian = ENDIAN_FUNC then
        (case pkt_endianness p of None \<Rightarrow> None | Some f \<Rightarrow> f (ptr + buf_off p))
      else Some endian)"

text \<open>An operand that is a rule variable when its index is valid, else a constant.\<close>

definition var_or :: "var_values \<Rightarrow> int \<Rightarrow> u32 \<Rightarrow> u32" where
  "var_or vals var dflt =
     (if 0 \<le> var \<and> var < NUM_IPS_OPTIONS_VARS then
        (case GetVarValueByIndex vals (word_of_int var) of Some v \<Rightarrow> v | None \<Rightarrow> dflt)
      else dflt)"

definition var_or_int :: "var_values \<Rightarrow> int \<Rightarrow> int \<Rightarrow> int" where
  "var_or_int vals var dflt =
     (if 0 \<le> var \<and> var < NUM_IPS_OPTIONS_VARS then
        (case GetVarValueByIndex vals (word_of_int var) of Some v \<Rightarrow> sint v | None \<Rightarrow> dflt)
      else dflt)"

definition cursor_base :: "bool \<Rightarrow> cursor \<Rightarrow> int" where
  "cursor_base relative c = (if relative then uint (cur_pos c) else 0)"

section \<open>Facts\<close>

lemma var_index_range:
  "0 \<le> i \<Longrightarrow> var_index i vs n = IPS_OPTIONS_NO_VAR \<or>
     (i \<le> var_index i vs n \<and> var_index i vs n < i + int (length vs))"
  by (induction vs arbitrary: i) (auto simp: IPS_OPTIONS_NO_VAR_def, smt+)

lemma var_index_nth:
  "0 \<le> i \<Longrightarrow> var_index i vs n \<noteq> IPS_OPTIONS_NO_VAR \<Longrightarrow> vs ! nat (var_index i vs n - i) = n"
proof (induction vs arbitrary: i)
  case (Cons v vs)
  show ?case
  proof (cases "v = n")
    case False
    then have "i + 1 \<le> var_index (i + 1) vs n"
      using var_index_range [of "i + 1" vs n] Cons.prems by auto
    then have "nat (var_index (i + 1) vs n - i) = Suc (nat (var_index (i + 1) vs n - (i + 1)))"
      by simp
    then show ?thesis using Cons False by simp
  qed simp
qed simp

lemma var_index_none: "0 \<le> i \<Longrightarrow> var_index i vs n = IPS_OPTIONS_NO_VAR \<longleftrightarrow> n \<notin> set vs"
proof (induction vs arbitrary: i)
  case (Cons v vs)
  show ?case using Cons.IH [of "i + 1"] Cons.prems by (auto simp: IPS_OPTIONS_NO_VAR_def)
qed simp

lemma var_index_append:
  "0 \<le> i \<Longrightarrow> n \<in> set vs \<Longrightarrow> var_index i (vs @ ws) n = var_index i vs n"
  by (induction vs arbitrary: i) auto

lemma var_index_new:
  "0 \<le> i \<Longrightarrow> n \<notin> set vs \<Longrightarrow> var_index i (vs @ [n]) n = i + int (length vs)"
  by (induction vs arbitrary: i) auto

text \<open>Big- and little-endian numbers, the reference for the binary extraction.\<close>

definition be_value :: "bytes \<Rightarrow> nat" where
  "be_value bs = foldl (\<lambda>acc b. acc * 256 + unat b) 0 bs"

definition le_value :: "bytes \<Rightarrow> nat" where
  "le_value bs = be_value (rev bs)"

definition endian_value :: "u8 \<Rightarrow> bytes \<Rightarrow> nat" where
  "endian_value e bs = (if e = ENDIAN_LITTLE then le_value bs else be_value bs)"


lemma unat_shift_or:
  fixes x y :: u32
  assumes "unat y < 256" and "unat x < 2 ^ 24"
  shows "unat (push_bit 8 x OR y) = unat x * 256 + unat y"
proof -
  have "push_bit 8 x AND y = 0"
  proof (rule bit_word_eqI)
    fix n assume "n < LENGTH(32)"
    have "\<not> bit y n" if "8 \<le> n"
    proof -
      have "unat y < 2 ^ n"
        using assms(1) that power_increasing [OF that, of "2 :: nat"] by simp
      then have "drop_bit n (unat y) = 0" by (simp add: drop_bit_eq_div)
      then have "\<not> bit (unat y) n" by (simp add: bit_iff_odd_drop_bit)
      then show ?thesis by (simp add: bit_unsigned_iff)
    qed
    then show "bit (push_bit 8 x AND y) n = bit (0 :: u32) n"
      by (auto simp: bit_and_iff bit_push_bit_iff)
  qed
  then have "push_bit 8 x OR y = push_bit 8 x + y" by (simp add: disjunctive_add_eq_or)
  moreover have "unat (push_bit 8 x) = unat x * 256"
    using assms(2) by (simp add: push_bit_eq_mult unat_mult_nowrap)
  moreover have "unat (push_bit 8 x + y) = unat (push_bit 8 x) + unat y"
    using assms calculation(2) by (intro unat_add_nowrap) simp
  ultimately show ?thesis by simp
qed

lemma unat_grab_byte: "unat (grab_byte buf p) = unat (buf ! nat p)"
proof -
  let ?b = "buf ! nat p"
  have "(ucast ?b AND 0xFF :: u32) = take_bit 8 (ucast ?b)"
    by (simp add: take_bit_eq_mask mask_eq_exp_minus_1)
  moreover have "unat ?b < 2 ^ 8" using unsigned_less [of ?b] by simp
  ultimately show ?thesis
    by (simp add: grab_byte_def unsigned_take_bit_eq unsigned_ucast_eq take_bit_nat_eq_self)
qed

lemma grab_byte_lt: "unat (grab_byte buf p) < 256"
  using unsigned_less [of "buf ! nat p"] by (simp add: unat_grab_byte)

lemma unat_or_bytes:
  fixes a b c d :: u32
  assumes lt: "unat a < 256" "unat b < 256" "unat c < 256" "unat d < 256"
  shows "unat (push_bit 8 a OR b) = unat a * 256 + unat b"
    and "unat (push_bit 16 a OR push_bit 8 b OR c) = (unat a * 256 + unat b) * 256 + unat c"
    and "unat (push_bit 24 a OR push_bit 16 b OR push_bit 8 c OR d) =
           ((unat a * 256 + unat b) * 256 + unat c) * 256 + unat d"
proof -
  show 2: "unat (push_bit 8 a OR b) = unat a * 256 + unat b"
    using lt by (intro unat_shift_or) simp_all
  have "push_bit 16 a OR push_bit 8 b OR c = push_bit 8 (push_bit 8 a OR b) OR c"
    by (simp add: push_bit_or or.assoc)
  moreover have "unat (push_bit 8 (push_bit 8 a OR b) OR c) = unat (push_bit 8 a OR b) * 256 + unat c"
    using lt 2 by (intro unat_shift_or) simp_all
  ultimately show 3: "unat (push_bit 16 a OR push_bit 8 b OR c) = (unat a * 256 + unat b) * 256 + unat c"
    using 2 by simp
  have "push_bit 24 a OR push_bit 16 b OR push_bit 8 c OR d =
      push_bit 8 (push_bit 16 a OR push_bit 8 b OR c) OR d"
    by (simp add: push_bit_or or.assoc)
  moreover have "unat (push_bit 8 (push_bit 16 a OR push_bit 8 b OR c) OR d) =
      unat (push_bit 16 a OR push_bit 8 b OR c) * 256 + unat d"
    using lt 3 by (intro unat_shift_or) simp_all
  ultimately show "unat (push_bit 24 a OR push_bit 16 b OR push_bit 8 c OR d) =
      ((unat a * 256 + unat b) * 256 + unat c) * 256 + unat d"
    using 3 by simp
qed

lemmas unat_or_grab = unat_or_bytes [OF grab_byte_lt grab_byte_lt grab_byte_lt grab_byte_lt]

text \<open>The little-endian order of the source is the big-endian one with the words swapped.\<close>

lemma le_or:
  fixes a b c d :: u32
  shows "a OR push_bit 8 b = push_bit 8 b OR a"
    and "a OR push_bit 8 b OR push_bit 16 c = push_bit 16 c OR push_bit 8 b OR a"
    and "a OR push_bit 8 b OR push_bit 16 c OR push_bit 24 d =
           push_bit 24 d OR push_bit 16 c OR push_bit 8 b OR a"
  by (simp_all add: ac_simps)

lemma take_drop_explicit:
  assumes "p + n \<le> length buf"
  shows "n = 1 \<Longrightarrow> take n (drop p buf) = [buf ! p]"
    and "n = 2 \<Longrightarrow> take n (drop p buf) = [buf ! p, buf ! (p + 1)]"
    and "n = 3 \<Longrightarrow> take n (drop p buf) = [buf ! p, buf ! (p + 1), buf ! (p + 2)]"
    and "n = 4 \<Longrightarrow> take n (drop p buf) = [buf ! p, buf ! (p + 1), buf ! (p + 2), buf ! (p + 3)]"
  using map_nth_shift [OF assms] by (simp_all add: upt_rec numeral_eq_Suc)

text \<open>
  The binary extraction succeeds exactly for one to four bytes that lie in the buffer, in one
  of the two byte orders.
\<close>

lemma byte_extract_isr:
  "(\<exists>v. byte_extract e n ptr buf = Inr v) \<longleftrightarrow>
     (e = ENDIAN_BIG \<or> e = ENDIAN_LITTLE) \<and> 1 \<le> n \<and> n \<le> 4 \<and> 0 \<le> ptr \<and> ptr + n \<le> int (length buf)"
  by (auto simp: byte_extract_def inBounds_def Let_def)

lemma byte_extract_Inr:
  assumes "byte_extract e n ptr buf = Inr v"
  shows "unat v = endian_value e (take (nat n) (drop (nat ptr) buf))"
proof -
  define p where "p = nat ptr"
  have b: "1 \<le> n" "n \<le> 4" "0 \<le> ptr" "ptr + n \<le> int (length buf)"
    using byte_extract_isr [of e n ptr buf] assms by auto
  have len: "p + nat n \<le> length buf" using b by (simp add: p_def nat_add_distrib [symmetric])
  have idx: "nat ptr = p" "nat (ptr + 1) = p + 1" "nat (ptr + 2) = p + 2" "nat (ptr + 3) = p + 3"
    using b by (simp_all add: p_def nat_add_distrib)
  have bnd: "inBounds buf ptr" "inBounds buf (ptr + (n - 1))"
    using b by (simp_all add: inBounds_def)
  have e: "e = ENDIAN_LITTLE \<or> e = ENDIAN_BIG \<and> e \<noteq> ENDIAN_LITTLE"
    using byte_extract_isr [of e n ptr buf] assms by auto
  note ex = take_drop_explicit [OF len]
  note s = byte_extract_def Let_def endian_value_def le_value_def be_value_def bnd [simplified]
    le_or unat_or_grab unat_grab_byte idx
  consider "n = 1" | "n = 2" | "n = 3" | "n = 4" using b by linarith
  then show ?thesis
  proof cases
    case 1
    then show ?thesis using assms e bnd ex(1) by (auto simp: s)
  next
    case 2
    then show ?thesis using assms e bnd ex(2) by (auto simp: s)
  next
    case 3
    then show ?thesis using assms e bnd ex(3) by (auto simp: s)
  next
    case 4
    then show ?thesis using assms e bnd ex(4) by (auto simp: s)
  qed
qed

section \<open>The text extraction reads what a decimal printer writes\<close>

lemma dec_digits_length: "n < 10 ^ k \<Longrightarrow> 0 < k \<Longrightarrow> length (dec_digits n) \<le> k"
proof (induction n arbitrary: k rule: dec_digits.induct)
  case (1 n)
  show ?case
  proof (cases "n < 10")
    case True
    then show ?thesis using 1(3) by (subst dec_digits.simps) simp
  next
    case False
    obtain j where k: "k = Suc j" using 1(3) by (cases k) auto
    have j: "0 < j" using 1(2) False k by (cases j) auto
    have "n div 10 < 10 ^ j" using 1(2) k by (simp add: div_less_iff_less_mult mult.commute)
    then have "length (dec_digits (n div 10)) \<le> j" using 1(1) [OF False _ j] by simp
    then show ?thesis using False k by (subst dec_digits.simps) simp
  qed
qed

text \<open>
  C27: a number below 2^32 that a protocol sends in decimal text is read back exactly by
  \<open>string_extract\<close> in base 10, wherever it stands in the buffer and whatever follows it, and all
  of its digits are reported as consumed.
\<close>

theorem string_extract_decimal:
  assumes "n < 2 ^ 32"
  shows "string_extract (int (length (dec_digits n))) 10 (int (length pre))
           (pre @ dec_digits n @ post) = Inr (length (dec_digits n), of_nat n)"
proof -
  have "length (dec_digits n) \<le> 10" using assms by (intro dec_digits_length) simp_all
  moreover have "0 < int (length (dec_digits n)) + int (length post)"
    by (cases "dec_digits n") auto
  ultimately show ?thesis using SnortStrToU32_dec [OF assms]
    by (simp add: string_extract_def PARSELEN_def inBounds_def c_str_dec)
qed

theorem string_extract_decimal_witness:
  "(4294967295 :: nat) < 2 ^ 32 \<and>
   string_extract (int (length (dec_digits 4294967295))) 10 (int (length [76, 61 :: u8]))
     ([76, 61] @ dec_digits 4294967295 @ [13, 10]) =
       Inr (length (dec_digits 4294967295), of_nat 4294967295)"
  using string_extract_decimal [of 4294967295 "[76, 61]" "[13, 10]"] by simp

text \<open>
  C28: \<open>byte_extract\<close> stores a value exactly when it is asked for one to four bytes in one of the
  two byte orders and all of them lie in the buffer; the value is then the number those bytes
  denote in that order.
\<close>

theorem byte_extract_value:
  "byte_extract e n ptr buf = Inr v \<longleftrightarrow>
     (e = ENDIAN_BIG \<or> e = ENDIAN_LITTLE) \<and> 1 \<le> n \<and> n \<le> 4 \<and> 0 \<le> ptr \<and>
     ptr + n \<le> int (length buf) \<and>
     unat v = endian_value e (take (nat n) (drop (nat ptr) buf))"
    (is "?l \<longleftrightarrow> ?r")
proof
  assume ?l
  then show ?r using byte_extract_isr [of e n ptr buf] byte_extract_Inr by auto
next
  assume r: ?r
  then obtain w where w: "byte_extract e n ptr buf = Inr w"
    using byte_extract_isr [of e n ptr buf] by auto
  then have "unat w = unat v" using byte_extract_Inr r by metis
  then show ?l using w by (simp add: word_unat_eq_iff)
qed

section \<open>Variables\<close>

lemma AddVarNameToList_cases:
  assumes "AddVarNameToList vs name = (i, vs')" and "i \<noteq> IPS_OPTIONS_NO_VAR"
  shows "name \<in> set vs \<and> vs' = vs \<and> i = var_index 0 vs name \<or>
         name \<notin> set vs \<and> length vs < 3 \<and> vs' = vs @ [name] \<and> i = int (length vs)"
  using assms var_index_none [of 0 vs name]
  by (auto simp: AddVarNameToList_def NUM_IPS_OPTIONS_VARS_def split: if_splits)

lemma AddVarNameToList_bound:
  assumes "AddVarNameToList vs name = (i, vs')" and "length vs \<le> 3"
  shows "length vs' \<le> 3"
  using assms by (auto simp: AddVarNameToList_def NUM_IPS_OPTIONS_VARS_def split: if_splits)

lemma var_slot:
  assumes "0 \<le> i" and "i < 3"
  shows "unat (word_of_int i :: u8) = nat i" and "uint (word_of_int i :: u8) = i"
  using assms by (simp_all add: unsigned_of_int take_bit_int_eq_self)

lemma GetVarValueByIndex_nat:
  "GetVarValueByIndex vals k = (if 3 \<le> unat k then None else Some (vals ! unat k))"
proof -
  have u: "uint k = int (unat k)" by simp
  have "3 \<le> uint k \<longleftrightarrow> 3 \<le> unat k" unfolding u by linarith
  then show ?thesis by (simp add: GetVarValueByIndex_def NUM_IPS_OPTIONS_VARS_def)
qed

text \<open>
  C33: when a rule names a variable and there is room for it, the variable gets an index of the
  value array under which later options find it by name, the variables named earlier keep their
  indices, and a value stored under the index by the packet thread is the one read back, while
  the other variables keep theirs.
\<close>

theorem rule_variables:
  assumes "length vs \<le> 3" and "length vals = 3"
    and "AddVarNameToList vs name = (i, vs')" and "i \<noteq> IPS_OPTIONS_NO_VAR"
  shows "0 \<le> i \<and> i < 3 \<and> GetVarByName vs' (Some name) = i \<and>
         (\<forall>m \<in> set vs. GetVarByName vs' (Some m) = GetVarByName vs (Some m)) \<and>
         fst (SetVarValueByIndex v (word_of_int i) vals) = 0 \<and>
         (\<forall>k. GetVarValueByIndex (snd (SetVarValueByIndex v (word_of_int i) vals)) k =
            (if k = word_of_int i then Some v else GetVarValueByIndex vals k))"
proof -
  have new: "0 \<le> i \<and> i < 3 \<and> GetVarByName vs' (Some name) = i \<and>
      (\<forall>m \<in> set vs. GetVarByName vs' (Some m) = GetVarByName vs (Some m))"
    using AddVarNameToList_cases [OF assms(3,4)] assms(1) var_index_range [of 0 vs name]
      var_index_none [of 0 vs name]
    by (auto simp: GetVarByName_def var_index_append var_index_new)
  then show ?thesis
    using assms(2) var_slot [of i]
    by (auto simp: SetVarValueByIndex_def GetVarValueByIndex_nat NUM_IPS_OPTIONS_VARS_def
        nth_list_update word_unat_eq_iff)
qed

theorem rule_variables_witness:
  "length [[120 :: u8]] \<le> 3 \<and> length [7, 8, 9 :: u32] = 3 \<and>
   AddVarNameToList [[120]] [121] = (1, [[120], [121]]) \<and>
   (1 :: int) \<noteq> IPS_OPTIONS_NO_VAR \<and>
   GetVarByName [[120], [121]] (Some [121]) = 1 \<and>
   GetVarValueByIndex (snd (SetVarValueByIndex 5 (word_of_int 1) [7, 8, 9])) 1 = Some 5"
proof -
  have a: "AddVarNameToList [[120 :: u8]] [121] = (1, [[120], [121]])"
    by (simp add: AddVarNameToList_def IPS_OPTIONS_NO_VAR_def NUM_IPS_OPTIONS_VARS_def)
  have n: "(1 :: int) \<noteq> IPS_OPTIONS_NO_VAR" by (simp add: IPS_OPTIONS_NO_VAR_def)
  show ?thesis
    using rule_variables [of "[[120]]" "[7, 8, 9]" "[121]" 1 "[[120], [121]]" 5] a n by auto
qed

section \<open>Bit masks\<close>

lemma find_upt_least:
  "find P [a..<b] = Some i \<longleftrightarrow> a \<le> i \<and> i < b \<and> P i \<and> (\<forall>j. a \<le> j \<and> j < i \<longrightarrow> \<not> P j)"
proof (induction "b - a" arbitrary: a)
  case 0
  then show ?case by auto
next
  case (Suc d)
  then have ab: "a < b" by simp
  show ?case
  proof (cases "P a")
    case True
    then show ?thesis using ab by (auto simp: upt_conv_Cons not_less le_less)
  next
    case False
    then have "find P [a..<b] = find P [Suc a..<b]" using ab by (simp add: upt_conv_Cons)
    moreover have "find P [Suc a..<b] = Some i \<longleftrightarrow>
        Suc a \<le> i \<and> i < b \<and> P i \<and> (\<forall>j. Suc a \<le> j \<and> j < i \<longrightarrow> \<not> P j)"
      using Suc.hyps by (intro Suc.hyps(1)) simp
    ultimately show ?thesis using False by (metis Suc_leD Suc_le_eq le_less)
  qed
qed

lemma tailing_zeros:
  assumes "m \<noteq> 0"
  defines "n \<equiv> getNumberTailingZerosInBitmask m"
  shows "n < 32" and "bit m n" and "\<And>j. j < n \<Longrightarrow> \<not> bit m j"
proof -
  obtain k where "bit m k" using assms(1) by (metis bit_0_eq bit_eq_iff bot_apply bot_bool_def)
  moreover from this have "k < 32" using bit_imp_le_length [of m k] by simp
  ultimately have "find (bit m) [0..<32] \<noteq> None" by (auto simp: find_None_iff)
  then obtain i where i: "find (bit m) [0..<32] = Some i" by auto
  then have "n = i" using assms by (simp add: getNumberTailingZerosInBitmask_def ffs_def)
  then show "n < 32" "bit m n" "\<And>j. j < n \<Longrightarrow> \<not> bit m j"
    using i by (auto simp: find_upt_least)
qed

text \<open>
  Masking keeps exactly the bits of the mask and moves the field down to bit 0: bit \<open>i\<close> of
  the result is bit \<open>i + n\<close> of the value when the mask has that bit, where \<open>n\<close> is the number of
  trailing zeros of the mask.  A zero mask keeps the value.
\<close>

lemma apply_bitmask_bits:
  "bit (apply_bitmask m v) i \<longleftrightarrow>
     (if m = 0 then bit v i
      else bit v (i + getNumberTailingZerosInBitmask m) \<and>
           bit m (i + getNumberTailingZerosInBitmask m))"
proof (cases "v AND m = 0")
  case True
  then have "\<not> (bit v j \<and> bit m j)" for j by (metis bit_0_eq bit_and_iff bot_apply bot_bool_def)
  then show ?thesis using True by (auto simp: apply_bitmask_def Let_def)
next
  case False
  then show ?thesis
    by (auto simp: apply_bitmask_def Let_def bit_drop_bit_eq bit_and_iff add.commute)
qed

end
