(* ===== verification/Byte_Test.thy ===== *)
theory Byte_Test
  imports Extract
begin

unbundle bit_operations_syntax

text \<open>
  The parameter values that the rule parser hands to an option module (\<^verbatim>\<open>framework/value.h\<close>,
  \<^verbatim>\<open>value.cc\<close>), the contract between the hash and the equality of an option, and the option
  \<open>byte_test\<close> of \<^verbatim>\<open>ips_options/ips_byte_test.cc\<close>: its data, identity, evaluation and parser.
\<close>

section \<open>Parameter values\<close>

text \<open>A value carries the name of its parameter, its number and its string.\<close>

record param_value =
  v_name :: string
  v_num :: int
  v_str :: bytes

definition value_is :: "param_value \<Rightarrow> string \<Rightarrow> bool" where
  "value_is v s \<longleftrightarrow> v_name v = s"

definition value_strtol :: "param_value \<Rightarrow> int option" where
  "value_strtol v =
     (let s = c_str (v_str v)
      in if s = [] then None
         else case strtol 0 s of
                None \<Rightarrow> None
              | Some (n, k) \<Rightarrow> if k \<noteq> length s then None else Some n)"

text \<open>
  Two steps that the \<open>end\<close> functions of the modules share: a variable name, when one was given,
  must be known; and the byte order is big-endian unless one was given.
\<close>

definition lookup_var :: "var_names \<Rightarrow> bytes \<Rightarrow> int option" where
  "lookup_var names v =
     (if v = [] then Some IPS_OPTIONS_NO_VAR
      else if GetVarByName names (Some v) = IPS_OPTIONS_NO_VAR then None
      else Some (GetVarByName names (Some v)))"

definition default_endian :: "u8 \<Rightarrow> u8" where
  "default_endian e = (if e = 0 then ENDIAN_BIG else e)"

section \<open>Hash and equality of options\<close>

text \<open>
  The option table finds an option by its hash and then compares with \<open>operator==\<close>.  That is
  sound when equal options have equal hashes and equality is an equivalence.  \<open>bucket_find\<close> is
  the search of one table row, restricted to the entries whose stored hash agrees.
\<close>

locale hashed_option =
  fixes eq :: "'o \<Rightarrow> 'o \<Rightarrow> bool" and hash :: "'o \<Rightarrow> u32"
  assumes eq_refl: "eq x x"
    and eq_sym: "eq x y \<Longrightarrow> eq y x"
    and eq_trans: "eq x y \<Longrightarrow> eq y z \<Longrightarrow> eq x z"
    and eq_hash: "eq x y \<Longrightarrow> hash x = hash y"
begin

definition bucket_find :: "'o \<Rightarrow> 'o list \<Rightarrow> 'o option" where
  "bucket_find x xs = find (\<lambda>y. hash y = hash x \<and> eq y x) xs"

lemma bucket_find_complete: "bucket_find x xs = find (\<lambda>y. eq y x) xs"
  unfolding bucket_find_def by (rule find_cong) (auto dest: eq_hash)

lemma bucket_find_unique:
  assumes "bucket_find x xs = Some y" and "eq x x'"
  shows "bucket_find x' xs = Some y"
proof -
  have "(\<lambda>y. eq y x) = (\<lambda>y. eq y x')" using assms(2) by (metis eq_sym eq_trans)
  then show ?thesis using assms(1) by (simp add: bucket_find_complete)
qed

end

section \<open>The data of byte_test\<close>

datatype byte_test_oper =
  CHECK_EQ | CHECK_LT | CHECK_GT | CHECK_LTE | CHECK_GTE | CHECK_AND | CHECK_XOR

primrec oper_code :: "byte_test_oper \<Rightarrow> u32" where
  "oper_code CHECK_EQ = 0"
| "oper_code CHECK_LT = 1"
| "oper_code CHECK_GT = 2"
| "oper_code CHECK_LTE = 3"
| "oper_code CHECK_GTE = 4"
| "oper_code CHECK_AND = 5"
| "oper_code CHECK_XOR = 6"

record byte_test_data =
  bt_bytes_to_compare :: u32
  bt_cmp_value :: u32
  bt_opcode :: byte_test_oper
  bt_offset :: int
  bt_not_flag :: bool
  bt_relative_flag :: bool
  bt_data_string_convert_flag :: bool
  bt_endianness :: u8
  bt_base :: u32
  bt_bitmask_val :: u32
  bt_cmp_value_var :: int
  bt_offset_var :: int

definition byte_test_check :: "byte_test_oper \<Rightarrow> u32 \<Rightarrow> u32 \<Rightarrow> bool \<Rightarrow> bool" where
  "byte_test_check oper val cmp not_flag =
     (let success =
        (case oper of
           CHECK_LT \<Rightarrow> val < cmp
         | CHECK_EQ \<Rightarrow> val = cmp
         | CHECK_GT \<Rightarrow> cmp < val
         | CHECK_AND \<Rightarrow> 0 < (val AND cmp)
         | CHECK_XOR \<Rightarrow> 0 < (val XOR cmp)
         | CHECK_GTE \<Rightarrow> cmp \<le> val
         | CHECK_LTE \<Rightarrow> val \<le> cmp)
      in if not_flag then \<not> success else success)"

section \<open>Identity\<close>

definition byte_test_name :: bytes where
  "byte_test_name = map (\<lambda>c. of_nat (of_char c)) ''byte_test''"

text \<open>An option object is its inherited identity and its configuration.\<close>

type_synonym byte_test_option = "ips_option \<times> byte_test_data"

definition byte_test_hash :: "byte_test_option \<Rightarrow> u32" where
  "byte_test_hash opt =
     (let d = snd opt;
          (a, b, c) = mix (bt_bytes_to_compare d, bt_cmp_value d, oper_code (bt_opcode d));
          (a, b, c) = mix (a + of_int (bt_offset d),
             b + (if bt_not_flag d then push_bit 24 1 else 0)
               + (if bt_relative_flag d then push_bit 16 1 else 0)
               + (if bt_data_string_convert_flag d then push_bit 8 1 else 0)
               + ucast (bt_endianness d),
             c + bt_base d);
          (a, b, c) = mix (a + of_int (bt_cmp_value_var d), b + of_int (bt_offset_var d),
             c + bt_bitmask_val d)
      in snd (snd (finalize (mix_str (a, b, c) (opt_name (fst opt)) 0))))"

definition byte_test_eq :: "byte_test_option \<Rightarrow> byte_test_option \<Rightarrow> bool" where
  "byte_test_eq l r \<longleftrightarrow>
     ips_eq (fst l) (fst r) \<and>
     bt_bytes_to_compare (snd l) = bt_bytes_to_compare (snd r) \<and>
     bt_cmp_value (snd l) = bt_cmp_value (snd r) \<and>
     bt_opcode (snd l) = bt_opcode (snd r) \<and>
     bt_offset (snd l) = bt_offset (snd r) \<and>
     bt_not_flag (snd l) = bt_not_flag (snd r) \<and>
     bt_relative_flag (snd l) = bt_relative_flag (snd r) \<and>
     bt_data_string_convert_flag (snd l) = bt_data_string_convert_flag (snd r) \<and>
     bt_endianness (snd l) = bt_endianness (snd r) \<and>
     bt_base (snd l) = bt_base (snd r) \<and>
     bt_cmp_value_var (snd l) = bt_cmp_value_var (snd r) \<and>
     bt_offset_var (snd l) = bt_offset_var (snd r) \<and>
     bt_bitmask_val (snd l) = bt_bitmask_val (snd r)"

section \<open>Evaluation\<close>

text \<open>
  The first half of \<open>eval\<close> picks up the value, with \<open>None\<close> for each of its early returns; the
  second half tests it.  The cursor is only read.
\<close>

definition byte_test_value ::
    "byte_test_data \<Rightarrow> ips_packet \<Rightarrow> var_values \<Rightarrow> cursor \<Rightarrow> u32 option" where
  "byte_test_value btd p vals c =
     (let offset = var_or_int vals (bt_offset_var btd) (bt_offset btd);
          start_ptr = cursor_base (bt_relative_flag btd) c + offset
      in case resolve_endian p (bt_endianness btd) start_ptr of
           None \<Rightarrow> None
         | Some endian \<Rightarrow>
             if \<not> bt_data_string_convert_flag btd
             then (case byte_extract endian (sint (bt_bytes_to_compare btd)) start_ptr
                          (cur_data c) of
                     Inl _ \<Rightarrow> None
                   | Inr v \<Rightarrow> Some (apply_bitmask (bt_bitmask_val btd) v))
             else
               let len = (if bt_relative_flag btd then cursor_length c else cur_sz c);
                   len = (if bt_bytes_to_compare btd < len then bt_bytes_to_compare btd else len)
               in case string_extract (sint len) (sint (bt_base btd)) start_ptr (cur_data c) of
                    Inl _ \<Rightarrow> None
                  | Inr (_, v) \<Rightarrow> Some (apply_bitmask (bt_bitmask_val btd) v))"

definition byte_test_eval ::
    "byte_test_data \<Rightarrow> ips_packet \<Rightarrow> var_values \<Rightarrow> cursor \<Rightarrow> eval_status" where
  "byte_test_eval btd p vals c =
     (let cmp_value = var_or vals (bt_cmp_value_var btd) (bt_cmp_value btd)
      in case byte_test_value btd p vals c of
           None \<Rightarrow> NO_MATCH
         | Some v \<Rightarrow>
             if byte_test_check (bt_opcode btd) v cmp_value (bt_not_flag btd)
             then MATCH else NO_MATCH)"

section \<open>Parser\<close>

text \<open>
  \<open>parse_operator\<close> returns the data and whether it reported a parse error; the characters are
  \<open>!\<close> 33, \<open><\<close> 60, \<open>=\<close> 61, \<open>>\<close> 62, \<open>&\<close> 38 and \<open>^\<close> 94.
\<close>

definition parse_operator :: "bytes \<Rightarrow> byte_test_data \<Rightarrow> byte_test_data \<times> bool" where
  "parse_operator oper idx =
     (let neg = (case oper of c # _ \<Rightarrow> c = 33 | [] \<Rightarrow> False);
          idx = (if neg then idx\<lparr>bt_not_flag := True\<rparr> else idx);
          cptr = (if neg then tl oper else oper)
      in if bt_not_flag idx \<and> cptr = [] then (idx\<lparr>bt_opcode := CHECK_EQ\<rparr>, False)
         else case cptr of
                [] \<Rightarrow> (idx, True)
              | c # cs \<Rightarrow>
                  if c = 60 then
                    (case cs of
                       e # es \<Rightarrow> if e = 61 then (idx\<lparr>bt_opcode := CHECK_LTE\<rparr>, es \<noteq> [])
                                 else (idx\<lparr>bt_opcode := CHECK_LT\<rparr>, True)
                     | [] \<Rightarrow> (idx\<lparr>bt_opcode := CHECK_LT\<rparr>, False))
                  else if c = 61 then (idx\<lparr>bt_opcode := CHECK_EQ\<rparr>, cs \<noteq> [])
                  else if c = 62 then
                    (case cs of
                       e # es \<Rightarrow> if e = 61 then (idx\<lparr>bt_opcode := CHECK_GTE\<rparr>, es \<noteq> [])
                                 else (idx\<lparr>bt_opcode := CHECK_GT\<rparr>, True)
                     | [] \<Rightarrow> (idx\<lparr>bt_opcode := CHECK_GT\<rparr>, False))
                  else if c = 38 then (idx\<lparr>bt_opcode := CHECK_AND\<rparr>, cs \<noteq> [])
                  else if c = 94 then (idx\<lparr>bt_opcode := CHECK_XOR\<rparr>, cs \<noteq> [])
                  else (idx, True))"

text \<open>The module under construction, with the number of parse errors reported so far.\<close>

record byte_test_module =
  bt_data :: byte_test_data
  bt_cmp_var :: bytes
  bt_off_var :: bytes
  bt_errors :: nat

definition byte_test_begin :: byte_test_module where
  "byte_test_begin =
     \<lparr>bt_data =
        \<lparr>bt_bytes_to_compare = 0, bt_cmp_value = 0, bt_opcode = CHECK_EQ, bt_offset = 0,
         bt_not_flag = False, bt_relative_flag = False, bt_data_string_convert_flag = False,
         bt_endianness = 0, bt_base = 0, bt_bitmask_val = 0, bt_cmp_value_var = 0,
         bt_offset_var = 0\<rparr>,
      bt_cmp_var = [], bt_off_var = [], bt_errors = 0\<rparr>"

definition byte_test_end :: "var_names \<Rightarrow> byte_test_module \<Rightarrow> bool \<times> byte_test_module" where
  "byte_test_end names m =
     (let fail = (\<lambda>d. (False, m\<lparr>bt_data := d, bt_errors := bt_errors m + 1\<rparr>));
          d = bt_data m
      in case lookup_var names (bt_off_var m) of
           None \<Rightarrow> fail (d\<lparr>bt_offset_var := IPS_OPTIONS_NO_VAR\<rparr>)
         | Some ov \<Rightarrow>
             (case lookup_var names (bt_cmp_var m) of
                None \<Rightarrow> fail (d\<lparr>bt_offset_var := ov, bt_cmp_value_var := IPS_OPTIONS_NO_VAR\<rparr>)
              | Some cv \<Rightarrow>
                  let d = d\<lparr>bt_offset_var := ov, bt_cmp_value_var := cv,
                            bt_endianness := default_endian (bt_endianness d)\<rparr>
                  in if bt_bytes_to_compare d < ucast (numBytesInBitmask (bt_bitmask_val d))
                     then fail d
                     else (True, m\<lparr>bt_data := d\<rparr>)))"

definition byte_test_set :: "param_value \<Rightarrow> byte_test_module \<Rightarrow> bool \<times> byte_test_module" where
  "byte_test_set v m =
     (let d = bt_data m;
          put = (\<lambda>d. (True, m\<lparr>bt_data := d\<rparr>))
      in if value_is v ''~count'' then put (d\<lparr>bt_bytes_to_compare := of_int (v_num v)\<rparr>)
         else if value_is v ''~operator'' then
           (case parse_operator (c_str (v_str v)) d of
              (d', err) \<Rightarrow>
                (True, m\<lparr>bt_data := d', bt_errors := bt_errors m + (if err then 1 else 0)\<rparr>))
         else if value_is v ''~compare'' then
           (case value_strtol v of
              Some n \<Rightarrow> put (d\<lparr>bt_cmp_value := of_int n\<rparr>)
            | None \<Rightarrow> (True, m\<lparr>bt_cmp_var := c_str (v_str v)\<rparr>))
         else if value_is v ''~offset'' then
           (case value_strtol v of
              Some n \<Rightarrow> put (d\<lparr>bt_offset := to_int32 n\<rparr>)
            | None \<Rightarrow> (True, m\<lparr>bt_off_var := c_str (v_str v)\<rparr>))
         else if value_is v ''relative'' then put (d\<lparr>bt_relative_flag := True\<rparr>)
         else if value_is v ''big'' then
           put (d\<lparr>bt_endianness := set_byte_order (bt_endianness d) ENDIAN_BIG\<rparr>)
         else if value_is v ''little'' then
           put (d\<lparr>bt_endianness := set_byte_order (bt_endianness d) ENDIAN_LITTLE\<rparr>)
         else if value_is v ''dce'' then
           put (d\<lparr>bt_endianness := set_byte_order (bt_endianness d) ENDIAN_FUNC\<rparr>)
         else if value_is v ''string'' then
           put (d\<lparr>bt_data_string_convert_flag := True, bt_base := 10\<rparr>)
         else if value_is v ''dec'' then put (d\<lparr>bt_base := 10\<rparr>)
         else if value_is v ''hex'' then put (d\<lparr>bt_base := 16\<rparr>)
         else if value_is v ''oct'' then put (d\<lparr>bt_base := 8\<rparr>)
         else if value_is v ''bitmask'' then put (d\<lparr>bt_bitmask_val := of_int (v_num v)\<rparr>)
         else (False, m))"

text \<open>The parser's driver: \<open>begin\<close>, one \<open>set\<close> per parameter, \<open>end\<close>.\<close>

fun byte_test_sets :: "param_value list \<Rightarrow> byte_test_module \<Rightarrow> byte_test_module option" where
  "byte_test_sets [] m = Some m"
| "byte_test_sets (v # vs) m =
     (case byte_test_set v m of (ok, m') \<Rightarrow> if ok then byte_test_sets vs m' else None)"

section \<open>Hash and equality agree\<close>

lemma ips_eq_name: "ips_eq x y \<Longrightarrow> mix_str s (opt_name x) 0 = mix_str s (opt_name y) 0"
  unfolding ips_eq_def by (blast intro: mix_str_c_str)

text \<open>An equality that compares a key, and a hash that is a function of the key.\<close>

lemma hashed_optionI:
  assumes "\<And>x y. eq x y \<longleftrightarrow> key x = key y"
    and "\<And>x y. key x = key y \<Longrightarrow> hash x = hash y"
  shows "hashed_option eq hash"
  by unfold_locales (simp_all add: assms(1), rule assms(2))

definition ips_key :: "ips_option \<Rightarrow> bytes \<times> bytes" where
  "ips_key x = (c_str (opt_name x), c_str (opt_buffer x))"

lemma ips_eq_key: "ips_eq x y \<longleftrightarrow> ips_key x = ips_key y"
  by (simp add: ips_eq_def ips_key_def)

lemma byte_test_eq_iff:
  "byte_test_eq l r \<longleftrightarrow> map_prod ips_key id l = map_prod ips_key id r"
  by (cases l; cases r) (auto simp: byte_test_eq_def ips_eq_key intro: byte_test_data.equality)

lemma byte_test_hash_key:
  assumes "map_prod ips_key id l = map_prod ips_key id r"
  shows "byte_test_hash l = byte_test_hash r"
proof -
  have "ips_eq (fst l) (fst r)" "snd l = snd r"
    using assms by (cases l; cases r; simp add: ips_eq_key)+
  then show ?thesis using ips_eq_name [of "fst l" "fst r"] by (simp add: byte_test_hash_def)
qed

interpretation byte_test: hashed_option byte_test_eq byte_test_hash
  by (rule hashed_optionI [OF byte_test_eq_iff byte_test_hash_key])

section \<open>What a test decides\<close>

lemma byte_test_eval_cases:
  "byte_test_eval d p vals c = MATCH \<longleftrightarrow>
     (\<exists>v. byte_test_value d p vals c = Some v \<and>
          byte_test_check (bt_opcode d) v (var_or vals (bt_cmp_value_var d) (bt_cmp_value d))
            (bt_not_flag d))"
  by (auto simp: byte_test_eval_def Let_def split: option.splits)

lemma byte_test_check_not: "byte_test_check oper v w True = (\<not> byte_test_check oper v w False)"
  by (simp add: byte_test_check_def Let_def)

text \<open>The relations of the operators, on the values and on the bits of the two operands.\<close>

definition oper_holds :: "byte_test_oper \<Rightarrow> u32 \<Rightarrow> u32 \<Rightarrow> bool" where
  "oper_holds oper v w =
     (case oper of
        CHECK_EQ \<Rightarrow> unat v = unat w
      | CHECK_LT \<Rightarrow> unat v < unat w
      | CHECK_GT \<Rightarrow> unat w < unat v
      | CHECK_LTE \<Rightarrow> unat v \<le> unat w
      | CHECK_GTE \<Rightarrow> unat w \<le> unat v
      | CHECK_AND \<Rightarrow> \<exists>i. bit v i \<and> bit w i
      | CHECK_XOR \<Rightarrow> \<exists>i. bit v i \<noteq> bit w i)"

lemma byte_test_check_holds: "byte_test_check oper v w b \<longleftrightarrow> oper_holds oper v w \<noteq> b"
proof -
  have n: "i < 32" if "bit (x :: u32) i" for x i using bit_imp_le_length [OF that] by simp
  have "(\<exists>i. bit v i \<and> bit w i) \<longleftrightarrow> 0 < v AND w"
    using n by (fastforce simp: word_gt_0 bit_eq_iff bit_and_iff)
  moreover have "(\<exists>i. bit v i \<noteq> bit w i) \<longleftrightarrow> 0 < v XOR w"
    using n by (fastforce simp: word_gt_0 bit_eq_iff bit_xor_iff)
  ultimately show ?thesis
    by (cases oper) (auto simp: byte_test_check_def oper_holds_def Let_def word_less_nat_alt
        word_le_nat_alt word_unat_eq_iff)
qed

text \<open>
  C23: a test on a binary field with a fixed byte order matches exactly when the field of one to
  four bytes lies in the buffer at the configured offset from the cursor or from the start, and
  its masked value stands in the configured relation to the operand (or, negated, does not).
\<close>

theorem byte_test_binary:
  assumes "\<not> bt_data_string_convert_flag d" and "bt_endianness d \<noteq> ENDIAN_FUNC"
    and "ptr = cursor_base (bt_relative_flag d) c + var_or_int vals (bt_offset_var d) (bt_offset d)"
    and "n = sint (bt_bytes_to_compare d)"
  shows "byte_test_eval d p vals c = MATCH \<longleftrightarrow>
     (bt_endianness d = ENDIAN_BIG \<or> bt_endianness d = ENDIAN_LITTLE) \<and>
     1 \<le> n \<and> n \<le> 4 \<and> 0 \<le> ptr \<and> ptr + n \<le> int (length (cur_data c)) \<and>
     oper_holds (bt_opcode d)
       (apply_bitmask (bt_bitmask_val d)
          (of_nat (endian_value (bt_endianness d) (take (nat n) (drop (nat ptr) (cur_data c))))))
       (var_or vals (bt_cmp_value_var d) (bt_cmp_value d)) \<noteq> bt_not_flag d"
proof -
  have v: "byte_test_value d p vals c =
      (case byte_extract (bt_endianness d) n ptr (cur_data c) of
         Inl _ \<Rightarrow> None | Inr v \<Rightarrow> Some (apply_bitmask (bt_bitmask_val d) v))"
    using assms by (simp add: byte_test_value_def resolve_endian_def Let_def)
  note isr = byte_extract_isr [of "bt_endianness d" n ptr "cur_data c"]
  show ?thesis
  proof (cases "byte_extract (bt_endianness d) n ptr (cur_data c)")
    case (Inl e)
    then have "byte_test_value d p vals c = None" using v by simp
    then have "byte_test_eval d p vals c \<noteq> MATCH" by (simp add: byte_test_eval_cases)
    then show ?thesis using isr Inl by auto
  next
    case (Inr w)
    have "of_nat (unat w) = w" by simp
    then have w: "of_nat (endian_value (bt_endianness d) (take (nat n) (drop (nat ptr) (cur_data c)))) = w"
      using byte_extract_Inr [OF Inr] by simp
    have "byte_test_value d p vals c = Some (apply_bitmask (bt_bitmask_val d) w)"
      using v Inr by simp
    then show ?thesis using isr Inr w by (simp add: byte_test_eval_cases byte_test_check_holds)
  qed
qed

definition bt_field_example :: byte_test_data where
  "bt_field_example =
     \<lparr>bt_bytes_to_compare = 2, bt_cmp_value = 0x34, bt_opcode = CHECK_EQ, bt_offset = 1,
      bt_not_flag = False, bt_relative_flag = True, bt_data_string_convert_flag = False,
      bt_endianness = ENDIAN_LITTLE, bt_base = 0, bt_bitmask_val = 0xFF00,
      bt_cmp_value_var = - 1, bt_offset_var = - 1\<rparr>"

definition bt_cursor_example :: cursor where
  "bt_cursor_example =
     \<lparr>cur_name = ''pkt_data'', cur_data = [0, 0, 0, 0x12, 0x34], cur_sz = 5, cur_pos = 2,
      cur_delta = 0\<rparr>"

theorem byte_test_binary_witness:
  "\<not> bt_data_string_convert_flag bt_field_example \<and>
   bt_endianness bt_field_example \<noteq> ENDIAN_FUNC \<and>
   (3 :: int) = cursor_base (bt_relative_flag bt_field_example) bt_cursor_example +
     var_or_int [0, 0, 0] (bt_offset_var bt_field_example) (bt_offset bt_field_example) \<and>
   (2 :: int) = sint (bt_bytes_to_compare bt_field_example) \<and>
   (\<forall>p. byte_test_eval bt_field_example p [0, 0, 0] bt_cursor_example = MATCH)"
proof -
  have h: "\<not> bt_data_string_convert_flag bt_field_example"
    "bt_endianness bt_field_example \<noteq> ENDIAN_FUNC"
    "3 = cursor_base (bt_relative_flag bt_field_example) bt_cursor_example +
      var_or_int [0, 0, 0] (bt_offset_var bt_field_example) (bt_offset bt_field_example)"
    "2 = sint (bt_bytes_to_compare bt_field_example)"
    by (simp_all add: bt_field_example_def bt_cursor_example_def extract_constants
        cursor_base_def var_or_int_def)
  have mask: "apply_bitmask 0xFF00 (of_nat (le_value [0x12, 0x34])) = 0x34" by code_simp
  have "byte_test_eval bt_field_example p [0, 0, 0] bt_cursor_example = MATCH" for p
    unfolding byte_test_binary [OF h]
    by (simp add: bt_field_example_def bt_cursor_example_def endian_value_def var_or_def
        oper_holds_def mask del: of_nat_numeral)
  then show ?thesis using h by blast
qed

text \<open>
  A test and its negation never both match, and when the value cannot be picked up, because
  the field leaves the buffer, the text is no number or the byte order is unknown, neither does:
  negation never turns a failed extraction into a match.
\<close>

lemma byte_test_negation:
  "(byte_test_value d p vals c = None \<and>
     byte_test_eval (d\<lparr>bt_not_flag := False\<rparr>) p vals c = NO_MATCH \<and>
     byte_test_eval (d\<lparr>bt_not_flag := True\<rparr>) p vals c = NO_MATCH) \<or>
   (byte_test_value d p vals c \<noteq> None \<and>
     (byte_test_eval (d\<lparr>bt_not_flag := False\<rparr>) p vals c = MATCH) =
     (byte_test_eval (d\<lparr>bt_not_flag := True\<rparr>) p vals c = NO_MATCH))"
proof -
  have "byte_test_value (d\<lparr>bt_not_flag := b\<rparr>) p vals c = byte_test_value d p vals c" for b
    by (simp add: byte_test_value_def Let_def cong: option.case_cong sum.case_cong if_cong)
  then show ?thesis
    by (cases "byte_test_value d p vals c")
      (simp_all add: byte_test_eval_def Let_def byte_test_check_not)
qed

section \<open>What the parser accepts\<close>

definition var_ok :: "int \<Rightarrow> bool" where
  "var_ok i \<longleftrightarrow> - 1 \<le> i \<and> i < NUM_IPS_OPTIONS_VARS"

lemma lookup_var_ok: "length names \<le> 3 \<Longrightarrow> lookup_var names v = Some i \<Longrightarrow> var_ok i"
  using var_index_range [of 0 names v]
  by (auto simp: lookup_var_def GetVarByName_def var_ok_def NUM_IPS_OPTIONS_VARS_def
      IPS_OPTIONS_NO_VAR_def split: if_splits)

definition endian_set :: "u8 \<Rightarrow> bool" where
  "endian_set e \<longleftrightarrow> e = ENDIAN_BIG \<or> e = ENDIAN_LITTLE \<or> e = ENDIAN_FUNC"

definition int32_ok :: "int \<Rightarrow> bool" where
  "int32_ok x \<longleftrightarrow> - (2 ^ 31) \<le> x \<and> x < 2 ^ 31"

lemma int32_ok_to_int32 [simp]: "int32_ok (to_int32 x)"
  using to_int32_range [of x] by (simp add: int32_ok_def)

lemma int32_ok_0 [simp]: "int32_ok 0"
  by (simp add: int32_ok_def)

lemma endian_set_consts [simp]:
  "endian_set ENDIAN_BIG" "endian_set ENDIAN_LITTLE" "endian_set ENDIAN_FUNC"
  by (simp_all add: endian_set_def)

lemma default_endian_set: "e = 0 \<or> endian_set e \<Longrightarrow> endian_set (default_endian e)"
  by (auto simp: default_endian_def)

text \<open>What holds while parameters are being set, and what the finished data satisfies.\<close>

definition bt_partial :: "byte_test_data \<Rightarrow> bool" where
  "bt_partial d \<longleftrightarrow> (bt_endianness d = 0 \<or> endian_set (bt_endianness d)) \<and> int32_ok (bt_offset d)"

definition bt_wf :: "byte_test_data \<Rightarrow> bool" where
  "bt_wf d \<longleftrightarrow>
     endian_set (bt_endianness d) \<and> int32_ok (bt_offset d) \<and>
     var_ok (bt_offset_var d) \<and> var_ok (bt_cmp_value_var d) \<and>
     unat (numBytesInBitmask (bt_bitmask_val d)) \<le> unat (bt_bytes_to_compare d)"

lemma parse_operator_partial: "bt_partial d \<Longrightarrow> bt_partial (fst (parse_operator s d))"
  by (simp add: parse_operator_def Let_def bt_partial_def split: list.splits)

lemma byte_test_set_partial:
  assumes "bt_partial (bt_data m)"
  shows "bt_partial (bt_data (snd (byte_test_set v m)))"
  using assms parse_operator_partial [OF assms, of "c_str (v_str v)"]
  by (auto simp: byte_test_set_def Let_def bt_partial_def set_byte_order_def case_prod_beta
      split: option.splits)

lemma byte_test_sets_partial:
  "byte_test_sets vs m = Some m' \<Longrightarrow> bt_partial (bt_data m) \<Longrightarrow> bt_partial (bt_data m')"
proof (induction vs arbitrary: m)
  case (Cons v vs)
  then show ?case using byte_test_set_partial [of m v]
    by (auto split: prod.splits if_splits)
qed simp

lemma ucast_le_u32: "(\<not> w < ucast (b :: u8)) \<longleftrightarrow> unat b \<le> unat (w :: u32)"
  by (simp add: word_less_nat_alt unsigned_ucast_eq take_bit_nat_eq_self not_less
      order_less_le_trans [OF unsigned_less])

lemma byte_test_end_wf:
  assumes "byte_test_end names m = (True, m')" and "bt_partial (bt_data m)" and "length names \<le> 3"
  shows "bt_wf (bt_data m')"
  using assms lookup_var_ok [OF assms(3)]
  by (auto simp: byte_test_end_def Let_def bt_wf_def bt_partial_def ucast_le_u32 default_endian_set
      split: if_splits option.splits)


definition bt_example_values :: "param_value list" where
  "bt_example_values =
     [\<lparr>v_name = ''~count'', v_num = 5, v_str = []\<rparr>,
      \<lparr>v_name = ''~operator'', v_num = 0, v_str = [33, 61]\<rparr>,
      \<lparr>v_name = ''~compare'', v_num = 0, v_str = [49]\<rparr>,
      \<lparr>v_name = ''~offset'', v_num = 0, v_str = [48]\<rparr>]"

definition bt_example :: byte_test_module where
  "bt_example =
     byte_test_begin\<lparr>bt_data := (bt_data byte_test_begin)
       \<lparr>bt_bytes_to_compare := 5, bt_not_flag := True, bt_cmp_value := 1\<rparr>\<rparr>"

lemma bt_example_sets: "byte_test_sets bt_example_values byte_test_begin = Some bt_example"
  by code_simp

lemma bt_example_end:
  "byte_test_end [] bt_example =
     (True, bt_example\<lparr>bt_data := (bt_data bt_example)
        \<lparr>bt_offset_var := - 1, bt_cmp_value_var := - 1, bt_endianness := ENDIAN_BIG\<rparr>\<rparr>)"
  by (simp add: byte_test_end_def bt_example_def byte_test_begin_def extract_constants
      numBytesInBitmask_def lookup_var_def default_endian_def)


lemma byte_test_value_wide:
  assumes "\<not> bt_data_string_convert_flag d" and "4 < sint (bt_bytes_to_compare d)"
  shows "byte_test_value d p vals c = None"
proof -
  have none: "(case byte_extract e (sint (bt_bytes_to_compare d)) ptr buf of
      Inl _ \<Rightarrow> None | Inr v \<Rightarrow> Some (g v)) = None" for e ptr buf and g :: "u32 \<Rightarrow> u32"
    using byte_extract_isr [of e "sint (bt_bytes_to_compare d)" ptr buf] assms(2)
    by (cases "byte_extract e (sint (bt_bytes_to_compare d)) ptr buf") auto
  show ?thesis using assms(1)
    by (simp add: byte_test_value_def Let_def none split: option.split)
qed


end
