(* ===== verification/Byte_Jump.thy ===== *)
theory Byte_Jump
  imports Byte_Test
begin

unbundle bit_operations_syntax

text \<open>
  The option \<open>byte_jump\<close> of \<^verbatim>\<open>ips_options/ips_byte_jump.cc\<close>: it reads a number from the buffer
  and moves the cursor by it.
\<close>

section \<open>Data and identity\<close>

record byte_jump_data =
  bj_bytes_to_grab :: u32
  bj_offset :: int
  bj_relative_flag :: u8
  bj_data_string_convert_flag :: u8
  bj_from_beginning_flag :: u8
  bj_align_flag :: u8
  bj_endianness :: u8
  bj_base :: u32
  bj_multiplier :: u32
  bj_post_offset :: int
  bj_bitmask_val :: u32
  bj_offset_var :: int
  bj_from_end_flag :: u8
  bj_post_offset_var :: int

type_synonym byte_jump_option = "ips_option \<times> byte_jump_data"

definition byte_jump_hash :: "byte_jump_option \<Rightarrow> u32" where
  "byte_jump_hash opt =
     (let d = snd opt;
          (a, b, c) = mix (bj_bytes_to_grab d, of_int (bj_offset d), bj_base d);
          (a, b, c) = mix
            (a + (push_bit 24 (ucast (bj_relative_flag d)) OR
                  push_bit 16 (ucast (bj_data_string_convert_flag d)) OR
                  push_bit 8 (ucast (bj_from_beginning_flag d)) OR
                  ucast (bj_align_flag d)),
             b + ucast (bj_endianness d),
             c + bj_multiplier d);
          (a, b, c) = mix
            (a + of_int (bj_post_offset d),
             b + (push_bit 16 (ucast (bj_from_end_flag d)) OR
                  push_bit 8 (of_int (bj_offset_var d)) OR
                  of_int (bj_post_offset_var d)),
             c + bj_bitmask_val d)
      in snd (snd (finalize (mix_str (a, b, c) (opt_name (fst opt)) 0))))"

definition byte_jump_eq :: "byte_jump_option \<Rightarrow> byte_jump_option \<Rightarrow> bool" where
  "byte_jump_eq l r \<longleftrightarrow>
     ips_eq (fst l) (fst r) \<and>
     bj_bytes_to_grab (snd l) = bj_bytes_to_grab (snd r) \<and>
     bj_offset (snd l) = bj_offset (snd r) \<and>
     bj_offset_var (snd l) = bj_offset_var (snd r) \<and>
     bj_relative_flag (snd l) = bj_relative_flag (snd r) \<and>
     bj_data_string_convert_flag (snd l) = bj_data_string_convert_flag (snd r) \<and>
     bj_from_beginning_flag (snd l) = bj_from_beginning_flag (snd r) \<and>
     bj_align_flag (snd l) = bj_align_flag (snd r) \<and>
     bj_endianness (snd l) = bj_endianness (snd r) \<and>
     bj_base (snd l) = bj_base (snd r) \<and>
     bj_multiplier (snd l) = bj_multiplier (snd r) \<and>
     bj_post_offset (snd l) = bj_post_offset (snd r) \<and>
     bj_bitmask_val (snd l) = bj_bitmask_val (snd r) \<and>
     bj_from_end_flag (snd l) = bj_from_end_flag (snd r) \<and>
     bj_post_offset_var (snd l) = bj_post_offset_var (snd r)"

section \<open>Evaluation\<close>

text \<open>
  The number read and the bytes it took: nothing when \<open>bytes_to_grab\<close> is 0, \<open>None\<close> when the
  extraction fails.
\<close>

definition byte_jump_grab :: "byte_jump_data \<Rightarrow> u8 \<Rightarrow> int \<Rightarrow> cursor \<Rightarrow> (u32 \<times> u32) option" where
  "byte_jump_grab bjd endian base_ptr c =
     (if bj_bytes_to_grab bjd = 0 then Some (0, 0)
      else
        let extracted =
          (if bj_data_string_convert_flag bjd = 0
           then (case byte_extract endian (sint (bj_bytes_to_grab bjd)) base_ptr (cur_data c) of
                   Inl _ \<Rightarrow> None
                 | Inr jump \<Rightarrow> Some (jump, bj_bytes_to_grab bjd))
           else (case string_extract (sint (bj_bytes_to_grab bjd)) (sint (bj_base bjd)) base_ptr
                        (cur_data c) of
                   Inl _ \<Rightarrow> None
                 | Inr (n, jump) \<Rightarrow> Some (jump, of_nat n)))
        in case extracted of
             None \<Rightarrow> None
           | Some (jump, grabbed) \<Rightarrow>
               let jump = apply_bitmask (bj_bitmask_val bjd) jump;
                   jump = (if bj_multiplier bjd \<noteq> 0 then jump * bj_multiplier bjd else jump);
                   jump = (if bj_align_flag bjd \<noteq> 0 \<and> jump mod 4 \<noteq> 0
                           then jump + (4 - jump mod 4) else jump)
               in Some (jump, grabbed))"

definition byte_jump_eval ::
    "byte_jump_data \<Rightarrow> ips_packet \<Rightarrow> var_values \<Rightarrow> cursor \<Rightarrow> eval_status \<times> cursor" where
  "byte_jump_eval bjd p vals c =
     (let offset = var_or_int vals (bj_offset_var bjd) (bj_offset bjd);
          post_offset = var_or_int vals (bj_post_offset_var bjd) (bj_post_offset bjd);
          base_ptr = offset + cursor_base (bj_relative_flag bjd \<noteq> 0) c
      in case resolve_endian p (bj_endianness bjd) base_ptr of
           None \<Rightarrow> (NO_MATCH, c)
         | Some endian \<Rightarrow>
             (case byte_jump_grab bjd endian base_ptr c of
                None \<Rightarrow> (NO_MATCH, c)
              | Some (jump, payload_bytes_grabbed) \<Rightarrow>
                  let pos =
                    (if bj_from_beginning_flag bjd \<noteq> 0 then jump
                     else if bj_from_end_flag bjd \<noteq> 0 then cur_sz c + jump
                     else cur_pos c + of_int offset + payload_bytes_grabbed + jump);
                      pos = pos + of_int post_offset
                  in (case set_pos pos c of
                        (ok, c') \<Rightarrow> if ok then (MATCH, c') else (NO_MATCH, c'))))"

section \<open>Parser\<close>

record byte_jump_module =
  bj_data :: byte_jump_data
  bj_var :: bytes
  bj_post_var :: bytes
  bj_errors :: nat

definition byte_jump_begin :: byte_jump_module where
  "byte_jump_begin =
     \<lparr>bj_data =
        \<lparr>bj_bytes_to_grab = 0, bj_offset = 0, bj_relative_flag = 0,
         bj_data_string_convert_flag = 0, bj_from_beginning_flag = 0, bj_align_flag = 0,
         bj_endianness = 0, bj_base = 0, bj_multiplier = 1, bj_post_offset = 0,
         bj_bitmask_val = 0, bj_offset_var = 0, bj_from_end_flag = 0, bj_post_offset_var = 0\<rparr>,
      bj_var = [], bj_post_var = [], bj_errors = 0\<rparr>"

definition byte_jump_end :: "var_names \<Rightarrow> byte_jump_module \<Rightarrow> bool \<times> byte_jump_module" where
  "byte_jump_end names m =
     (let fail = (\<lambda>d. (False, m\<lparr>bj_data := d, bj_errors := bj_errors m + 1\<rparr>));
          d = bj_data m
      in case lookup_var names (bj_var m) of
           None \<Rightarrow> fail (d\<lparr>bj_offset_var := IPS_OPTIONS_NO_VAR\<rparr>)
         | Some ov \<Rightarrow>
             (case lookup_var names (bj_post_var m) of
                None \<Rightarrow> fail (d\<lparr>bj_offset_var := ov, bj_post_offset_var := IPS_OPTIONS_NO_VAR\<rparr>)
              | Some pv \<Rightarrow>
                  let d = d\<lparr>bj_offset_var := ov, bj_post_offset_var := pv,
                            bj_endianness := default_endian (bj_endianness d)\<rparr>
                  in if bj_from_beginning_flag d \<noteq> 0 \<and> bj_from_end_flag d \<noteq> 0 then fail d
                     else if bj_bitmask_val d \<noteq> 0 \<and>
                             bj_bytes_to_grab d < ucast (numBytesInBitmask (bj_bitmask_val d))
                     then fail d
                     else if MAX_BYTES_TO_GRAB < bj_bytes_to_grab d \<and>
                             bj_data_string_convert_flag d = 0
                     then fail d
                     else (True, m\<lparr>bj_data := d\<rparr>)))"

definition byte_jump_set :: "param_value \<Rightarrow> byte_jump_module \<Rightarrow> bool \<times> byte_jump_module" where
  "byte_jump_set v m =
     (let d = bj_data m;
          put = (\<lambda>d. (True, m\<lparr>bj_data := d\<rparr>))
      in if value_is v ''~count'' then put (d\<lparr>bj_bytes_to_grab := of_int (v_num v)\<rparr>)
         else if value_is v ''~offset'' then
           (case value_strtol v of
              Some n \<Rightarrow> put (d\<lparr>bj_offset := to_int32 n\<rparr>)
            | None \<Rightarrow> (True, m\<lparr>bj_var := c_str (v_str v)\<rparr>))
         else if value_is v ''relative'' then put (d\<lparr>bj_relative_flag := 1\<rparr>)
         else if value_is v ''from_beginning'' then put (d\<lparr>bj_from_beginning_flag := 1\<rparr>)
         else if value_is v ''align'' then put (d\<lparr>bj_align_flag := 1\<rparr>)
         else if value_is v ''multiplier'' then put (d\<lparr>bj_multiplier := of_int (v_num v)\<rparr>)
         else if value_is v ''post_offset'' then
           (case value_strtol v of
              Some n \<Rightarrow> put (d\<lparr>bj_post_offset := to_int32 n\<rparr>)
            | None \<Rightarrow> (True, m\<lparr>bj_post_var := c_str (v_str v)\<rparr>))
         else if value_is v ''big'' then
           put (d\<lparr>bj_endianness := set_byte_order (bj_endianness d) ENDIAN_BIG\<rparr>)
         else if value_is v ''little'' then
           put (d\<lparr>bj_endianness := set_byte_order (bj_endianness d) ENDIAN_LITTLE\<rparr>)
         else if value_is v ''dce'' then
           put (d\<lparr>bj_endianness := set_byte_order (bj_endianness d) ENDIAN_FUNC\<rparr>)
         else if value_is v ''string'' then
           put (d\<lparr>bj_data_string_convert_flag := 1, bj_base := 10\<rparr>)
         else if value_is v ''dec'' then put (d\<lparr>bj_base := 10\<rparr>)
         else if value_is v ''hex'' then put (d\<lparr>bj_base := 16\<rparr>)
         else if value_is v ''oct'' then put (d\<lparr>bj_base := 8\<rparr>)
         else if value_is v ''from_end'' then put (d\<lparr>bj_from_end_flag := 1\<rparr>)
         else if value_is v ''bitmask'' then put (d\<lparr>bj_bitmask_val := of_int (v_num v)\<rparr>)
         else (False, m))"

fun byte_jump_sets :: "param_value list \<Rightarrow> byte_jump_module \<Rightarrow> byte_jump_module option" where
  "byte_jump_sets [] m = Some m"
| "byte_jump_sets (v # vs) m =
     (case byte_jump_set v m of (ok, m') \<Rightarrow> if ok then byte_jump_sets vs m' else None)"

section \<open>Hash and equality agree\<close>

lemma byte_jump_eq_iff:
  "byte_jump_eq l r \<longleftrightarrow> map_prod ips_key id l = map_prod ips_key id r"
  by (cases l; cases r) (auto simp: byte_jump_eq_def ips_eq_key intro: byte_jump_data.equality)

lemma byte_jump_hash_key:
  assumes "map_prod ips_key id l = map_prod ips_key id r"
  shows "byte_jump_hash l = byte_jump_hash r"
proof -
  have "ips_eq (fst l) (fst r)" "snd l = snd r"
    using assms by (cases l; cases r; simp add: ips_eq_key)+
  then show ?thesis using ips_eq_name [of "fst l" "fst r"] by (simp add: byte_jump_hash_def)
qed

interpretation byte_jump: hashed_option byte_jump_eq byte_jump_hash
  by (rule hashed_optionI [OF byte_jump_eq_iff byte_jump_hash_key])

section \<open>Where the cursor goes\<close>

text \<open>The target of a jump, as the 32 bit sum that \<open>eval\<close> computes.\<close>

definition jump_target :: "byte_jump_data \<Rightarrow> var_values \<Rightarrow> cursor \<Rightarrow> u32 \<Rightarrow> u32 \<Rightarrow> u32" where
  "jump_target d vals c jump grabbed =
     (if bj_from_beginning_flag d \<noteq> 0 then jump
      else if bj_from_end_flag d \<noteq> 0 then cur_sz c + jump
      else cur_pos c + of_int (var_or_int vals (bj_offset_var d) (bj_offset d)) + grabbed + jump) +
     of_int (var_or_int vals (bj_post_offset_var d) (bj_post_offset d))"

lemma byte_jump_eval_cases:
  obtains (fail) "byte_jump_eval d p vals c = (NO_MATCH, c)"
  | (jump) jump grabbed endian where
      "resolve_endian p (bj_endianness d)
         (var_or_int vals (bj_offset_var d) (bj_offset d) + cursor_base (bj_relative_flag d \<noteq> 0) c)
         = Some endian"
      "byte_jump_grab d endian
         (var_or_int vals (bj_offset_var d) (bj_offset d) + cursor_base (bj_relative_flag d \<noteq> 0) c) c
         = Some (jump, grabbed)"
      "jump_target d vals c jump grabbed \<le> cur_sz c"
      "byte_jump_eval d p vals c = (MATCH, c\<lparr>cur_pos := jump_target d vals c jump grabbed\<rparr>)"
  by (fastforce simp: byte_jump_eval_def jump_target_def set_pos_def Let_def
      split: option.splits prod.splits if_splits)

text \<open>
  C22: a jump that matches leaves the cursor inside its buffer, one past the end included, with
  everything but the position unchanged; a jump that does not match leaves the cursor as it was.
\<close>

theorem byte_jump_cursor:
  assumes "cursor_ok c" and "byte_jump_eval d p vals c = (st, c')"
  shows "cursor_ok c' \<and>
         ((st = NO_MATCH \<and> c' = c) \<or> (st = MATCH \<and> c' = c\<lparr>cur_pos := cur_pos c'\<rparr>))"
proof (cases rule: byte_jump_eval_cases [of d p vals c])
  case fail
  then show ?thesis using assms by simp
next
  case (jump j g e)
  then show ?thesis using assms by (auto simp: cursor_ok_def)
qed


definition bj_example :: byte_jump_data where
  "bj_example = (bj_data byte_jump_begin)
     \<lparr>bj_bytes_to_grab := 1, bj_relative_flag := 1, bj_align_flag := 1,
      bj_endianness := ENDIAN_BIG, bj_offset_var := - 1, bj_post_offset_var := - 1\<rparr>"

definition bj_cursor_example :: cursor where
  "bj_cursor_example =
     \<lparr>cur_name = ''pkt_data'', cur_data = [9, 3, 0, 0, 0, 0, 7, 7], cur_sz = 8, cur_pos = 1,
      cur_delta = 0\<rparr>"

definition bj_packet_example :: ips_packet where
  "bj_packet_example = \<lparr>pkt_endianness = None, buf_off = 0\<rparr>"

lemma bj_example_eval:
  "byte_jump_eval bj_example bj_packet_example [0, 0, 0] bj_cursor_example =
     (MATCH, bj_cursor_example\<lparr>cur_pos := 6\<rparr>)"
  by code_simp

theorem byte_jump_cursor_witness:
  "cursor_ok bj_cursor_example \<and>
   byte_jump_eval bj_example bj_packet_example [0, 0, 0] bj_cursor_example =
     (MATCH, bj_cursor_example\<lparr>cur_pos := 6\<rparr>) \<and>
   cursor_ok (bj_cursor_example\<lparr>cur_pos := 6\<rparr>)"
proof -
  have ok: "cursor_ok bj_cursor_example" by (simp add: cursor_ok_def bj_cursor_example_def)
  show ?thesis using byte_jump_cursor [OF ok bj_example_eval] ok bj_example_eval by blast
qed

section \<open>How far a jump goes\<close>

text \<open>Rounding up to a multiple of four, in exact arithmetic.\<close>

definition round_up4 :: "nat \<Rightarrow> nat" where
  "round_up4 n = (n + 3) div 4 * 4"

lemma round_up4_cases: "round_up4 n = (if n mod 4 = 0 then n else n + (4 - n mod 4))"
  unfolding round_up4_def by presburger

lemma unat_align4:
  fixes j :: u32
  assumes "unat j < 2 ^ 32 - 4"
  shows "unat (if j mod 4 \<noteq> 0 then j + (4 - j mod 4) else j) = round_up4 (unat j)"
proof -
  have m: "unat (j mod 4) = unat j mod 4" by (simp add: unat_mod_distrib)
  have z: "j mod 4 = 0 \<longleftrightarrow> unat j mod 4 = 0" by (simp add: m [symmetric] unat_eq_0)
  show ?thesis
  proof (cases "j mod 4 = 0")
    case True
    then show ?thesis using z by (simp add: round_up4_cases)
  next
    case False
    have lt: "unat j mod 4 < 4" by simp
    have "j mod 4 \<le> 4" using m lt by (simp add: word_le_nat_alt)
    then have s: "unat (4 - j mod 4) = 4 - unat j mod 4" using m by (simp add: unat_sub_nowrap)
    have "unat (j + (4 - j mod 4)) = unat j + (4 - unat j mod 4)"
      using assms s by (subst unat_add_nowrap) auto
    then show ?thesis using False z by (simp add: round_up4_cases)
  qed
qed


lemma bj_example_fields:
  "bj_bytes_to_grab bj_example = 1" "bj_offset bj_example = 0" "bj_relative_flag bj_example = 1"
  "bj_data_string_convert_flag bj_example = 0" "bj_from_beginning_flag bj_example = 0"
  "bj_align_flag bj_example = 1" "bj_endianness bj_example = ENDIAN_BIG"
  "bj_multiplier bj_example = 1" "bj_post_offset bj_example = 0" "bj_bitmask_val bj_example = 0"
  "bj_offset_var bj_example = - 1" "bj_from_end_flag bj_example = 0"
  "bj_post_offset_var bj_example = - 1"
  by (simp_all add: bj_example_def byte_jump_begin_def)





section \<open>What the parser accepts\<close>

definition bj_partial :: "byte_jump_data \<Rightarrow> bool" where
  "bj_partial d \<longleftrightarrow> (bj_endianness d = 0 \<or> endian_set (bj_endianness d)) \<and>
     int32_ok (bj_offset d) \<and> int32_ok (bj_post_offset d)"

definition bj_wf :: "byte_jump_data \<Rightarrow> bool" where
  "bj_wf d \<longleftrightarrow>
     endian_set (bj_endianness d) \<and> int32_ok (bj_offset d) \<and> int32_ok (bj_post_offset d) \<and>
     var_ok (bj_offset_var d) \<and> var_ok (bj_post_offset_var d) \<and>
     (bj_from_beginning_flag d = 0 \<or> bj_from_end_flag d = 0) \<and>
     (bj_data_string_convert_flag d \<noteq> 0 \<or> unat (bj_bytes_to_grab d) \<le> 4) \<and>
     (bj_bitmask_val d = 0 \<or>
      unat (numBytesInBitmask (bj_bitmask_val d)) \<le> unat (bj_bytes_to_grab d))"

lemma byte_jump_set_partial:
  assumes "bj_partial (bj_data m)"
  shows "bj_partial (bj_data (snd (byte_jump_set v m)))"
  using assms
  by (auto simp: byte_jump_set_def Let_def bj_partial_def set_byte_order_def split: option.splits)

lemma byte_jump_sets_partial:
  "byte_jump_sets vs m = Some m' \<Longrightarrow> bj_partial (bj_data m) \<Longrightarrow> bj_partial (bj_data m')"
proof (induction vs arbitrary: m)
  case (Cons v vs)
  then show ?case using byte_jump_set_partial [of m v] by (auto split: prod.splits if_splits)
qed simp

lemma byte_jump_end_wf:
  assumes "byte_jump_end names m = (True, m')" and "bj_partial (bj_data m)" and "length names \<le> 3"
  shows "bj_wf (bj_data m')"
proof -
  have max4: "\<not> MAX_BYTES_TO_GRAB < w \<longleftrightarrow> unat w \<le> 4" for w
    by (simp add: MAX_BYTES_TO_GRAB_def word_less_nat_alt not_less)
  show ?thesis
    using assms(1,2) lookup_var_ok [OF assms(3)] max4
    by (auto simp: byte_jump_end_def Let_def bj_wf_def bj_partial_def ucast_le_u32
        default_endian_set split: if_splits option.splits)
qed


definition bj_example_values :: "param_value list" where
  "bj_example_values =
     [\<lparr>v_name = ''~count'', v_num = 1, v_str = []\<rparr>,
      \<lparr>v_name = ''~offset'', v_num = 0, v_str = [48]\<rparr>,
      \<lparr>v_name = ''relative'', v_num = 0, v_str = []\<rparr>,
      \<lparr>v_name = ''align'', v_num = 0, v_str = []\<rparr>]"

definition bj_example_module :: byte_jump_module where
  "bj_example_module =
     byte_jump_begin\<lparr>bj_data := bj_example\<lparr>bj_endianness := 0, bj_offset_var := 0,
       bj_post_offset_var := 0\<rparr>\<rparr>"

lemma bj_example_sets: "byte_jump_sets bj_example_values byte_jump_begin = Some bj_example_module"
  by code_simp

lemma bj_example_end:
  "byte_jump_end [] bj_example_module = (True, bj_example_module\<lparr>bj_data := bj_example\<rparr>)"
  by code_simp


end
