(* ===== verification/Byte_Math.thy ===== *)
theory Byte_Math
  imports Byte_Jump
begin

unbundle bit_operations_syntax

text \<open>
  The options that compute rule variables, \<open>byte_extract\<close> and \<open>byte_math\<close>, and the option
  \<open>isdataat\<close> that asks whether a position exists, from \<^verbatim>\<open>ips_options/ips_byte_extract.cc\<close>,
  \<^verbatim>\<open>ips_byte_math.cc\<close> and \<^verbatim>\<open>ips_isdataat.cc\<close>.
\<close>

section \<open>byte_extract\<close>

record byte_extract_data =
  be_bytes_to_grab :: u32
  be_offset :: int
  be_relative_flag :: u8
  be_data_string_convert_flag :: u8
  be_align :: u8
  be_endianness :: u8
  be_base :: u32
  be_multiplier :: u32
  be_bitmask_val :: u32
  be_var_number :: int
  be_name :: "bytes option"

type_synonym byte_extract_option = "ips_option \<times> byte_extract_data"

definition byte_extract_hash :: "byte_extract_option \<Rightarrow> u32" where
  "byte_extract_hash opt =
     (let d = snd opt;
          (a, b, c) = mix (be_bytes_to_grab d, of_int (be_offset d), be_base d);
          (a, b, c) = mix
            (a + (push_bit 24 (ucast (be_relative_flag d)) OR
                  push_bit 16 (ucast (be_data_string_convert_flag d)) OR
                  push_bit 8 (ucast (be_align d)) OR
                  ucast (be_endianness d)),
             b + be_multiplier d,
             c + of_int (be_var_number d))
      in snd (snd (finalize
           (mix_str (a + be_bitmask_val d, b, c) (opt_name (fst opt)) 0))))"

definition byte_extract_eq :: "byte_extract_option \<Rightarrow> byte_extract_option \<Rightarrow> bool" where
  "byte_extract_eq l r \<longleftrightarrow>
     ips_eq (fst l) (fst r) \<and>
     be_bytes_to_grab (snd l) = be_bytes_to_grab (snd r) \<and>
     be_offset (snd l) = be_offset (snd r) \<and>
     be_relative_flag (snd l) = be_relative_flag (snd r) \<and>
     be_data_string_convert_flag (snd l) = be_data_string_convert_flag (snd r) \<and>
     be_align (snd l) = be_align (snd r) \<and>
     be_endianness (snd l) = be_endianness (snd r) \<and>
     be_base (snd l) = be_base (snd r) \<and>
     be_multiplier (snd l) = be_multiplier (snd r) \<and>
     be_var_number (snd l) = be_var_number (snd r) \<and>
     be_bitmask_val (snd l) = be_bitmask_val (snd r)"

text \<open>The value after mask, multiplier and alignment.\<close>

definition byte_extract_scale :: "byte_extract_data \<Rightarrow> u32 \<Rightarrow> u32" where
  "byte_extract_scale d v =
     (let v = apply_bitmask (be_bitmask_val d) v * be_multiplier d
      in if be_align d = 4 \<and> v mod 4 \<noteq> 0 then v + 4 - v mod 4
         else if be_align d = 2 \<and> v mod 2 \<noteq> 0 then v + 2 - v mod 2
         else v)"

text \<open>The first half of \<open>eval\<close>: the value and the bytes read, \<open>None\<close> for its early returns.\<close>

definition byte_extract_read ::
    "byte_extract_data \<Rightarrow> ips_packet \<Rightarrow> cursor \<Rightarrow> (u32 \<times> int) option" where
  "byte_extract_read d p c =
     (let ptr = cursor_base (be_relative_flag d \<noteq> 0) c + be_offset d
      in if ptr < 0 \<or> int (length (cur_data c)) \<le> ptr then None
         else case resolve_endian p (be_endianness d) ptr of
           None \<Rightarrow> None
         | Some endian \<Rightarrow>
             if be_data_string_convert_flag d = 0
             then (case byte_extract endian (sint (be_bytes_to_grab d)) ptr (cur_data c) of
                     Inl _ \<Rightarrow> None
                   | Inr v \<Rightarrow> Some (v, sint (be_bytes_to_grab d)))
             else (case string_extract (sint (be_bytes_to_grab d)) (sint (be_base d)) ptr
                          (cur_data c) of
                     Inl _ \<Rightarrow> None
                   | Inr (n, v) \<Rightarrow> Some (v, int n)))"

definition byte_extract_eval ::
    "byte_extract_data \<Rightarrow> ips_packet \<Rightarrow> var_values \<Rightarrow> cursor
     \<Rightarrow> eval_status \<times> var_values \<times> cursor" where
  "byte_extract_eval d p vals c =
     (case byte_extract_read d p c of
        None \<Rightarrow> (NO_MATCH, vals, c)
      | Some (v, bytes_read) \<Rightarrow>
          (MATCH,
           snd (SetVarValueByIndex (byte_extract_scale d v) (word_of_int (be_var_number d)) vals),
           snd (add_pos (of_int (be_offset d + bytes_read)) c)))"

definition ByteExtractVerify :: "byte_extract_data \<Rightarrow> bool" where
  "ByteExtractVerify d =
     (if MAX_BYTES_TO_GRAB < be_bytes_to_grab d \<and> be_data_string_convert_flag d = 0 then False
      else if 10 < be_bytes_to_grab d \<and> be_data_string_convert_flag d = 1 then False
      else if be_align d \<noteq> 0 \<and> be_align d \<noteq> 2 \<and> be_align d \<noteq> 4 then False
      else if be_offset d < 0 \<and> be_relative_flag d = 0 then False
      else case be_name d of
             None \<Rightarrow> False
           | Some name \<Rightarrow>
               if name \<noteq> [] \<and> isdigit (hd name) then False
               else if be_base d \<noteq> 0 \<and> be_data_string_convert_flag d = 0 then False
               else if be_bytes_to_grab d < ucast (numBytesInBitmask (be_bitmask_val d)) then False
               else True)"

definition byte_extract_begin :: byte_extract_data where
  "byte_extract_begin =
     \<lparr>be_bytes_to_grab = 0, be_offset = 0, be_relative_flag = 0, be_data_string_convert_flag = 0,
      be_align = 0, be_endianness = 0, be_base = 0, be_multiplier = 1, be_bitmask_val = 0,
      be_var_number = 0, be_name = None\<rparr>"

definition byte_extract_end :: "byte_extract_data \<Rightarrow> bool \<times> byte_extract_data" where
  "byte_extract_end d =
     (let d = d\<lparr>be_endianness := default_endian (be_endianness d)\<rparr> in (ByteExtractVerify d, d))"

definition byte_extract_set :: "param_value \<Rightarrow> byte_extract_data \<Rightarrow> bool \<times> byte_extract_data" where
  "byte_extract_set v d =
     (if value_is v ''~count'' then (True, d\<lparr>be_bytes_to_grab := of_int (v_num v)\<rparr>)
      else if value_is v ''~offset'' then (True, d\<lparr>be_offset := to_int32 (v_num v)\<rparr>)
      else if value_is v ''~name'' then (True, d\<lparr>be_name := Some (c_str (v_str v))\<rparr>)
      else if value_is v ''relative'' then (True, d\<lparr>be_relative_flag := 1\<rparr>)
      else if value_is v ''align'' then (True, d\<lparr>be_align := of_int (v_num v)\<rparr>)
      else if value_is v ''multiplier'' then (True, d\<lparr>be_multiplier := of_int (v_num v)\<rparr>)
      else if value_is v ''big'' then
        (True, d\<lparr>be_endianness := set_byte_order (be_endianness d) ENDIAN_BIG\<rparr>)
      else if value_is v ''little'' then
        (True, d\<lparr>be_endianness := set_byte_order (be_endianness d) ENDIAN_LITTLE\<rparr>)
      else if value_is v ''dce'' then
        (True, d\<lparr>be_endianness := set_byte_order (be_endianness d) ENDIAN_FUNC\<rparr>)
      else if value_is v ''string'' then
        (True, d\<lparr>be_data_string_convert_flag := 1, be_base := 10\<rparr>)
      else if value_is v ''dec'' then (True, d\<lparr>be_base := 10\<rparr>)
      else if value_is v ''hex'' then (True, d\<lparr>be_base := 16\<rparr>)
      else if value_is v ''oct'' then (True, d\<lparr>be_base := 8\<rparr>)
      else if value_is v ''bitmask'' then (True, d\<lparr>be_bitmask_val := of_int (v_num v)\<rparr>)
      else (False, d))"

text \<open>The constructor registers the variable; \<open>None\<close> when all three are taken.\<close>

definition byte_extract_ctor ::
    "var_names \<Rightarrow> byte_extract_data \<Rightarrow> (byte_extract_data \<times> var_names) option" where
  "byte_extract_ctor names d =
     (case AddVarNameToList names (the (be_name d)) of
        (i, names') \<Rightarrow>
          if i = IPS_OPTIONS_NO_VAR then None else Some (d\<lparr>be_var_number := i\<rparr>, names'))"

section \<open>byte_math\<close>

datatype bm_oper = BM_PLUS | BM_MINUS | BM_MULTIPLY | BM_DIVIDE | BM_LEFT_SHIFT | BM_RIGHT_SHIFT

primrec bm_code :: "bm_oper \<Rightarrow> u32" where
  "bm_code BM_PLUS = 0"
| "bm_code BM_MINUS = 1"
| "bm_code BM_MULTIPLY = 2"
| "bm_code BM_DIVIDE = 3"
| "bm_code BM_LEFT_SHIFT = 4"
| "bm_code BM_RIGHT_SHIFT = 5"

record byte_math_data =
  bm_bytes_to_extract :: u32
  bm_rvalue :: u32
  bm_offset :: int
  bm_bitmask_val :: u32
  bm_result_name :: "bytes option"
  bm_oper :: bm_oper
  bm_relative_flag :: bool
  bm_string_convert_flag :: bool
  bm_base :: u8
  bm_endianess :: u8
  bm_result_var :: int
  bm_rvalue_var :: int
  bm_offset_var :: int

type_synonym byte_math_option = "ips_option \<times> byte_math_data"

definition byte_math_hash :: "byte_math_option \<Rightarrow> u32" where
  "byte_math_hash opt =
     (let d = snd opt;
          (a, b, c) = mix (bm_bytes_to_extract d, bm_rvalue d, bm_code (bm_oper d));
          (a, b, c) = mix
            (a + of_int (bm_offset d),
             b + (push_bit 24 (of_int (bm_rvalue_var d)) OR
                  push_bit 16 (of_int (bm_offset_var d)) OR
                  push_bit 8 (of_int (bm_result_var d)) OR
                  ucast (bm_endianess d)),
             c + ucast (bm_base d))
      in snd (snd (finalize
           (mix_str (a + bm_bitmask_val d, b + of_bool (bm_relative_flag d),
                     c + of_bool (bm_string_convert_flag d)) (opt_name (fst opt)) 0))))"

definition byte_math_eq :: "byte_math_option \<Rightarrow> byte_math_option \<Rightarrow> bool" where
  "byte_math_eq l r \<longleftrightarrow>
     ips_eq (fst l) (fst r) \<and>
     bm_bytes_to_extract (snd l) = bm_bytes_to_extract (snd r) \<and>
     bm_rvalue (snd l) = bm_rvalue (snd r) \<and>
     bm_oper (snd l) = bm_oper (snd r) \<and>
     bm_offset (snd l) = bm_offset (snd r) \<and>
     bm_relative_flag (snd l) = bm_relative_flag (snd r) \<and>
     bm_string_convert_flag (snd l) = bm_string_convert_flag (snd r) \<and>
     bm_endianess (snd l) = bm_endianess (snd r) \<and>
     bm_base (snd l) = bm_base (snd r) \<and>
     bm_bitmask_val (snd l) = bm_bitmask_val (snd r) \<and>
     bm_rvalue_var (snd l) = bm_rvalue_var (snd r) \<and>
     bm_offset_var (snd l) = bm_offset_var (snd r) \<and>
     bm_result_var (snd l) = bm_result_var (snd r)"

text \<open>
  The operation itself.  \<open>None\<close> marks the cases that C++ leaves undefined: a division by zero
  and a shift by 32 bits or more.
\<close>

definition byte_math_apply :: "bm_oper \<Rightarrow> u32 \<Rightarrow> u32 \<Rightarrow> u32 option" where
  "byte_math_apply oper v rvalue =
     (case oper of
        BM_PLUS \<Rightarrow> Some (v + rvalue)
      | BM_MINUS \<Rightarrow> Some (v - rvalue)
      | BM_MULTIPLY \<Rightarrow> Some (v * rvalue)
      | BM_DIVIDE \<Rightarrow> if rvalue = 0 then None else Some (v div rvalue)
      | BM_LEFT_SHIFT \<Rightarrow> if 32 \<le> rvalue then None else Some (push_bit (unat rvalue) v)
      | BM_RIGHT_SHIFT \<Rightarrow> if 32 \<le> rvalue then None else Some (drop_bit (unat rvalue) v))"

text \<open>The value after the mask and the bytes read.\<close>

definition byte_math_read ::
    "byte_math_data \<Rightarrow> ips_packet \<Rightarrow> var_values \<Rightarrow> cursor \<Rightarrow> (u32 \<times> u32) option" where
  "byte_math_read d p vals c =
     (let offset = var_or_int vals (bm_offset_var d) (bm_offset d);
          ptr = cursor_base (bm_relative_flag d) c + offset
      in if ptr < 0 \<or> int (length (cur_data c)) \<le> ptr then None
         else case resolve_endian p (bm_endianess d) ptr of
           None \<Rightarrow> None
         | Some endian \<Rightarrow>
             if \<not> bm_string_convert_flag d
             then (case byte_extract endian (sint (bm_bytes_to_extract d)) ptr (cur_data c) of
                     Inl _ \<Rightarrow> None
                   | Inr v \<Rightarrow> Some (apply_bitmask (bm_bitmask_val d) v, bm_bytes_to_extract d))
             else (case string_extract (sint (bm_bytes_to_extract d)) (uint (bm_base d)) ptr
                          (cur_data c) of
                     Inl _ \<Rightarrow> None
                   | Inr (n, v) \<Rightarrow> Some (apply_bitmask (bm_bitmask_val d) v, of_nat n)))"

text \<open>\<open>None\<close> is undefined behaviour of the evaluation.\<close>

definition byte_math_eval ::
    "byte_math_data \<Rightarrow> ips_packet \<Rightarrow> var_values \<Rightarrow> cursor
     \<Rightarrow> (eval_status \<times> var_values \<times> cursor) option" where
  "byte_math_eval d p vals c =
     (let rvalue = var_or vals (bm_rvalue_var d) (bm_rvalue d);
          from_var = (0 \<le> bm_rvalue_var d \<and> bm_rvalue_var d < NUM_IPS_OPTIONS_VARS)
      in if from_var \<and> rvalue = 0 \<and> bm_oper d = BM_DIVIDE then Some (NO_MATCH, vals, c)
         else case byte_math_read d p vals c of
                None \<Rightarrow> Some (NO_MATCH, vals, c)
              | Some (v, bytes_read) \<Rightarrow>
                  (case byte_math_apply (bm_oper d) v rvalue of
                     None \<Rightarrow> None
                   | Some w \<Rightarrow>
                       Some (MATCH,
                             snd (SetVarValueByIndex w (word_of_int (bm_result_var d)) vals),
                             snd (add_pos bytes_read c))))"

text \<open>The two enumeration parameters, with \<open>None\<close> where the assertion fails.\<close>

definition parse_base :: "u8 \<Rightarrow> byte_math_data \<Rightarrow> byte_math_data option" where
  "parse_base v d =
     (if v = 0 then Some (d\<lparr>bm_base := 16\<rparr>) else if v = 1 then Some (d\<lparr>bm_base := 10\<rparr>)
      else if v = 2 then Some (d\<lparr>bm_base := 8\<rparr>) else None)"

definition parse_endian :: "u8 \<Rightarrow> byte_math_data \<Rightarrow> byte_math_data option" where
  "parse_endian v d =
     (if v = 0 then Some (d\<lparr>bm_endianess := set_byte_order (bm_endianess d) ENDIAN_BIG\<rparr>)
      else if v = 1 then Some (d\<lparr>bm_endianess := set_byte_order (bm_endianess d) ENDIAN_LITTLE\<rparr>)
      else None)"

definition oper_of_code :: "int \<Rightarrow> bm_oper option" where
  "oper_of_code n =
     (if n = 0 then Some BM_PLUS else if n = 1 then Some BM_MINUS
      else if n = 2 then Some BM_MULTIPLY else if n = 3 then Some BM_DIVIDE
      else if n = 4 then Some BM_LEFT_SHIFT else if n = 5 then Some BM_RIGHT_SHIFT else None)"

record byte_math_module =
  bm_data :: byte_math_data
  bm_rvalue_name :: bytes
  bm_off_name :: bytes

definition byte_math_begin :: byte_math_module where
  "byte_math_begin =
     \<lparr>bm_data =
        \<lparr>bm_bytes_to_extract = 0, bm_rvalue = 0, bm_offset = 0, bm_bitmask_val = 0,
         bm_result_name = None, bm_oper = BM_PLUS, bm_relative_flag = False,
         bm_string_convert_flag = False, bm_base = 0, bm_endianess = 0, bm_result_var = 0,
         bm_rvalue_var = 0, bm_offset_var = 0\<rparr>,
      bm_rvalue_name = [], bm_off_name = []\<rparr>"

text \<open>
  A set that would violate an assertion or leave the enumeration gives \<open>None\<close>; the parameter
  table admits only the enumerated values.
\<close>

definition byte_math_set ::
    "param_value \<Rightarrow> byte_math_module \<Rightarrow> (bool \<times> byte_math_module) option" where
  "byte_math_set v m =
     (let d = bm_data m;
          put = (\<lambda>d. Some (True, m\<lparr>bm_data := d\<rparr>));
          put_opt = (\<lambda>d. case d of None \<Rightarrow> None | Some d \<Rightarrow> Some (True, m\<lparr>bm_data := d\<rparr>))
      in if value_is v ''bytes'' then put (d\<lparr>bm_bytes_to_extract := of_int (v_num v)\<rparr>)
         else if value_is v ''oper'' then
           put_opt (map_option (\<lambda>x. d\<lparr>bm_oper := x\<rparr>) (oper_of_code (v_num v)))
         else if value_is v ''rvalue'' then
           (case value_strtol v of
              Some n \<Rightarrow> if n = 0 then Some (False, m) else put (d\<lparr>bm_rvalue := of_int n\<rparr>)
            | None \<Rightarrow> Some (True, m\<lparr>bm_rvalue_name := c_str (v_str v)\<rparr>))
         else if value_is v ''offset'' then
           (case value_strtol v of
              Some n \<Rightarrow> put (d\<lparr>bm_offset := to_int32 n\<rparr>)
            | None \<Rightarrow> Some (True, m\<lparr>bm_off_name := c_str (v_str v)\<rparr>))
         else if value_is v ''relative'' then put (d\<lparr>bm_relative_flag := True\<rparr>)
         else if value_is v ''dce'' then
           put (d\<lparr>bm_endianess := set_byte_order (bm_endianess d) ENDIAN_FUNC\<rparr>)
         else if value_is v ''string'' then
           put_opt (parse_base (of_int (v_num v)) (d\<lparr>bm_string_convert_flag := True\<rparr>))
         else if value_is v ''endian'' then put_opt (parse_endian (of_int (v_num v)) d)
         else if value_is v ''bitmask'' then put (d\<lparr>bm_bitmask_val := of_int (v_num v)\<rparr>)
         else if value_is v ''result'' then
           put (d\<lparr>bm_result_name := Some (c_str (v_str v))\<rparr>)
         else Some (False, m))"

definition ByteMathVerify :: "byte_math_data \<Rightarrow> bool" where
  "ByteMathVerify d =
     (case bm_result_name d of
        None \<Rightarrow> False
      | Some name \<Rightarrow>
          if name \<noteq> [] \<and> isdigit (hd name) then False
          else if (bm_oper d = BM_LEFT_SHIFT \<or> bm_oper d = BM_RIGHT_SHIFT) \<and> 32 < bm_rvalue d
          then False
          else if (bm_oper d = BM_LEFT_SHIFT \<or> bm_oper d = BM_RIGHT_SHIFT) \<and>
                  4 < bm_bytes_to_extract d
          then False
          else if MAX_BYTES_TO_GRAB < bm_bytes_to_extract d \<and> \<not> bm_string_convert_flag d then False
          else if bm_bytes_to_extract d < ucast (numBytesInBitmask (bm_bitmask_val d)) then False
          else True)"

definition byte_math_end :: "var_names \<Rightarrow> byte_math_module \<Rightarrow> bool \<times> byte_math_module" where
  "byte_math_end names m =
     (let d = bm_data m
      in case lookup_var names (bm_rvalue_name m) of
           None \<Rightarrow> (False, m\<lparr>bm_data := d\<lparr>bm_rvalue_var := IPS_OPTIONS_NO_VAR\<rparr>\<rparr>)
         | Some rv \<Rightarrow>
             (case lookup_var names (bm_off_name m) of
                None \<Rightarrow>
                  (False, m\<lparr>bm_data := d\<lparr>bm_rvalue_var := rv, bm_offset_var := IPS_OPTIONS_NO_VAR\<rparr>\<rparr>)
              | Some ov \<Rightarrow>
                  let d = d\<lparr>bm_rvalue_var := rv, bm_offset_var := ov,
                            bm_endianess := default_endian (bm_endianess d)\<rparr>
                  in (ByteMathVerify d, m\<lparr>bm_data := d\<rparr>)))"

definition byte_math_ctor ::
    "var_names \<Rightarrow> byte_math_data \<Rightarrow> (byte_math_data \<times> var_names) option" where
  "byte_math_ctor names d =
     (case AddVarNameToList names (the (bm_result_name d)) of
        (i, names') \<Rightarrow>
          if i = IPS_OPTIONS_NO_VAR then None else Some (d\<lparr>bm_result_var := i\<rparr>, names'))"

section \<open>isdataat\<close>

definition ISDATAAT_RELATIVE_FLAG :: u8 where "ISDATAAT_RELATIVE_FLAG = 0x01"
definition ISDATAAT_NOT_FLAG :: u8 where "ISDATAAT_NOT_FLAG = 0x02"

record isdataat_data =
  ia_offset :: u32
  ia_flags :: u8
  ia_offset_var :: int

type_synonym isdataat_option = "ips_option \<times> isdataat_data"

definition isdataat_hash :: "isdataat_option \<Rightarrow> u32" where
  "isdataat_hash opt =
     (let d = snd opt;
          (a, b, c) = mix (ia_offset d, ucast (ia_flags d), of_int (ia_offset_var d))
      in snd (snd (finalize (mix_str (a, b, c) (opt_name (fst opt)) 0))))"

definition isdataat_eq :: "isdataat_option \<Rightarrow> isdataat_option \<Rightarrow> bool" where
  "isdataat_eq l r \<longleftrightarrow>
     c_str (opt_name (fst l)) = c_str (opt_name (fst r)) \<and>
     ia_offset (snd l) = ia_offset (snd r) \<and>
     ia_flags (snd l) = ia_flags (snd r) \<and>
     ia_offset_var (snd l) = ia_offset_var (snd r)"

definition isdataat_eval :: "isdataat_data \<Rightarrow> var_values \<Rightarrow> cursor \<Rightarrow> eval_status" where
  "isdataat_eval d vals c =
     (let offset = var_or_int vals (ia_offset_var d) (sint (ia_offset d));
          start_ptr = cursor_base (ia_flags d AND ISDATAAT_RELATIVE_FLAG \<noteq> 0) c + offset;
          rval = (if inBounds (cur_data c) start_ptr then MATCH else NO_MATCH)
      in if ia_flags d AND ISDATAAT_NOT_FLAG \<noteq> 0
         then (if rval = MATCH then NO_MATCH else MATCH) else rval)"

text \<open>
  \<open>isdataat_parse\<close> on the first comma-separated token of its argument (\<open>toks[0]\<close>, split by
  \<open>mSplit\<close>).  The flag tells whether a parse error was reported.
\<close>

definition isdataat_parse ::
    "var_names \<Rightarrow> bytes \<Rightarrow> isdataat_data \<Rightarrow> isdataat_data \<times> bool" where
  "isdataat_parse names tok d =
     (let neg = (tok \<noteq> [] \<and> hd tok = 33);
          d = (if neg then d\<lparr>ia_flags := ia_flags d OR ISDATAAT_NOT_FLAG\<rparr> else d);
          offset = (if neg then dropWhile isspace (tl tok) else tok)
      in if offset \<noteq> [] \<and> (isdigit (hd offset) \<or> hd offset = 45) then
           (case strtol 10 offset of
              None \<Rightarrow> (d, True)
            | Some (n, k) \<Rightarrow>
                let d = d\<lparr>ia_offset := of_int n, ia_offset_var := - 1\<rparr>
                in if k = 0 then (d, True)
                   else if 65535 < ia_offset d then (d, True)
                   else (d\<lparr>ia_offset_var := IPS_OPTIONS_NO_VAR\<rparr>, False))
         else
           let i = GetVarByName names (Some offset);
               d = d\<lparr>ia_offset_var := i\<rparr>
           in (d, i = IPS_OPTIONS_NO_VAR))"

definition isdataat_begin :: isdataat_data where
  "isdataat_begin = \<lparr>ia_offset = 0, ia_flags = 0, ia_offset_var = 0\<rparr>"

text \<open>\<open>set\<close> returns its success, the data, and whether the parser reported an error.\<close>

definition isdataat_set ::
    "(bytes \<Rightarrow> bytes) \<Rightarrow> var_names \<Rightarrow> param_value \<Rightarrow> isdataat_data \<Rightarrow> bool \<times> isdataat_data \<times> bool" where
  "isdataat_set first_tok names v d =
     (if value_is v ''~length'' then (True, isdataat_parse names (first_tok (c_str (v_str v))) d)
      else if value_is v ''relative'' then
        (True, d\<lparr>ia_flags := ia_flags d OR ISDATAAT_RELATIVE_FLAG\<rparr>, False)
      else (False, d, False))"

section \<open>Hash and equality agree\<close>

text \<open>\<open>byte_extract\<close> does not compare the variable's name, which its index stands for.\<close>

definition be_key :: "byte_extract_data \<Rightarrow> byte_extract_data" where
  "be_key d = d\<lparr>be_name := None\<rparr>"

lemma byte_extract_eq_iff:
  "byte_extract_eq l r \<longleftrightarrow> map_prod ips_key be_key l = map_prod ips_key be_key r"
  by (cases l; cases r; cases "snd l"; cases "snd r")
    (auto simp: byte_extract_eq_def ips_eq_key be_key_def)

lemma byte_extract_hash_key:
  assumes "map_prod ips_key be_key l = map_prod ips_key be_key r"
  shows "byte_extract_hash l = byte_extract_hash r"
proof -
  have "ips_eq (fst l) (fst r)" and k: "be_key (snd l) = be_key (snd r)"
    using assms by (cases l; cases r; simp add: ips_eq_key)+
  moreover have "be_bytes_to_grab (snd l) = be_bytes_to_grab (snd r)"
    "be_offset (snd l) = be_offset (snd r)" "be_relative_flag (snd l) = be_relative_flag (snd r)"
    "be_data_string_convert_flag (snd l) = be_data_string_convert_flag (snd r)"
    "be_align (snd l) = be_align (snd r)" "be_endianness (snd l) = be_endianness (snd r)"
    "be_base (snd l) = be_base (snd r)" "be_multiplier (snd l) = be_multiplier (snd r)"
    "be_bitmask_val (snd l) = be_bitmask_val (snd r)" "be_var_number (snd l) = be_var_number (snd r)"
    using k by (cases "snd l"; cases "snd r"; simp add: be_key_def)+
  ultimately show ?thesis using ips_eq_name [of "fst l" "fst r"]
    by (simp add: byte_extract_hash_def Let_def)
qed

interpretation byte_extract: hashed_option byte_extract_eq byte_extract_hash
  by (rule hashed_optionI [OF byte_extract_eq_iff byte_extract_hash_key])

definition bm_key :: "byte_math_data \<Rightarrow> byte_math_data" where
  "bm_key d = d\<lparr>bm_result_name := None\<rparr>"

lemma byte_math_eq_iff:
  "byte_math_eq l r \<longleftrightarrow> map_prod ips_key bm_key l = map_prod ips_key bm_key r"
  by (cases l; cases r; cases "snd l"; cases "snd r")
    (auto simp: byte_math_eq_def ips_eq_key bm_key_def)

lemma byte_math_hash_key:
  assumes "map_prod ips_key bm_key l = map_prod ips_key bm_key r"
  shows "byte_math_hash l = byte_math_hash r"
proof -
  have "ips_eq (fst l) (fst r)" and k: "bm_key (snd l) = bm_key (snd r)"
    using assms by (cases l; cases r; simp add: ips_eq_key)+
  moreover have "bm_bytes_to_extract (snd l) = bm_bytes_to_extract (snd r)"
    "bm_rvalue (snd l) = bm_rvalue (snd r)" "bm_offset (snd l) = bm_offset (snd r)"
    "bm_bitmask_val (snd l) = bm_bitmask_val (snd r)" "bm_oper (snd l) = bm_oper (snd r)"
    "bm_relative_flag (snd l) = bm_relative_flag (snd r)"
    "bm_string_convert_flag (snd l) = bm_string_convert_flag (snd r)"
    "bm_base (snd l) = bm_base (snd r)" "bm_endianess (snd l) = bm_endianess (snd r)"
    "bm_result_var (snd l) = bm_result_var (snd r)" "bm_rvalue_var (snd l) = bm_rvalue_var (snd r)"
    "bm_offset_var (snd l) = bm_offset_var (snd r)"
    using k by (cases "snd l"; cases "snd r"; simp add: bm_key_def)+
  ultimately show ?thesis using ips_eq_name [of "fst l" "fst r"]
    by (simp add: byte_math_hash_def Let_def)
qed

interpretation byte_math: hashed_option byte_math_eq byte_math_hash
  by (rule hashed_optionI [OF byte_math_eq_iff byte_math_hash_key])

lemma isdataat_eq_iff:
  "isdataat_eq l r \<longleftrightarrow> map_prod (c_str \<circ> opt_name) id l = map_prod (c_str \<circ> opt_name) id r"
  by (cases l; cases r) (auto simp: isdataat_eq_def intro: isdataat_data.equality)

lemma isdataat_hash_key:
  assumes "map_prod (c_str \<circ> opt_name) id l = map_prod (c_str \<circ> opt_name) id r"
  shows "isdataat_hash l = isdataat_hash r"
proof -
  have n: "c_str (opt_name (fst l)) = c_str (opt_name (fst r))" and "snd l = snd r"
    using assms by (cases l; cases r; simp)+
  then show ?thesis using mix_str_c_str [OF n] by (simp add: isdataat_hash_def)
qed

interpretation isdataat: hashed_option isdataat_eq isdataat_hash
  by (rule hashed_optionI [OF isdataat_eq_iff isdataat_hash_key])

text \<open>
  For each of the byte options, looking an option up by its hash first and then comparing
  finds the same entry as comparing with every entry of the row: no equal option hides behind a
  different hash.
\<close>

lemma option_rows_complete:
  "byte_test.bucket_find a as = find (\<lambda>y. byte_test_eq y a) as \<and>
   byte_jump.bucket_find e es = find (\<lambda>y. byte_jump_eq y e) es \<and>
   byte_extract.bucket_find b bs = find (\<lambda>y. byte_extract_eq y b) bs \<and>
   byte_math.bucket_find c cs = find (\<lambda>y. byte_math_eq y c) cs \<and>
   isdataat.bucket_find d ds = find (\<lambda>y. isdataat_eq y d) ds"
  by (simp add: byte_test.bucket_find_complete byte_jump.bucket_find_complete
      byte_extract.bucket_find_complete
      byte_math.bucket_find_complete isdataat.bucket_find_complete)

section \<open>What the options store\<close>

lemma SetVar_update:
  assumes "0 \<le> i" and "i < 3"
  shows "snd (SetVarValueByIndex v (word_of_int i) vals) = vals[nat i := v]"
  using var_slot [OF assms] assms by (simp add: SetVarValueByIndex_def NUM_IPS_OPTIONS_VARS_def)


definition be_example :: byte_extract_data where
  "be_example = byte_extract_begin
     \<lparr>be_bytes_to_grab := 2, be_offset := 1, be_endianness := ENDIAN_BIG, be_multiplier := 3,
      be_align := 4, be_var_number := 1, be_name := Some [120]\<rparr>"

lemma be_example_eval:
  "byte_extract_eval be_example bj_packet_example [7, 8, 9] bj_cursor_example =
     (MATCH, [7, 2304, 9], bj_cursor_example\<lparr>cur_pos := 4\<rparr>)"
  by code_simp


lemma word_add_sub_assoc: "v + 4 - r = v + (4 - r)" for v r :: u32
  by simp

text \<open>
  With \<open>align 4\<close> the stored value is the masked value times the multiplier rounded up to the
  next multiple of four, as long as that does not exceed 32 bits.
\<close>

lemma byte_extract_align4:
  assumes "be_align d = 4"
    and "unat (apply_bitmask (be_bitmask_val d) v) * unat (be_multiplier d) < 2 ^ 32 - 4"
  shows "unat (byte_extract_scale d v) =
           round_up4 (unat (apply_bitmask (be_bitmask_val d) v) * unat (be_multiplier d))"
proof -
  let ?m = "apply_bitmask (be_bitmask_val d) v * be_multiplier d"
  have m: "unat ?m = unat (apply_bitmask (be_bitmask_val d) v) * unat (be_multiplier d)"
    using assms(2) by (simp add: unat_mult_nowrap)
  have "byte_extract_scale d v = (if ?m mod 4 \<noteq> 0 then ?m + (4 - ?m mod 4) else ?m)"
    using assms(1) by (simp add: byte_extract_scale_def Let_def word_add_sub_assoc)
  then show ?thesis using unat_align4 [of ?m] m assms(2) by simp
qed

section \<open>When byte_math is defined\<close>


definition bm_example_values :: "param_value list" where
  "bm_example_values =
     [\<lparr>v_name = ''bytes'', v_num = 1, v_str = []\<rparr>,
      \<lparr>v_name = ''oper'', v_num = 3, v_str = []\<rparr>,
      \<lparr>v_name = ''offset'', v_num = 0, v_str = [48]\<rparr>,
      \<lparr>v_name = ''result'', v_num = 0, v_str = [120]\<rparr>]"

fun byte_math_sets :: "param_value list \<Rightarrow> byte_math_module \<Rightarrow> byte_math_module option" where
  "byte_math_sets [] m = Some m"
| "byte_math_sets (v # vs) m =
     (case byte_math_set v m of
        Some (True, m') \<Rightarrow> byte_math_sets vs m'
      | _ \<Rightarrow> None)"

text \<open>The data of \<open>byte_math: bytes 1, oper /, offset 0, result x\<close>, with no \<open>rvalue\<close>.\<close>

definition bm_example :: byte_math_data where
  "bm_example = (bm_data byte_math_begin)
     \<lparr>bm_bytes_to_extract := 1, bm_oper := BM_DIVIDE, bm_result_name := Some [120],
      bm_endianess := ENDIAN_BIG, bm_rvalue_var := - 1, bm_offset_var := - 1, bm_result_var := 0\<rparr>"

definition bm_example_module :: byte_math_module where
  "bm_example_module = byte_math_begin
     \<lparr>bm_data := bm_example\<lparr>bm_endianess := 0, bm_rvalue_var := 0, bm_offset_var := 0\<rparr>\<rparr>"

lemma bm_example_sets: "byte_math_sets bm_example_values byte_math_begin = Some bm_example_module"
  by code_simp

lemma bm_example_end:
  "byte_math_end [] bm_example_module = (True, bm_example_module\<lparr>bm_data := bm_example\<rparr>)"
  by code_simp

lemma bm_example_fields:
  "bm_rvalue_var bm_example = - 1" "bm_rvalue bm_example = 0" "bm_result_var bm_example = 0"
  "bm_oper bm_example = BM_DIVIDE"
  by (simp_all add: bm_example_def byte_math_begin_def)


text \<open>
  C36: the module accepts a division without an \<open>rvalue\<close>; its constant operand is then zero and
  its evaluation divides by zero on every buffer that has a byte, although the check on \<open>rvalue\<close>
  was meant to exclude a zero divisor.
\<close>

theorem byte_math_zero_divisor:
  "byte_math_sets bm_example_values byte_math_begin = Some bm_example_module \<and>
   byte_math_end [] bm_example_module = (True, bm_example_module\<lparr>bm_data := bm_example\<rparr>) \<and>
   byte_math_ctor [] bm_example = Some (bm_example, [[120]]) \<and>
   byte_math_eval bm_example p vals
     (\<lparr>cur_name = nm, cur_data = x # xs, cur_sz = sz, cur_pos = ps, cur_delta = dl\<rparr>) = None"
proof -
  have "byte_math_read bm_example p vals
      \<lparr>cur_name = nm, cur_data = x # xs, cur_sz = sz, cur_pos = ps, cur_delta = dl\<rparr> \<noteq> None"
    by (simp add: byte_math_read_def bm_example_def byte_math_begin_def var_or_int_def
        cursor_base_def resolve_endian_def byte_extract_def inBounds_def extract_constants Let_def)
  moreover have "byte_math_ctor [] bm_example = Some (bm_example, [[120]])"
    by (simp add: byte_math_ctor_def AddVarNameToList_def bm_example_def byte_math_begin_def
        extract_constants)
  ultimately show ?thesis
    using bm_example_sets bm_example_end
    by (auto simp: byte_math_eval_def bm_example_fields var_or_def byte_math_apply_def Let_def
        extract_constants)
qed

section \<open>isdataat\<close>


definition ia_example :: isdataat_data where
  "ia_example = \<lparr>ia_offset = 7, ia_flags = 3, ia_offset_var = - 1\<rparr>"


end
