(* ===== verification/Boyer_Moore.thy ===== *)
theory Boyer_Moore
  imports Snort_Prelude
begin

text \<open>
  The pattern search of \<^verbatim>\<open>utils/boyer_moore.cc\<close>: the construction of the skip and shift
  tables and the search loops that use them.  A locale states what the search needs of the two
  tables and proves the search correct from it; the tables built by \<open>make_skip\<close> and
  \<open>make_shift\<close> are its interpretation.

  A pointer \<open>p\<close> into the pattern that may run one before its start is represented by the
  natural number \<open>p + 1\<close>, so \<open>p >= ptrn\<close> reads as \<open>0 < p + 1\<close>.
\<close>

section \<open>Table construction\<close>

fun make_skip_loop :: "bytes \<Rightarrow> (u8 \<Rightarrow> nat) \<Rightarrow> u8 \<Rightarrow> nat" where
  "make_skip_loop [] skip = skip"
| "make_skip_loop (c # ptrn) skip = make_skip_loop ptrn (skip(c := length (c # ptrn)))"

definition make_skip :: "bytes \<Rightarrow> u8 \<Rightarrow> nat" where
  "make_skip ptrn = make_skip_loop ptrn (\<lambda>_. length ptrn + 1)"

text \<open>\<open>while (p1 >= ptrn && *p1-- != c);\<close>\<close>

fun scan_char :: "bytes \<Rightarrow> u8 \<Rightarrow> nat \<Rightarrow> nat" where
  "scan_char ptrn c 0 = 0"
| "scan_char ptrn c (Suc p1) = (if ptrn ! p1 \<noteq> c then scan_char ptrn c p1 else p1)"

text \<open>\<open>while (p3 >= ptrn && *p3-- == *p2-- && p2 >= pptr);\<close>\<close>

fun compare_back :: "bytes \<Rightarrow> nat \<Rightarrow> nat \<Rightarrow> nat \<Rightarrow> nat \<times> nat" where
  "compare_back ptrn pptr 0 p2 = (0, p2)"
| "compare_back ptrn pptr (Suc p3) p2 =
     (if ptrn ! p3 = ptrn ! (p2 - 1) \<and> pptr < p2 - 1
      then compare_back ptrn pptr p3 (p2 - 1) else (p3, p2 - 1))"

lemma scan_char_le: "scan_char ptrn c p1 \<le> p1"
  by (induction p1) auto

lemma scan_char_less: "0 < scan_char ptrn c p1 \<Longrightarrow> scan_char ptrn c p1 < p1"
  using scan_char_le [of ptrn c "p1 - 1"] by (cases p1) (auto split: if_splits)

lemma compare_back_le: "fst (compare_back ptrn pptr p3 p2) \<le> p3"
  by (induction ptrn pptr p3 p2 rule: compare_back.induct) auto

text \<open>The \<open>do\<close> loop of \<open>make_shift\<close>: the pointers \<open>p3\<close> and \<open>p2\<close> when it stops.\<close>

function shift_search :: "bytes \<Rightarrow> u8 \<Rightarrow> nat \<Rightarrow> nat \<Rightarrow> nat \<times> nat" where
  "shift_search ptrn c pptr p1 =
     (let p1' = scan_char ptrn c p1;
          (p3, p2) = compare_back ptrn pptr p1' (length ptrn - 1)
      in if 0 < p3 \<and> pptr < p2 then shift_search ptrn c pptr p1' else (p3, p2))"
  by pat_completeness auto
termination
proof (relation "measure (\<lambda>(ptrn, c, pptr, p1). p1)", simp)
  fix ptrn :: bytes and c :: u8 and pptr p1 p1' p3 p2 :: nat and x
  assume p1': "p1' = scan_char ptrn c p1"
    and x: "x = compare_back ptrn pptr p1' (length ptrn - 1)" "(p3, p2) = x"
    and "0 < p3 \<and> pptr < p2"
  then have "0 < p1'" using compare_back_le [of ptrn pptr p1' "length ptrn - 1"]
    by (metis fst_conv le_zero_eq not_gr_zero)
  then have "p1' < p1" using p1' scan_char_less by simp
  then show "((ptrn, c, pptr, p1'), ptrn, c, pptr, p1)
      \<in> measure (\<lambda>(ptrn, c, pptr, p1). p1)" by simp
qed

declare shift_search.simps [simp del]

text \<open>The outer loop, from the last entry of the table to the first.\<close>

fun make_shift_loop :: "bytes \<Rightarrow> nat \<Rightarrow> nat list \<Rightarrow> nat list" where
  "make_shift_loop ptrn 0 shift = shift"
| "make_shift_loop ptrn (Suc sptr) shift =
     (let (p3, p2) = shift_search ptrn (last ptrn) (sptr + 1) (length ptrn - 1)
      in make_shift_loop ptrn sptr ((length ptrn - sptr + (p2 - p3)) # shift))"

definition make_shift :: "bytes \<Rightarrow> nat list" where
  "make_shift ptrn = make_shift_loop ptrn (length ptrn - 1) [1]"

section \<open>The search\<close>

text \<open>
  The inner loop compares backwards from the end of the alignment.  \<open>Inl\<close> is the position of
  a complete match, \<open>Inr\<close> the position in the buffer and in the pattern of the mismatch.  The
  case-insensitive search applies \<open>toupper\<close> to the bytes of the buffer, the other one nothing.
\<close>

fun bm_compare :: "(u8 \<Rightarrow> u8) \<Rightarrow> bytes \<Rightarrow> bytes \<Rightarrow> nat \<Rightarrow> nat \<Rightarrow> nat + nat \<times> nat" where
  "bm_compare up buf ptrn b_idx 0 = Inr (b_idx, 0)"
| "bm_compare up buf ptrn b_idx (Suc p_idx) =
     (if up (buf ! (b_idx - 1)) = ptrn ! p_idx
      then (if p_idx = 0 then Inl (b_idx - 1) else bm_compare up buf ptrn (b_idx - 1) p_idx)
      else Inr (b_idx - 1, p_idx))"

partial_function (option) bm_loop ::
    "(u8 \<Rightarrow> u8) \<Rightarrow> bytes \<Rightarrow> nat \<Rightarrow> bytes \<Rightarrow> (u8 \<Rightarrow> nat) \<Rightarrow> nat list \<Rightarrow> nat \<Rightarrow> int option" where
  "bm_loop up buf blen ptrn skip shift b_idx =
     (if b_idx \<le> blen then
        (case bm_compare up buf ptrn b_idx (length ptrn) of
           Inl found \<Rightarrow> Some (int found)
         | Inr (b, p_idx) \<Rightarrow>
             bm_loop up buf blen ptrn skip shift
               (b + max (skip (up (buf ! b))) (shift ! p_idx)))
      else Some (- 1))"

text \<open>\<open>toupper\<close> in the C locale.\<close>

definition toupper :: "u8 \<Rightarrow> u8" where
  "toupper c = (if 97 \<le> c \<and> c \<le> 122 then c - 32 else c)"

definition mSearch :: "bytes \<Rightarrow> nat \<Rightarrow> bytes \<Rightarrow> (u8 \<Rightarrow> nat) \<Rightarrow> nat list \<Rightarrow> int option" where
  "mSearch buf blen ptrn skip shift =
     (if length ptrn = 0 then Some (- 1)
      else bm_loop (\<lambda>c. c) buf blen ptrn skip shift (length ptrn))"

definition mSearchCI :: "bytes \<Rightarrow> nat \<Rightarrow> bytes \<Rightarrow> (u8 \<Rightarrow> nat) \<Rightarrow> nat list \<Rightarrow> int option" where
  "mSearchCI buf blen ptrn skip shift =
     (if length ptrn = 0 then Some (- 1)
      else bm_loop toupper buf blen ptrn skip shift (length ptrn))"

section \<open>Specification\<close>

definition occurs_at :: "'a list \<Rightarrow> 'a list \<Rightarrow> nat \<Rightarrow> bool" where
  "occurs_at ptrn text i \<longleftrightarrow>
     i + length ptrn \<le> length text \<and> take (length ptrn) (drop i text) = ptrn"

text \<open>The result a search owes: the first occurrence, or \<open>- 1\<close> when there is none.\<close>

definition first_occurrence :: "'a list \<Rightarrow> 'a list \<Rightarrow> int \<Rightarrow> bool" where
  "first_occurrence ptrn text r \<longleftrightarrow>
     (if r = - 1 then \<forall>i \<le> length text. \<not> occurs_at ptrn text i
      else 0 \<le> r \<and> occurs_at ptrn text (nat r) \<and> (\<forall>i < nat r. \<not> occurs_at ptrn text i))"

lemma occurs_at_nth:
  "occurs_at ptrn text i \<longleftrightarrow>
     i + length ptrn \<le> length text \<and> (\<forall>k < length ptrn. text ! (i + k) = ptrn ! k)"
  by (auto simp: occurs_at_def list_eq_iff_nth_eq)

lemma bm_compare_Inl:
  "bm_compare up buf ptrn (a + n) n = Inl r \<Longrightarrow>
     r = a \<and> (\<forall>i < n. up (buf ! (a + i)) = ptrn ! i)"
  by (induction n) (auto split: if_splits simp: less_Suc_eq)

lemma bm_compare_Inr:
  "bm_compare up buf ptrn (a + n) n = Inr bk \<Longrightarrow> 0 < n \<Longrightarrow>
     \<exists>k < n. bk = (a + k, k) \<and> up (buf ! (a + k)) \<noteq> ptrn ! k \<and>
       (\<forall>i. k < i \<longrightarrow> i < n \<longrightarrow> up (buf ! (a + i)) = ptrn ! i)"
proof (induction n)
  case (Suc n)
  show ?case
  proof (cases "up (buf ! (a + n)) = ptrn ! n")
    case True
    then have "0 < n" and "bm_compare up buf ptrn (a + n) n = Inr bk"
      using Suc.prems by (auto split: if_splits)
    then obtain k where "k < n" "bk = (a + k, k)" "up (buf ! (a + k)) \<noteq> ptrn ! k"
      "\<forall>i. k < i \<longrightarrow> i < n \<longrightarrow> up (buf ! (a + i)) = ptrn ! i"
      using Suc.IH by blast
    then show ?thesis using True by (intro exI [of _ k]) (auto simp: less_Suc_eq)
  next
    case False
    then show ?thesis using Suc.prems by (intro exI [of _ n]) auto
  qed
qed simp

locale bm_tables =
  fixes mk_skip :: "bytes \<Rightarrow> u8 \<Rightarrow> nat"
    and mk_shift :: "bytes \<Rightarrow> nat list"
  assumes skip_bound: "mk_skip p c \<le> length p + 1"
    and skip_last: "j < length p \<Longrightarrow> p ! j = c \<Longrightarrow> mk_skip p c \<le> length p - j"
    and skip_progress: "p \<noteq> [] \<Longrightarrow> c \<noteq> last p \<Longrightarrow> 2 \<le> mk_skip p c"
    and shift_safe: "k < length p \<Longrightarrow> 0 < d \<Longrightarrow>
      (\<And>i. k < i \<Longrightarrow> i < length p \<Longrightarrow> d \<le> i \<Longrightarrow> p ! (i - d) = p ! i) \<Longrightarrow>
      k + mk_shift p ! k \<le> length p + d"
    and shift_progress: "k + 1 < length p \<Longrightarrow> length p < k + mk_shift p ! k"
begin

text \<open>The stride after a mismatch moves on and skips no occurrence.\<close>

lemma stride_progress:
  assumes "k < length p" and "c \<noteq> p ! k"
  shows "length p < k + max (mk_skip p c) (mk_shift p ! k)"
proof (cases "k + 1 < length p")
  case True
  then show ?thesis using shift_progress [of k p] by simp
next
  case False
  then have "k = length p - 1" using assms by simp
  moreover from this have "last p = p ! k" using assms(1) by (cases "p = []") (auto simp: last_conv_nth)
  moreover have "p \<noteq> []" using assms(1) by auto
  ultimately have "2 \<le> mk_skip p c" using assms skip_progress by metis
  then show ?thesis using \<open>k = length p - 1\<close> \<open>p \<noteq> []\<close> by (cases p) auto
qed

lemma stride_safe:
  assumes k: "k < length p" and suffix: "\<And>i. k < i \<Longrightarrow> i < length p \<Longrightarrow> text ! (a + i) = p ! i"
    and a': "a < a'" and occ: "occurs_at p text a'"
  shows "k + max (mk_skip p (text ! (a + k))) (mk_shift p ! k) \<le> length p + (a' - a)"
proof -
  let ?d = "a' - a"
  have at: "text ! (a' + i) = p ! i" if "i < length p" for i
    using occ that by (simp add: occurs_at_nth)
  have "k + mk_skip p (text ! (a + k)) \<le> length p + ?d"
  proof (cases "?d \<le> k")
    case True
    have "a' + (k - ?d) = a + k" using True a' by simp
    moreover have "k - ?d < length p" using k by simp
    ultimately have "p ! (k - ?d) = text ! (a + k)" using at by metis
    then have "mk_skip p (text ! (a + k)) \<le> length p - (k - ?d)"
      using skip_last [of "k - ?d" p] k by simp
    then show ?thesis using True k by linarith
  next
    case False
    then show ?thesis using skip_bound [of p "text ! (a + k)"] by linarith
  qed
  moreover have "k + mk_shift p ! k \<le> length p + ?d"
  proof (rule shift_safe [OF k])
    show "0 < ?d" using a' by simp
    fix i assume "k < i" "i < length p" "?d \<le> i"
    moreover from this have "a' + (i - ?d) = a + i" using a' by simp
    moreover have "i - ?d < length p" using \<open>i < length p\<close> by simp
    ultimately show "p ! (i - ?d) = p ! i" using at suffix by metis
  qed
  ultimately show ?thesis by simp
qed


lemma bm_loop_correct:
  assumes p: "p \<noteq> []" and blen: "blen \<le> length buf"
    and none: "\<And>i. i < a \<Longrightarrow> \<not> occurs_at p (map up (take blen buf)) i"
  shows "\<exists>r. bm_loop up buf blen p (mk_skip p) (mk_shift p) (a + length p) = Some r \<and>
     first_occurrence p (map up (take blen buf)) r"
  using none
proof (induction "blen - a" arbitrary: a rule: less_induct)
  case less
  let ?text = "map up (take blen buf)"
  have len: "length ?text = blen" using blen by simp
  show ?case
  proof (cases "a + length p \<le> blen")
    case False
    then have "\<not> occurs_at p ?text i" for i
      using less.prems [of i] len by (cases "i < a") (auto simp: occurs_at_def)
    then have "first_occurrence p ?text (- 1)" by (simp add: first_occurrence_def)
    then show ?thesis using False by (subst bm_loop.simps) auto
  next
    case True
    have nth: "?text ! (a + i) = up (buf ! (a + i))" if "i < length p" for i
      using that True blen by simp
    show ?thesis
    proof (cases "bm_compare up buf p (a + length p) (length p)")
      case (Inl r)
      then have "r = a" and "\<forall>i < length p. up (buf ! (a + i)) = p ! i"
        using bm_compare_Inl [OF Inl] p by auto
      moreover from this have "occurs_at p ?text a" using True len nth by (simp add: occurs_at_nth)
      ultimately have "first_occurrence p ?text (int r)"
        using less.prems by (simp add: first_occurrence_def)
      then show ?thesis using True Inl by (subst bm_loop.simps) auto
    next
      case (Inr bk)
      obtain k where bk: "bk = (a + k, k)" and k: "k < length p"
        and mis: "up (buf ! (a + k)) \<noteq> p ! k"
        and suf: "\<And>i. k < i \<Longrightarrow> i < length p \<Longrightarrow> up (buf ! (a + i)) = p ! i"
        using bm_compare_Inr [of up buf p a "length p" bk] Inr p by auto
      let ?c = "up (buf ! (a + k))"
      define a' where "a' = a + k + max (mk_skip p ?c) (mk_shift p ! k) - length p"
      have prog: "length p < k + max (mk_skip p ?c) (mk_shift p ! k)"
        using stride_progress [OF k mis] .
      have a': "a < a'" and b': "a + k + max (mk_skip p ?c) (mk_shift p ! k) = a' + length p"
        using prog by (simp_all add: a'_def)
      have "\<not> occurs_at p ?text i" if i: "i < a'" for i
      proof
        assume occ: "occurs_at p ?text i"
        have "\<not> occurs_at p ?text a"
          using mis k nth by (auto simp: occurs_at_nth)
        with occ less.prems have "a < i" by (metis linorder_neqE_nat)
        then have "k + max (mk_skip p (?text ! (a + k))) (mk_shift p ! k) \<le> length p + (i - a)"
          using stride_safe [OF k _ _ occ, of a] suf nth by simp
        then show False using nth [OF k] i b' \<open>a < i\<close> by simp
      qed
      moreover have "blen - a' < blen - a" using a' True p by (cases p) auto
      ultimately obtain r where "bm_loop up buf blen p (mk_skip p) (mk_shift p) (a' + length p) = Some r"
        and "first_occurrence p ?text r"
        using less.hyps by blast
      then show ?thesis
        using True Inr bk b' by (subst bm_loop.simps) (auto simp: add.assoc)
    qed
  qed
qed

end


section \<open>The tables of the program\<close>

lemma make_skip_loop_notin: "c \<notin> set p \<Longrightarrow> make_skip_loop p skip c = skip c"
  by (induction p arbitrary: skip) auto

lemma make_skip_loop_in:
  "c \<in> set p \<Longrightarrow> \<exists>j < length p. p ! j = c \<and> make_skip_loop p skip c = length p - j \<and>
     (\<forall>i. j < i \<longrightarrow> i < length p \<longrightarrow> p ! i \<noteq> c)"
proof (induction p arbitrary: skip)
  case (Cons x p)
  show ?case
  proof (cases "c \<in> set p")
    case True
    then obtain j where "j < length p" "p ! j = c"
      "make_skip_loop p (skip(x := length (x # p))) c = length p - j"
      "\<forall>i. j < i \<longrightarrow> i < length p \<longrightarrow> p ! i \<noteq> c"
      using Cons.IH by blast
    then show ?thesis by (intro exI [of _ "Suc j"]) (auto simp: nth_Cons split: nat.splits)
  next
    case False
    then show ?thesis
      using Cons.prems make_skip_loop_notin [of c p]
      by (intro exI [of _ 0]) (auto simp: nth_Cons split: nat.splits)
  qed
qed simp

lemma make_skip_cases:
  obtains "c \<notin> set p" and "make_skip p c = length p + 1"
  | j where "j < length p" and "p ! j = c" and "make_skip p c = length p - j"
      and "\<forall>i. j < i \<longrightarrow> i < length p \<longrightarrow> p ! i \<noteq> c"
  using make_skip_loop_in [of c p] make_skip_loop_notin [of c p]
  unfolding make_skip_def by metis

lemma compare_back_diff:
  "p3 \<le> p2 \<Longrightarrow> compare_back p pptr p3 p2 = (r3, r2) \<Longrightarrow> r3 \<le> r2 \<and> r2 - r3 = p2 - p3"
  by (induction p pptr p3 p2 rule: compare_back.induct) (fastforce split: if_splits)+

lemma compare_back_mismatch:
  "compare_back p pptr p3 p2 = (r3, r2) \<Longrightarrow> 0 < r3 \<Longrightarrow> pptr < r2 \<Longrightarrow> p ! r3 \<noteq> p ! r2"
  by (induction p pptr p3 p2 rule: compare_back.induct) (auto split: if_splits)

lemma scan_char_skips: "scan_char p c p1 < q \<Longrightarrow> q < p1 \<Longrightarrow> p ! q \<noteq> c"
  by (induction p1) (auto split: if_splits simp: less_Suc_eq)

text \<open>
  Shifting the pattern by \<open>d\<close> is compatible with the suffix matched before a mismatch at \<open>k\<close>.
\<close>

definition suffix_compatible :: "bytes \<Rightarrow> nat \<Rightarrow> nat \<Rightarrow> bool" where
  "suffix_compatible p k d \<longleftrightarrow> (\<forall>i. k < i \<longrightarrow> i < length p \<longrightarrow> d \<le> i \<longrightarrow> p ! (i - d) = p ! i)"

lemma suffix_incompatibleI:
  "k < i \<Longrightarrow> i < length p \<Longrightarrow> d \<le> i \<Longrightarrow> p ! (i - d) \<noteq> p ! i \<Longrightarrow> \<not> suffix_compatible p k d"
  by (auto simp: suffix_compatible_def)

lemma shift_search_spec:
  assumes "p1 < length p" and k: "k + 1 < length p"
    and "\<And>q. p1 \<le> q \<Longrightarrow> q + 1 < length p \<Longrightarrow> \<not> suffix_compatible p k (length p - 1 - q)"
  shows "\<exists>q1 p3 p2. shift_search p (last p) (k + 1) p1 = (p3, p2) \<and>
     q1 + 1 < length p \<and> p2 - p3 = length p - 1 - q1 \<and>
     (\<forall>q. q1 < q \<longrightarrow> q + 1 < length p \<longrightarrow> \<not> suffix_compatible p k (length p - 1 - q))"
  using assms(1,3)
proof (induction p1 rule: less_induct)
  case (less p1)
  let ?n = "length p"
  define p1' where "p1' = scan_char p (last p) p1"
  obtain p3 p2 where cb: "compare_back p (k + 1) p1' (?n - 1) = (p3, p2)" by fastforce
  have le: "p1' < ?n - 1"
    using less.prems(1) k scan_char_less [of p "last p" p1] scan_char_le [of p "last p" p1]
    unfolding p1'_def by (cases "scan_char p (last p) p1 = 0") linarith+
  have last: "last p = p ! (?n - 1)" using k by (cases "p = []") (auto simp: last_conv_nth)
  have ref: "\<not> suffix_compatible p k (?n - 1 - q)" if "p1' < q" "q + 1 < ?n" for q
  proof (cases "p1 \<le> q")
    case True
    then show ?thesis using less.prems(2) that by blast
  next
    case False
    then have "p ! q \<noteq> p ! (?n - 1)"
      using that scan_char_skips [of p "last p" p1 q] last by (simp add: p1'_def)
    then show ?thesis
      using k that by (intro suffix_incompatibleI [of k "?n - 1"]) auto
  qed
  have diff: "p3 \<le> p2" "p2 - p3 = ?n - 1 - p1'"
    using compare_back_diff [OF _ cb] le by auto
  show ?case
  proof (cases "0 < p3 \<and> k + 1 < p2")
    case True
    have p3: "p3 \<le> p1'" using compare_back_le [of p "k + 1" p1' "?n - 1"] cb by simp
    have "0 < p1'" using True p3 by simp
    then have lt: "p1' < p1" using scan_char_less unfolding p1'_def by blast
    have "p ! p3 \<noteq> p ! p2" using compare_back_mismatch [OF cb] True by simp
    moreover have "p2 - (?n - 1 - p1') = p3" "?n - 1 - p1' \<le> p2" "p2 < ?n"
      using diff p3 le by linarith+
    ultimately have "\<not> suffix_compatible p k (?n - 1 - p1')"
      using True by (intro suffix_incompatibleI [of k p2]) auto
    with ref have "\<not> suffix_compatible p k (?n - 1 - q)" if "p1' \<le> q" "q + 1 < ?n" for q
      using that by (cases "q = p1'") auto
    then have "\<exists>q1 p3 p2. shift_search p (last p) (k + 1) p1' = (p3, p2) \<and>
        q1 + 1 < ?n \<and> p2 - p3 = ?n - 1 - q1 \<and>
        (\<forall>q. q1 < q \<longrightarrow> q + 1 < ?n \<longrightarrow> \<not> suffix_compatible p k (?n - 1 - q))"
      using less.IH [OF lt] le by simp
    moreover have "shift_search p (last p) (k + 1) p1 = shift_search p (last p) (k + 1) p1'"
      using cb True by (subst shift_search.simps) (simp add: p1'_def [symmetric] Let_def)
    ultimately show ?thesis by simp
  next
    case False
    then have "shift_search p (last p) (k + 1) p1 = (p3, p2)"
      using cb by (subst shift_search.simps) (auto simp: p1'_def [symmetric] Let_def)
    then show ?thesis using diff le ref by (intro exI [of _ p1'] exI [of _ p3] exI [of _ p2]) auto
  qed
qed

definition shift_entry :: "bytes \<Rightarrow> nat \<Rightarrow> nat" where
  "shift_entry p k =
     (case shift_search p (last p) (k + 1) (length p - 1) of (p3, p2) \<Rightarrow> length p - k + (p2 - p3))"

lemma make_shift_loop_eq: "make_shift_loop p m acc = map (shift_entry p) [0..<m] @ acc"
  by (induction m arbitrary: acc) (auto simp: shift_entry_def split: prod.splits)

lemma make_shift_nth:
  assumes "k < length p"
  shows "make_shift p ! k = (if k + 1 < length p then shift_entry p k else 1)"
proof -
  have "k = length p - 1" if "\<not> k + 1 < length p" using assms that by linarith
  then show ?thesis by (auto simp: make_shift_def make_shift_loop_eq nth_append)
qed

lemma shift_entry_spec:
  assumes "k + 1 < length p"
  shows "\<exists>q1. q1 + 1 < length p \<and> shift_entry p k = length p - k + (length p - 1 - q1) \<and>
     (\<forall>q. q1 < q \<longrightarrow> q + 1 < length p \<longrightarrow> \<not> suffix_compatible p k (length p - 1 - q))"
  using shift_search_spec [of "length p - 1" p k] assms by (fastforce simp: shift_entry_def)

lemma make_shift_safe:
  assumes k: "k < length p" and d: "0 < d" and compat: "suffix_compatible p k d"
  shows "k + make_shift p ! k \<le> length p + d"
proof (cases "k + 1 < length p \<and> d < length p")
  case True
  obtain q1 where "q1 + 1 < length p"
    and e: "shift_entry p k = length p - k + (length p - 1 - q1)"
    and ref: "\<forall>q. q1 < q \<longrightarrow> q + 1 < length p \<longrightarrow> \<not> suffix_compatible p k (length p - 1 - q)"
    using shift_entry_spec True by blast
  have "length p - 1 - (length p - 1 - d) = d" "length p - 1 - d + 1 < length p"
    using True d by linarith+
  then have "\<not> q1 < length p - 1 - d"
    using ref [rule_format, of "length p - 1 - d"] compat d True by auto
  then show ?thesis using e True make_shift_nth [OF k] by auto
next
  case False
  show ?thesis
  proof (cases "k + 1 < length p")
    case True
    then obtain q1 where "shift_entry p k = length p - k + (length p - 1 - q1)"
      using shift_entry_spec by blast
    then show ?thesis using True False make_shift_nth [OF k] by auto
  next
    case False
    then show ?thesis using make_shift_nth [OF k] k by auto
  qed
qed

interpretation bm: bm_tables make_skip make_shift
proof unfold_locales
  fix p :: bytes and c :: u8 and j k d :: nat
  show "make_skip p c \<le> length p + 1"
    by (cases rule: make_skip_cases [of c p]) auto
  show "make_skip p c \<le> length p - j" if "j < length p" "p ! j = c"
  proof (cases rule: make_skip_cases [of c p])
    case 1
    then show ?thesis using that by (auto simp: in_set_conv_nth)
  next
    case (2 i)
    then have "\<not> i < j" using that by blast
    then show ?thesis using 2 by simp
  qed
  show "2 \<le> make_skip p c" if "p \<noteq> []" "c \<noteq> last p"
  proof (cases rule: make_skip_cases [of c p])
    case 1
    then show ?thesis using that by (cases p) auto
  next
    case (2 i)
    then have "i \<noteq> length p - 1" using that by (auto simp: last_conv_nth)
    then show ?thesis using 2 by linarith
  qed
  show "k + make_shift p ! k \<le> length p + d" if "k < length p" "0 < d"
    "\<And>i. k < i \<Longrightarrow> i < length p \<Longrightarrow> d \<le> i \<Longrightarrow> p ! (i - d) = p ! i"
    using that by (intro make_shift_safe) (auto simp: suffix_compatible_def)
  show "length p < k + make_shift p ! k" if "k + 1 < length p"
    using shift_entry_spec [OF that] make_shift_nth [of k p] that by auto
qed


section \<open>Properties\<close>

text \<open>
  C3.  The Boyer-Moore search terminates and finds the first occurrence.  With the tables that
  \<open>make_skip\<close> and \<open>make_shift\<close> build for a non-empty pattern, \<open>mSearch\<close> over the first
  \<open>blen\<close> bytes of a buffer returns the offset of the first occurrence of the pattern, or -1
  exactly when there is none.
\<close>

theorem mSearch_first_occurrence:
  assumes "ptrn \<noteq> []" and "blen \<le> length buf"
  shows "\<exists>r. mSearch buf blen ptrn (make_skip ptrn) (make_shift ptrn) = Some r \<and>
     first_occurrence ptrn (take blen buf) r"
  using bm.bm_loop_correct [OF assms, of 0 "\<lambda>c. c"] assms(1) by (simp add: mSearch_def)

theorem mSearch_first_occurrence_witness:
  "\<exists>r. mSearch [97, 98, 97, 97, 98] 5 [97, 97, 98] (make_skip [97, 97, 98])
       (make_shift [97, 97, 98]) = Some r \<and>
     first_occurrence [97, 97, 98] (take 5 [97, 98, 97, 97, 98 :: u8]) r"
  by (rule mSearch_first_occurrence) simp_all

text \<open>
  C29.  The case-insensitive search finds the first place where the upper-cased buffer matches
  the pattern, which the parser has upper-cased before building the tables.
\<close>

theorem mSearchCI_first_occurrence:
  assumes "ptrn \<noteq> []" and "blen \<le> length buf"
  shows "\<exists>r. mSearchCI buf blen ptrn (make_skip ptrn) (make_shift ptrn) = Some r \<and>
     first_occurrence ptrn (map toupper (take blen buf)) r"
  using bm.bm_loop_correct [OF assms, of 0 toupper] assms(1) by (simp add: mSearchCI_def)

theorem mSearchCI_first_occurrence_witness:
  "\<exists>r. mSearchCI [97, 66, 99] 3 [66, 67] (make_skip [66, 67]) (make_shift [66, 67]) = Some r \<and>
     first_occurrence [66, 67] (map toupper (take 3 [97, 66, 99 :: u8])) r"
  by (rule mSearchCI_first_occurrence) simp_all

end
