(* ===== verification/Parse_Utils.thy ===== *)
theory Parse_Utils
  imports Cstring
begin

unbundle bit_operations_syntax

text \<open>
  The parsers of content strings and of bounded integers from \<^verbatim>\<open>parser/parse_utils.cc\<close>.
\<close>

section \<open>Byte codes\<close>

definition isupper :: "u8 \<Rightarrow> bool" where
  "isupper c \<longleftrightarrow> 65 \<le> c \<and> c \<le> 90"

definition isxdigit :: "u8 \<Rightarrow> bool" where
  "isxdigit c \<longleftrightarrow> isdigit c \<or> (65 \<le> c \<and> c \<le> 70) \<or> (97 \<le> c \<and> c \<le> 102)"

definition xton :: "u8 \<Rightarrow> u8" where
  "xton c = (if isdigit c then c - 48 else if isupper c then c - 65 + 10 else c - 97 + 10)"

text \<open>
  The states 0, 1, 2 and 4 of \<open>parse_byte_code\<close>, and the variables that its loop carries.  The
  characters are \<open>!\<close> 33, the double quote 34 and \<open>|\<close> 124.
\<close>

datatype pbc_state = PBC_Start | PBC_Open | PBC_Text | PBC_Hex

record pbc =
  pbc_mode :: pbc_state
  pbc_negate :: bool
  pbc_hex :: u8
  pbc_nx :: nat
  pbc_out :: bytes

text \<open>
  The opening quote is accepted when the last character of the input is a quote; it is then cut
  off by \<open>--len\<close>.  \<open>None\<close> is the result \<open>false\<close>.
\<close>

definition pbc_open :: "pbc \<Rightarrow> u8 \<Rightarrow> bytes \<Rightarrow> (pbc \<times> bytes) option" where
  "pbc_open s c rest =
     (if c = 34 \<and> last (c # rest) = 34 then Some (s\<lparr>pbc_mode := PBC_Text\<rparr>, butlast rest)
      else if isspace c then Some (s, rest)
      else None)"

definition pbc_step :: "pbc \<Rightarrow> u8 \<Rightarrow> bytes \<Rightarrow> (pbc \<times> bytes) option" where
  "pbc_step s c rest =
     (case pbc_mode s of
        PBC_Start \<Rightarrow>
          if c = 33 then Some (s\<lparr>pbc_negate := True, pbc_mode := PBC_Open\<rparr>, rest)
          else pbc_open s c rest
      | PBC_Open \<Rightarrow> pbc_open s c rest
      | PBC_Text \<Rightarrow>
          if c = 124 then Some (s\<lparr>pbc_hex := 0, pbc_nx := 0, pbc_mode := PBC_Hex\<rparr>, rest)
          else Some (s\<lparr>pbc_out := pbc_out s @ [c]\<rparr>, rest)
      | PBC_Hex \<Rightarrow>
          if c = 124 then
            Some (s\<lparr>pbc_out := (if pbc_nx s \<noteq> 0 then pbc_out s @ [pbc_hex s] else pbc_out s),
                    pbc_mode := PBC_Text\<rparr>, rest)
          else if isxdigit c then
            (let s = (if 2 \<le> pbc_nx s
                      then s\<lparr>pbc_out := pbc_out s @ [pbc_hex s], pbc_hex := 0, pbc_nx := 0\<rparr> else s)
             in Some (s\<lparr>pbc_hex := push_bit 4 (pbc_hex s) + xton c, pbc_nx := pbc_nx s + 1\<rparr>, rest))
          else if isspace c \<and> pbc_nx s \<noteq> 0 then
            Some (s\<lparr>pbc_out := pbc_out s @ [pbc_hex s], pbc_hex := 0, pbc_nx := 0\<rparr>, rest)
          else if \<not> isspace c then None
          else Some (s, rest))"

lemma pbc_step_length: "pbc_step s c rest = Some (s', rest') \<Longrightarrow> length rest' \<le> length rest"
  by (auto simp: pbc_step_def pbc_open_def Let_def split: pbc_state.splits if_splits)

function pbc_loop :: "pbc \<Rightarrow> bytes \<Rightarrow> pbc option" where
  "pbc_loop s [] = Some s"
| "pbc_loop s (c # rest) =
     (case pbc_step s c rest of
        None \<Rightarrow> None
      | Some (s', rest') \<Rightarrow> pbc_loop s' rest')"
  by pat_completeness auto
termination
  by (relation "measure (\<lambda>(s, xs). length xs)") (auto dest!: pbc_step_length)

definition parse_byte_code :: "bytes \<Rightarrow> (bool \<times> bytes) option" where
  "parse_byte_code input =
     (case pbc_loop \<lparr>pbc_mode = PBC_Start, pbc_negate = False, pbc_hex = 0, pbc_nx = 0,
                      pbc_out = []\<rparr> input of
        None \<Rightarrow> None
      | Some s \<Rightarrow> Some (pbc_negate s, pbc_out s))"

section \<open>Integers\<close>

text \<open>The value and whether a parse error was reported.\<close>

definition parse_int :: "bytes \<Rightarrow> int \<Rightarrow> int \<Rightarrow> int \<times> bool" where
  "parse_int data low high =
     (case strtol 10 data of
        None \<Rightarrow> (0, True)
      | Some (n, k) \<Rightarrow>
          let val = to_int32 n
          in if k \<noteq> length data then (val, True)
             else if n = 2 ^ 63 - 1 \<or> n = - (2 ^ 63) then (val, True)
             else if high < val \<or> val < low then (val, True)
             else (val, False))"

section \<open>Round trip\<close>

text \<open>A printer of byte codes: all bytes in hexadecimal, as rule writers escape binary data.\<close>

definition hex_digit :: "u8 \<Rightarrow> u8" where
  "hex_digit d = (if d < 10 then 48 + d else 87 + d)"

definition hex_byte :: "u8 \<Rightarrow> bytes" where
  "hex_byte b = [hex_digit (drop_bit 4 b), hex_digit (b AND 0xF), 32]"

definition print_byte_code :: "bool \<Rightarrow> bytes \<Rightarrow> bytes" where
  "print_byte_code neg bs =
     (if neg then [33] else []) @ [34, 124] @ concat (map hex_byte bs) @ [124, 34]"

lemma nibble_hi: "drop_bit 4 (b :: u8) < 16"
proof -
  have "unat (drop_bit 4 b) = unat b div 16" by (simp add: drop_bit_eq_div unat_div_distrib)
  moreover have "unat b < 256" using unsigned_less [of b] by simp
  ultimately show ?thesis by (simp add: word_less_nat_alt)
qed

lemma nibble_lo: "(b :: u8) AND 0xF < 16"
proof -
  have "b AND 0xF = take_bit 4 b" by (simp add: take_bit_eq_mask mask_eq_exp_minus_1)
  then have "unat (b AND 0xF) = unat b mod 16" by (simp add: take_bit_eq_mod unat_mod_distrib)
  then show ?thesis by (simp add: word_less_nat_alt)
qed

lemma nibble_cases:
  assumes "(d :: u8) < 16"
  shows "d \<in> set (map of_nat [0..<16])"
proof -
  have "unat d < 16" using assms by (simp add: word_less_nat_alt)
  then have "(of_nat (unat d) :: u8) \<in> of_nat ` set [0..<16]" by (intro imageI) simp
  then show ?thesis by simp
qed

lemma nibble_all: "(\<forall>d \<in> set (map of_nat [0..<16]). P (d :: u8)) \<longleftrightarrow>
    P 0 \<and> P 1 \<and> P 2 \<and> P 3 \<and> P 4 \<and> P 5 \<and> P 6 \<and> P 7 \<and> P 8 \<and> P 9 \<and> P 10 \<and> P 11 \<and> P 12 \<and> P 13 \<and>
    P 14 \<and> P 15"
  by (simp add: upt_rec)

lemma hex_digit_props:
  assumes "d < 16"
  shows "isxdigit (hex_digit d)" and "xton (hex_digit d) = d" and "hex_digit d \<noteq> 124"
proof -
  have "\<forall>d \<in> set (map of_nat [0..<16]).
      isxdigit (hex_digit d) \<and> xton (hex_digit d) = d \<and> hex_digit d \<noteq> 124"
    unfolding nibble_all by (simp add: isxdigit_def hex_digit_def xton_def isdigit_def isupper_def)
  then show "isxdigit (hex_digit d)" and "xton (hex_digit d) = d" and "hex_digit d \<noteq> 124"
    using nibble_cases [OF assms] by blast+
qed

lemma nibbles_join: "push_bit 4 (drop_bit 4 b) + (b AND 0xF) = (b :: u8)"
proof -
  have "b AND 0xF = take_bit 4 b" by (simp add: take_bit_eq_mask mask_eq_exp_minus_1)
  moreover have "push_bit 4 (drop_bit 4 b) + take_bit 4 b = b" by (rule bits_ident)
  ultimately show ?thesis by simp
qed

lemma pbc_hex_byte:
  assumes "pbc_mode s = PBC_Hex" and "pbc_nx s = 0" and "pbc_hex s = 0"
  shows "pbc_loop s (hex_byte b @ rest) = pbc_loop (s\<lparr>pbc_out := pbc_out s @ [b]\<rparr>) rest"
proof -
  note hi = hex_digit_props [OF nibble_hi [of b]] and lo = hex_digit_props [OF nibble_lo [of b]]
  have sp: "isspace 32" "\<not> isxdigit 32" by (simp_all add: isspace_def isxdigit_def isdigit_def)
  show ?thesis
    using assms hi lo sp
    by (cases s) (simp add: hex_byte_def pbc_step_def Let_def nibbles_join)
qed

lemma pbc_hex_bytes:
  assumes "pbc_mode s = PBC_Hex" and "pbc_nx s = 0" and "pbc_hex s = 0"
  shows "pbc_loop s (concat (map hex_byte bs) @ rest) =
           pbc_loop (s\<lparr>pbc_out := pbc_out s @ bs\<rparr>) rest"
  using assms
proof (induction bs arbitrary: s)
  case (Cons b bs)
  then show ?case by (simp add: pbc_hex_byte)
qed simp

text \<open>
  C26: every byte string, written as a rule content in hexadecimal, plain or negated, parses back
  to exactly that string and that negation.
\<close>

theorem parse_byte_code_print: "parse_byte_code (print_byte_code neg bs) = Some (neg, bs)"
proof -
  have last: "last (34 # 124 # concat (map hex_byte bs) @ [124, 34]) = (34 :: u8)"
    and but: "butlast (124 # concat (map hex_byte bs) @ [124, 34]) =
      124 # concat (map hex_byte bs) @ [124]"
    by (simp_all add: butlast_append)
  show ?thesis
    using last but
    by (auto simp: parse_byte_code_def print_byte_code_def pbc_step_def pbc_open_def pbc_hex_bytes
        simp del: last.simps butlast.simps)
qed

text \<open>
  C37: a hexadecimal block whose closing bar is missing is accepted without an error, and the
  last byte written in it is silently dropped from the content.
\<close>

theorem parse_byte_code_unterminated:
  "parse_byte_code ([34, 124] @ concat (map hex_byte bs) @ butlast (hex_byte b) @ [34]) =
     Some (False, bs)"
proof -
  note hi = hex_digit_props [OF nibble_hi [of b]] and lo = hex_digit_props [OF nibble_lo [of b]]
  have last: "last (34 # 124 # concat (map hex_byte bs) @ butlast (hex_byte b) @ [34]) = (34 :: u8)"
    and but: "butlast (124 # concat (map hex_byte bs) @ butlast (hex_byte b) @ [34]) =
      124 # concat (map hex_byte bs) @ butlast (hex_byte b)"
    by (simp_all add: butlast_append)
  have tail: "pbc_loop s (butlast (hex_byte b)) = Some (s\<lparr>pbc_hex := b, pbc_nx := 2\<rparr>)"
    if "pbc_mode s = PBC_Hex" "pbc_nx s = 0" "pbc_hex s = 0" for s
    using that hi lo by (cases s) (simp add: hex_byte_def pbc_step_def Let_def nibbles_join)
  show ?thesis
    using last but tail
    by (simp add: parse_byte_code_def pbc_step_def pbc_open_def pbc_hex_bytes
        del: last.simps butlast.simps)
qed

end
