(* ===== verification/Content_Option.thy ===== *)
theory Content_Option
  imports Byte_Test Boyer_Moore Parse_Utils
begin

unbundle bit_operations_syntax

text \<open>
  The option \<open>content\<close> of \<^verbatim>\<open>ips_options/ips_content.cc\<close> with the pattern data of
  \<^verbatim>\<open>detection/pattern_match_data.h\<close>: the search window, the search, the jump to the next
  candidate, and the parser.
\<close>

section \<open>Pattern data\<close>

definition PMD_NEGATED :: u16 where "PMD_NEGATED = 0x01"
definition PMD_NO_CASE :: u16 where "PMD_NO_CASE = 0x02"
definition PMD_RELATIVE :: u16 where "PMD_RELATIVE = 0x04"
definition PMD_LITERAL :: u16 where "PMD_LITERAL = 0x08"
definition PMD_FAST_PAT :: u16 where "PMD_FAST_PAT = 0x10"
definition PMD_NO_FP :: u16 where "PMD_NO_FP = 0x20"

lemmas pmd_flags = PMD_NEGATED_def PMD_NO_CASE_def PMD_RELATIVE_def PMD_LITERAL_def
  PMD_FAST_PAT_def PMD_NO_FP_def

text \<open>The fields that the option uses; an absent buffer is the empty list.\<close>

record pattern_match_data =
  pattern_buf :: bytes
  pattern_size :: u32
  pm_offset :: int
  pm_depth :: int
  pm_flags :: u16
  fp_offset :: u16
  fp_length :: u16

definition pmd_set :: "u16 \<Rightarrow> pattern_match_data \<Rightarrow> pattern_match_data" where
  "pmd_set flag pmd = pmd\<lparr>pm_flags := pm_flags pmd OR flag\<rparr>"

definition pmd_is :: "u16 \<Rightarrow> pattern_match_data \<Rightarrow> bool" where
  "pmd_is flag pmd \<longleftrightarrow> pm_flags pmd AND flag \<noteq> 0"

abbreviation is_negated :: "pattern_match_data \<Rightarrow> bool" where "is_negated \<equiv> pmd_is PMD_NEGATED"
abbreviation is_no_case :: "pattern_match_data \<Rightarrow> bool" where "is_no_case \<equiv> pmd_is PMD_NO_CASE"
abbreviation is_relative :: "pattern_match_data \<Rightarrow> bool" where "is_relative \<equiv> pmd_is PMD_RELATIVE"

definition can_be_fp :: "pattern_match_data \<Rightarrow> bool" where
  "can_be_fp pmd =
     (if pattern_buf pmd = [] \<or> pattern_size pmd = 0 then False
      else if pmd_is PMD_NO_FP pmd then False
      else if \<not> is_negated pmd then True
      else if is_relative pmd \<or> \<not> is_no_case pmd \<or> pm_offset pmd \<noteq> 0 \<or> pm_depth pmd \<noteq> 0 then False
      else True)"

section \<open>The option\<close>

record content_data =
  pmd :: pattern_match_data
  cd_offset_var :: int
  cd_depth_var :: int
  match_delta :: u32
  skip_stride :: "u8 \<Rightarrow> nat"
  shift_stride :: "nat list"

definition cd_init :: "content_data \<Rightarrow> content_data" where
  "cd_init cd = cd\<lparr>cd_offset_var := IPS_OPTIONS_NO_VAR, cd_depth_var := IPS_OPTIONS_NO_VAR\<rparr>"

definition setup_bm :: "content_data \<Rightarrow> content_data" where
  "setup_bm cd = cd\<lparr>skip_stride := make_skip (pattern_buf (pmd cd)),
                    shift_stride := make_shift (pattern_buf (pmd cd))\<rparr>"

text \<open>
  The loop of \<open>set_max_jump_size\<close> over the pattern \<open>p\<close> of size \<open>n\<close>, with its counters; the
  result is the value stored in \<open>match_delta\<close>.
\<close>

function max_jump_loop :: "bytes \<Rightarrow> nat \<Rightarrow> nat \<Rightarrow> nat \<Rightarrow> nat" where
  "max_jump_loop p n i j =
     (if i < n then
        (if p ! j \<noteq> p ! i then max_jump_loop p n (i + 1) 0
         else if i = n - 1 then n - j - 1
         else max_jump_loop p n (i + 1) (j + 1))
      else n)"
  by pat_completeness auto
termination by (relation "measure (\<lambda>(p, n, i, j). n - i)") auto

declare max_jump_loop.simps [simp del]

definition set_max_jump_size :: "content_data \<Rightarrow> content_data" where
  "set_max_jump_size cd =
     cd\<lparr>match_delta := of_nat (max_jump_loop (pattern_buf (pmd cd)) (unat (pattern_size (pmd cd))) 1 0)\<rparr>"

definition content_retry :: "content_data \<Rightarrow> cursor \<Rightarrow> bool" where
  "content_retry cd c =
     (if is_negated (pmd cd) then False
      else if pm_depth (pmd cd) = 0 then True
      else
        let lo = cur_delta c + pattern_size (pmd cd);
            hi = cur_delta c - match_delta cd + of_int (pm_offset (pmd cd)) + of_int (pm_depth (pmd cd))
        in lo \<le> hi)"

definition content_hash :: "ips_option \<times> content_data \<Rightarrow> u32" where
  "content_hash opt =
     (let cd = snd opt;
          (a, b, c) = mix (ucast (pm_flags (pmd cd)), of_int (pm_offset (pmd cd)),
                           of_int (pm_depth (pmd cd)));
          (a, b, c) = mix (a + pattern_size (pmd cd), b + ucast (fp_offset (pmd cd)),
                           c + ucast (fp_length (pmd cd)));
          (a, b, c) = (if pattern_size (pmd cd) \<noteq> 0
                       then mix_str (a, b, c) (pattern_buf (pmd cd)) (unat (pattern_size (pmd cd)))
                       else (a, b, c));
          (a, b, c) = mix_str (a, b, c) (opt_name (fst opt)) 0;
          (a, b, c) = mix (a + of_int (cd_depth_var cd), b + of_int (cd_offset_var cd),
                           c + match_delta cd)
      in snd (snd (finalize (a, b, c))))"

section \<open>Searching\<close>

text \<open>
  The window of \<open>uniSearchReal\<close>: the position it starts from and the number of bytes it may
  search, with the conversions between \<open>int\<close> and \<open>unsigned\<close> of the source.
\<close>

definition content_pos :: "content_data \<Rightarrow> var_values \<Rightarrow> cursor \<Rightarrow> int" where
  "content_pos cd vals c =
     (let offset = var_or_int vals (cd_offset_var cd) (pm_offset (pmd cd));
          pos = sint (cur_delta c);
          pos = (if pos = 0
                 then to_int32 ((if is_relative (pmd cd) then sint (cur_pos c) else 0) + offset)
                 else pos)
      in if pos < 0 then 0 else pos)"

definition content_depth :: "content_data \<Rightarrow> var_values \<Rightarrow> cursor \<Rightarrow> int" where
  "content_depth cd vals c =
     (let depth = var_or_int vals (cd_depth_var cd) (pm_depth (pmd cd));
          len = to_int32 (uint (cur_sz c) - content_pos cd vals c)
      in if depth = 0 \<or> len < depth then len else depth)"

definition content_find :: "content_data \<Rightarrow> bytes \<Rightarrow> nat \<Rightarrow> int option" where
  "content_find cd base depth =
     (if is_no_case (pmd cd)
      then mSearchCI base depth (pattern_buf (pmd cd)) (skip_stride cd) (shift_stride cd)
      else mSearch base depth (pattern_buf (pmd cd)) (skip_stride cd) (shift_stride cd))"

text \<open>
  The result is 1, 0 or -1 with the cursor; \<open>None\<close> when the search routine does not return.
\<close>

definition uniSearchReal :: "content_data \<Rightarrow> var_values \<Rightarrow> cursor \<Rightarrow> (int \<times> cursor) option" where
  "uniSearchReal cd vals c =
     (let pos = content_pos cd vals c;
          depth = content_depth cd vals c;
          end_pos = of_int pos + pattern_size (pmd cd)
      in if cur_sz c < end_pos \<or> to_int32 (pos + depth) < sint end_pos then
           (if is_negated (pmd cd) \<and> 0 < depth then Some (0, c) else Some (- 1, c))
         else
           (case content_find cd (drop (nat pos) (cur_data c)) (nat depth) of
              None \<Rightarrow> None
            | Some found \<Rightarrow>
                if 0 \<le> found then
                  let at = pos + found;
                      c = snd (set_delta (of_int at + match_delta cd) c);
                      c = snd (set_pos (of_int at + pattern_size (pmd cd)) c)
                  in Some (1, c)
                else Some (0, c)))"

definition CheckANDPatternMatch ::
    "content_data \<Rightarrow> var_values \<Rightarrow> cursor \<Rightarrow> (eval_status \<times> cursor) option" where
  "CheckANDPatternMatch idx vals c =
     (case uniSearchReal idx vals c of
        None \<Rightarrow> None
      | Some (found, c') \<Rightarrow>
          let found = (if found = - 1 then False else (found = 1) \<noteq> is_negated (pmd idx))
          in Some (if found then MATCH else NO_MATCH, c'))"

section \<open>Parser\<close>

definition CMF_DISTANCE :: u32 where "CMF_DISTANCE = 0x1"
definition CMF_WITHIN :: u32 where "CMF_WITHIN = 0x2"
definition CMF_OFFSET :: u32 where "CMF_OFFSET = 0x4"
definition CMF_DEPTH :: u32 where "CMF_DEPTH = 0x8"

definition GetCMF :: "content_data \<Rightarrow> u32" where
  "GetCMF cd =
     (if pm_offset (pmd cd) \<noteq> 0 \<or> cd_offset_var cd \<noteq> - 1 then CMF_OFFSET else 0) OR
     (if pm_depth (pmd cd) \<noteq> 0 \<or> cd_depth_var cd \<noteq> - 1 then CMF_DEPTH else 0)"

definition BAD_DISTANCE :: u32 where "BAD_DISTANCE = CMF_DISTANCE OR CMF_OFFSET OR CMF_DEPTH"
definition BAD_WITHIN :: u32 where "BAD_WITHIN = CMF_WITHIN OR CMF_OFFSET OR CMF_DEPTH"
definition BAD_OFFSET :: u32 where "BAD_OFFSET = CMF_OFFSET OR CMF_DISTANCE OR CMF_WITHIN"
definition BAD_DEPTH :: u32 where "BAD_DEPTH = CMF_DEPTH OR CMF_DISTANCE OR CMF_WITHIN"

text \<open>Each parser returns the data and whether it reported a parse error.\<close>

definition parse_content :: "bytes \<Rightarrow> content_data \<Rightarrow> content_data \<times> bool" where
  "parse_content rule cd =
     (case parse_byte_code rule of
        None \<Rightarrow> (cd, True)
      | Some (negated, buf) \<Rightarrow>
          let pm = (pmd cd)\<lparr>pattern_buf := buf, pattern_size := of_nat (length buf)\<rparr>;
              pm = pmd_set PMD_LITERAL pm;
              pm = (if negated then pmd_set PMD_NEGATED pm else pm)
          in (set_max_jump_size (cd\<lparr>pmd := pm\<rparr>), False))"

definition looks_numeric :: "bytes \<Rightarrow> bool" where
  "looks_numeric data \<longleftrightarrow> data \<noteq> [] \<and> (isdigit (hd data) \<or> hd data = 45)"

text \<open>The start of the search: \<open>offset\<close>, and \<open>distance\<close> with its relative flag.\<close>

definition parse_start :: "var_names \<Rightarrow> bytes \<Rightarrow> content_data \<Rightarrow> content_data \<times> bool" where
  "parse_start names data cd =
     (if looks_numeric data then
        (case parse_int data (- 65535) 65535 of
           (n, err) \<Rightarrow>
             (cd\<lparr>pmd := (pmd cd)\<lparr>pm_offset := n\<rparr>, cd_offset_var := IPS_OPTIONS_NO_VAR\<rparr>, err))
      else
        let v = GetVarByName names (Some data)
        in (cd\<lparr>cd_offset_var := v\<rparr>, v = IPS_OPTIONS_NO_VAR))"

definition parse_offset :: "var_names \<Rightarrow> bytes \<Rightarrow> content_data \<Rightarrow> content_data \<times> bool" where
  "parse_offset names data cd =
     (if GetCMF cd AND BAD_OFFSET \<noteq> 0 \<and> is_relative (pmd cd) then (cd, True)
      else parse_start names data cd)"

text \<open>
  The length of the search: \<open>depth\<close>, and \<open>within\<close>.  A depth below the pattern size is stored
  and reported.  The last component tells whether the function went through to its end.
\<close>

definition parse_length ::
    "var_names \<Rightarrow> bytes \<Rightarrow> content_data \<Rightarrow> (content_data \<times> bool) \<times> bool" where
  "parse_length names data cd =
     (if looks_numeric data then
        (case parse_int data (- 65535) 65535 of
           (n, err) \<Rightarrow>
             let cd1 = cd\<lparr>pmd := (pmd cd)\<lparr>pm_depth := n\<rparr>\<rparr>
             in if n < sint (pattern_size (pmd cd)) then ((cd1, True), False)
                else ((cd1\<lparr>cd_depth_var := IPS_OPTIONS_NO_VAR\<rparr>, err), True))
      else
        let v = GetVarByName names (Some data)
        in ((cd\<lparr>cd_depth_var := v\<rparr>, v = IPS_OPTIONS_NO_VAR), v \<noteq> IPS_OPTIONS_NO_VAR))"

definition parse_depth :: "var_names \<Rightarrow> bytes \<Rightarrow> content_data \<Rightarrow> content_data \<times> bool" where
  "parse_depth names data cd =
     (if GetCMF cd AND BAD_DEPTH \<noteq> 0 \<and> is_relative (pmd cd) then (cd, True)
      else fst (parse_length names data cd))"

definition set_relative :: "content_data \<Rightarrow> content_data" where
  "set_relative cd = cd\<lparr>pmd := pmd_set PMD_RELATIVE (pmd cd)\<rparr>"

definition parse_distance :: "var_names \<Rightarrow> bytes \<Rightarrow> content_data \<Rightarrow> content_data \<times> bool" where
  "parse_distance names data cd =
     (if GetCMF cd AND BAD_DISTANCE \<noteq> 0 \<and> \<not> is_relative (pmd cd) then (cd, True)
      else case parse_start names data cd of
             (cd', err) \<Rightarrow>
               if \<not> looks_numeric data \<and> err then (cd', err) else (set_relative cd', err))"

definition parse_within :: "var_names \<Rightarrow> bytes \<Rightarrow> content_data \<Rightarrow> content_data \<times> bool" where
  "parse_within names data cd =
     (if GetCMF cd AND BAD_WITHIN \<noteq> 0 \<and> \<not> is_relative (pmd cd) then (cd, True)
      else case parse_length names data cd of
             ((cd', err), through) \<Rightarrow> if through then (set_relative cd', err) else (cd', err))"

definition content_begin :: content_data where
  "content_begin = cd_init
     \<lparr>pmd = \<lparr>pattern_buf = [], pattern_size = 0, pm_offset = 0, pm_depth = 0, pm_flags = 0,
             fp_offset = 0, fp_length = 0\<rparr>,
      cd_offset_var = 0, cd_depth_var = 0, match_delta = 0, skip_stride = (\<lambda>_. 0),
      shift_stride = []\<rparr>"

definition content_end :: "content_data \<Rightarrow> bool \<times> content_data" where
  "content_end cd =
     (let size = sint (pattern_size (pmd cd)); fo = uint (fp_offset (pmd cd));
          fl = uint (fp_length (pmd cd))
      in if size \<le> fo then (False, cd)
         else if size < fo + fl then (False, cd)
         else
           let cd = (if is_no_case (pmd cd)
                     then cd\<lparr>pmd := (pmd cd)\<lparr>pattern_buf := map toupper (pattern_buf (pmd cd))\<rparr>\<rparr>
                     else cd)
           in (True, setup_bm cd))"

text \<open>\<open>set\<close> returns its success, the data and whether a parse error was reported.\<close>

definition content_set ::
    "var_names \<Rightarrow> param_value \<Rightarrow> content_data \<Rightarrow> bool \<times> content_data \<times> bool" where
  "content_set names v cd =
     (let s = c_str (v_str v)
      in if value_is v ''~data'' then (True, parse_content s cd)
         else if value_is v ''offset'' then (True, parse_offset names s cd)
         else if value_is v ''depth'' then (True, parse_depth names s cd)
         else if value_is v ''distance'' then (True, parse_distance names s cd)
         else if value_is v ''within'' then (True, parse_within names s cd)
         else if value_is v ''nocase'' then (True, cd\<lparr>pmd := pmd_set PMD_NO_CASE (pmd cd)\<rparr>, False)
         else if value_is v ''fast_pattern'' then
           (True, cd\<lparr>pmd := pmd_set PMD_FAST_PAT (pmd cd)\<rparr>, False)
         else if value_is v ''fast_pattern_offset'' then
           (True, cd\<lparr>pmd := pmd_set PMD_FAST_PAT ((pmd cd)\<lparr>fp_offset := of_int (v_num v)\<rparr>)\<rparr>, False)
         else if value_is v ''fast_pattern_length'' then
           (True, cd\<lparr>pmd := pmd_set PMD_FAST_PAT ((pmd cd)\<lparr>fp_length := of_int (v_num v)\<rparr>)\<rparr>, False)
         else (False, cd, False))"

fun content_sets :: "var_names \<Rightarrow> param_value list \<Rightarrow> content_data \<Rightarrow> content_data option" where
  "content_sets names [] cd = Some cd"
| "content_sets names (v # vs) cd =
     (case content_set names v cd of
        (ok, cd', err) \<Rightarrow> if ok then content_sets names vs cd' else None)"

section \<open>The search interface\<close>

text \<open>
  What the option relies on: a search that returns the first occurrence in the first \<open>blen\<close>
  bytes of its buffer, read through a character map.
\<close>

locale searcher =
  fixes search :: "bytes \<Rightarrow> nat \<Rightarrow> bytes \<Rightarrow> int option" and norm :: "u8 \<Rightarrow> u8"
  assumes search_first: "p \<noteq> [] \<Longrightarrow> blen \<le> length buf \<Longrightarrow>
    \<exists>r. search buf blen p = Some r \<and> first_occurrence p (map norm (take blen buf)) r"
begin

lemma occurs_window:
  assumes "pos + depth \<le> length data"
  shows "occurs_at p (map norm (take depth (drop pos data))) i \<longleftrightarrow>
           occurs_at p (map norm data) (pos + i) \<and> i + length p \<le> depth"
  using assms by (auto simp: occurs_at_nth add.assoc)

lemma search_window:
  assumes "p \<noteq> []" and "pos + depth \<le> length data"
  obtains (found) r where "search (drop pos data) depth p = Some (int r)"
      "occurs_at p (map norm data) (pos + r)" "r + length p \<le> depth"
      "\<And>i. pos \<le> i \<Longrightarrow> i < pos + r \<Longrightarrow> \<not> occurs_at p (map norm data) i"
  | (none) "search (drop pos data) depth p = Some (- 1)"
      "\<And>i. pos \<le> i \<Longrightarrow> i + length p \<le> pos + depth \<Longrightarrow> \<not> occurs_at p (map norm data) i"
proof -
  have "depth \<le> length (drop pos data)" using assms(2) by simp
  then obtain r where r: "search (drop pos data) depth p = Some r"
    and f: "first_occurrence p (map norm (take depth (drop pos data))) r"
    using search_first [OF assms(1)] by blast
  note w = occurs_window [OF assms(2)]
  show thesis
  proof (cases "r = - 1")
    case True
    have "\<not> occurs_at p (map norm data) i" if i: "pos \<le> i" "i + length p \<le> pos + depth" for i
    proof -
      obtain k where k: "i = pos + k" using i(1) le_Suc_ex by blast
      have "\<not> occurs_at p (map norm (take depth (drop pos data))) k"
        using f True i assms k by (auto simp: first_occurrence_def)
      then show ?thesis using w [of p k] i k by simp
    qed
    then show thesis using none r True by blast
  next
    case False
    define k where "k = nat r"
    have k: "r = int k" and o: "occurs_at p (map norm (take depth (drop pos data))) k"
      and before: "\<forall>i < k. \<not> occurs_at p (map norm (take depth (drop pos data))) i"
      using f False by (auto simp: first_occurrence_def k_def)
    have "\<not> occurs_at p (map norm data) i" if i: "pos \<le> i" "i < pos + k" for i
    proof -
      have "i - pos < k" and "(i - pos) + length p \<le> depth"
        using i o w [of p k] by auto
      then show ?thesis using before w [of p "i - pos"] i by auto
    qed
    then show thesis using found [of k] r k o w by blast
  qed
qed

end

interpretation cs: searcher "\<lambda>b n p. mSearch b n p (make_skip p) (make_shift p)" "\<lambda>c. c"
proof
  fix p buf :: bytes and blen
  assume "p \<noteq> []" "blen \<le> length buf"
  then show "\<exists>r. mSearch buf blen p (make_skip p) (make_shift p) = Some r \<and>
      first_occurrence p (map (\<lambda>c. c) (take blen buf)) r"
    using bm.bm_loop_correct [of p blen buf 0 "\<lambda>c. c"] by (simp add: mSearch_def)
qed

interpretation ci: searcher "\<lambda>b n p. mSearchCI b n p (make_skip p) (make_shift p)" toupper
proof
  fix p buf :: bytes and blen
  assume "p \<noteq> []" "blen \<le> length buf"
  then show "\<exists>r. mSearchCI buf blen p (make_skip p) (make_shift p) = Some r \<and>
      first_occurrence p (map toupper (take blen buf)) r"
    using bm.bm_loop_correct [of p blen buf 0 toupper] by (simp add: mSearchCI_def)
qed

section \<open>What a content decides\<close>

definition content_norm :: "content_data \<Rightarrow> u8 \<Rightarrow> u8" where
  "content_norm cd = (if is_no_case (pmd cd) then toupper else (\<lambda>c. c))"

text \<open>Occurrence of the pattern at a position of a buffer, up to case when asked.\<close>

definition content_at :: "content_data \<Rightarrow> bytes \<Rightarrow> nat \<Rightarrow> bool" where
  "content_at cd data i \<longleftrightarrow> occurs_at (pattern_buf (pmd cd)) (map (content_norm cd) data) i"

text \<open>The invariant that the parser establishes.\<close>

definition content_wf :: "content_data \<Rightarrow> bool" where
  "content_wf cd \<longleftrightarrow>
     pattern_buf (pmd cd) \<noteq> [] \<and> length (pattern_buf (pmd cd)) < 2 ^ 30 \<and>
     unat (pattern_size (pmd cd)) = length (pattern_buf (pmd cd)) \<and>
     skip_stride cd = make_skip (pattern_buf (pmd cd)) \<and>
     shift_stride cd = make_shift (pattern_buf (pmd cd)) \<and>
     0 < unat (match_delta cd) \<and> unat (match_delta cd) \<le> length (pattern_buf (pmd cd))"

lemma content_find_window:
  assumes "content_wf cd" and "pos + depth \<le> length data"
  obtains (found) r where "content_find cd (drop pos data) depth = Some (int r)"
      "content_at cd data (pos + r)" "r + length (pattern_buf (pmd cd)) \<le> depth"
      "\<And>i. pos \<le> i \<Longrightarrow> i < pos + r \<Longrightarrow> \<not> content_at cd data i"
  | (none) "content_find cd (drop pos data) depth = Some (- 1)"
      "\<And>i. pos \<le> i \<Longrightarrow> i + length (pattern_buf (pmd cd)) \<le> pos + depth \<Longrightarrow> \<not> content_at cd data i"
proof (cases "is_no_case (pmd cd)")
  case True
  have p: "pattern_buf (pmd cd) \<noteq> []" using assms(1) by (simp add: content_wf_def)
  show thesis
    using True assms(1) found none
    by (cases rule: ci.search_window [OF p assms(2)])
      (auto simp: content_wf_def content_find_def content_at_def content_norm_def)
next
  case False
  have p: "pattern_buf (pmd cd) \<noteq> []" using assms(1) by (simp add: content_wf_def)
  show thesis
    using False assms(1) found none
    by (cases rule: cs.search_window [OF p assms(2)])
      (auto simp: content_wf_def content_find_def content_at_def content_norm_def)
qed

text \<open>
  The sizes under which the signed arithmetic of the search does not overflow: buffers, patterns
  and window operands below 2^30.
\<close>

definition window_ok :: "content_data \<Rightarrow> var_values \<Rightarrow> cursor \<Rightarrow> bool" where
  "window_ok cd vals c \<longleftrightarrow>
     cursor_ok c \<and> length (cur_data c) < 2 ^ 30 \<and>
     \<bar>var_or_int vals (cd_offset_var cd) (pm_offset (pmd cd))\<bar> < 2 ^ 30 \<and>
     \<bar>var_or_int vals (cd_depth_var cd) (pm_depth (pmd cd))\<bar> < 2 ^ 30"

lemma cursor_sints:
  assumes "cursor_ok c" and "length (cur_data c) < 2 ^ 30"
  shows "sint (cur_pos c) = int (unat (cur_pos c))" and "sint (cur_delta c) = int (unat (cur_delta c))"
    and "unat (cur_pos c) < 2 ^ 30" and "unat (cur_delta c) < 2 ^ 30"
    and "uint (cur_sz c) = int (length (cur_data c))"
proof -
  show 1: "unat (cur_pos c) < 2 ^ 30" and 2: "unat (cur_delta c) < 2 ^ 30"
    using assms by (auto simp: cursor_ok_def word_le_nat_alt)
  show "sint (cur_pos c) = int (unat (cur_pos c))" using 1 by (intro sint_small) simp
  show "sint (cur_delta c) = int (unat (cur_delta c))" using 2 by (intro sint_small) simp
  have "int (unat (cur_sz c)) = int (length (cur_data c))" using assms by (simp only: cursor_ok_def)
  then show "uint (cur_sz c) = int (length (cur_data c))" by simp
qed

lemma content_pos_range:
  assumes "window_ok cd vals c"
  shows "0 \<le> content_pos cd vals c" and "content_pos cd vals c < 2 ^ 31"
    and "cur_delta c \<noteq> 0 \<Longrightarrow> content_pos cd vals c = int (unat (cur_delta c))"
proof -
  define off where "off = var_or_int vals (cd_offset_var cd) (pm_offset (pmd cd))"
  define st where "st = (if is_relative (pmd cd) then int (unat (cur_pos c)) else 0)"
  note k = cursor_sints [of c]
  have o: "\<bar>off\<bar> < 2 ^ 30" and ok: "cursor_ok c" "length (cur_data c) < 2 ^ 30"
    using assms by (simp_all add: window_ok_def off_def)
  have q: "int (unat (cur_pos c)) < int (2 ^ 30)" "int (unat (cur_delta c)) < int (2 ^ 30)"
    using k(3,4) [OF ok] by (simp_all only: of_nat_less_iff)
  have s: "0 \<le> st" "st < 2 ^ 30" using q(1) by (auto simp: st_def)
  have "to_int32 (st + off) = st + off" using o s by (intro to_int32_id) auto
  then have p: "content_pos cd vals c =
      (if cur_delta c = 0 then max 0 (st + off) else int (unat (cur_delta c)))"
    using k(1,2) [OF ok] by (auto simp: content_pos_def Let_def st_def off_def uint_0_iff)
  show "0 \<le> content_pos cd vals c" using p by auto
  show "content_pos cd vals c < 2 ^ 31" using p o s q(2) by auto
  show "cur_delta c \<noteq> 0 \<Longrightarrow> content_pos cd vals c = int (unat (cur_delta c))" using p by auto
qed

lemma content_depth_range:
  assumes "window_ok cd vals c"
  shows "content_pos cd vals c + content_depth cd vals c \<le> int (length (cur_data c))"
    and "- (2 ^ 31) \<le> content_pos cd vals c + content_depth cd vals c"
    and "to_int32 (content_pos cd vals c + content_depth cd vals c) =
           content_pos cd vals c + content_depth cd vals c"
proof -
  define dep where "dep = var_or_int vals (cd_depth_var cd) (pm_depth (pmd cd))"
  define len where "len = int (length (cur_data c)) - content_pos cd vals c"
  have d: "\<bar>dep\<bar> < 2 ^ 30" and ok: "cursor_ok c" "length (cur_data c) < 2 ^ 30"
    using assms by (simp_all add: window_ok_def dep_def)
  note p = content_pos_range(1,2) [OF assms]
  have "to_int32 len = len" using p ok(2) by (intro to_int32_id) (auto simp: len_def)
  then have e: "content_depth cd vals c = (if dep = 0 \<or> len < dep then len else dep)"
    using cursor_sints(5) [OF ok] by (simp add: content_depth_def Let_def dep_def len_def)
  show 1: "content_pos cd vals c + content_depth cd vals c \<le> int (length (cur_data c))"
    using e by (auto simp: len_def)
  show 2: "- (2 ^ 31) \<le> content_pos cd vals c + content_depth cd vals c"
    using e p d by (auto simp: len_def)
  have "int (length (cur_data c)) < 2 ^ 30" using ok(2) by simp
  then show "to_int32 (content_pos cd vals c + content_depth cd vals c) =
      content_pos cd vals c + content_depth cd vals c"
    using 1 2 by (intro to_int32_id) auto
qed

text \<open>Whether the pattern fits into the window, as the two comparisons of the source decide it.\<close>

lemma content_fits:
  assumes "content_wf cd" and "window_ok cd vals c"
  defines "pos \<equiv> content_pos cd vals c" and "depth \<equiv> content_depth cd vals c"
    and "n \<equiv> int (length (pattern_buf (pmd cd)))"
  shows "(cur_sz c < of_int pos + pattern_size (pmd cd) \<or>
          to_int32 (pos + depth) < sint (of_int pos + pattern_size (pmd cd) :: u32)) \<longleftrightarrow> depth < n"
    and "unat (of_int pos + pattern_size (pmd cd) :: u32) = nat pos + length (pattern_buf (pmd cd))"
proof -
  have ok: "cursor_ok c" "length (cur_data c) < 2 ^ 30"
    using assms by (simp_all add: window_ok_def)
  have w: "unat (pattern_size (pmd cd)) = length (pattern_buf (pmd cd))"
    "length (pattern_buf (pmd cd)) < 2 ^ 30"
    using assms(1) by (simp_all add: content_wf_def)
  have p: "0 \<le> pos" "pos < 2 ^ 31" using content_pos_range [OF assms(2)] by (simp_all add: pos_def)
  obtain k where k: "pos = int k" using p(1) nonneg_int_cases by blast
  have "unat (of_int pos :: u32) = k" using p k by (simp add: unat_of_nat take_bit_nat_eq_self)
  then show u: "unat (of_int pos + pattern_size (pmd cd) :: u32) =
      nat pos + length (pattern_buf (pmd cd))"
    using w p k by (subst unat_add_nowrap) simp_all
  have b: "pos + depth \<le> int (length (cur_data c))" "to_int32 (pos + depth) = pos + depth"
    using content_depth_range [OF assms(2)] by (simp_all add: pos_def depth_def)
  have sz: "cur_sz c < of_int pos + pattern_size (pmd cd) \<longleftrightarrow>
      length (cur_data c) < k + length (pattern_buf (pmd cd))"
    using u ok(1) k by (simp add: word_less_nat_alt cursor_ok_def)
  show "(cur_sz c < of_int pos + pattern_size (pmd cd) \<or>
      to_int32 (pos + depth) < sint (of_int pos + pattern_size (pmd cd) :: u32)) \<longleftrightarrow> depth < n"
  proof (cases "length (cur_data c) < k + length (pattern_buf (pmd cd))")
    case True
    then show ?thesis using sz b(1) k by (auto simp: n_def)
  next
    case False
    then have "k + length (pattern_buf (pmd cd)) < 2 ^ 31" using ok(2) by simp
    then have "sint (of_int pos + pattern_size (pmd cd) :: u32) = int (k + length (pattern_buf (pmd cd)))"
      using u k by (subst sint_small) simp_all
    then show ?thesis using sz False b(2) k by (auto simp: n_def)
  qed
qed

text \<open>A position of the window at which the pattern occurs, all of it inside the window.\<close>

definition in_window :: "content_data \<Rightarrow> var_values \<Rightarrow> cursor \<Rightarrow> nat \<Rightarrow> bool" where
  "in_window cd vals c i \<longleftrightarrow>
     content_pos cd vals c \<le> int i \<and>
     int i + int (length (pattern_buf (pmd cd))) \<le> content_pos cd vals c + content_depth cd vals c \<and>
     content_at cd (cur_data c) i"

definition content_moved :: "content_data \<Rightarrow> nat \<Rightarrow> cursor \<Rightarrow> cursor" where
  "content_moved cd at c =
     c\<lparr>cur_delta := of_nat at + match_delta cd, cur_pos := of_nat at + pattern_size (pmd cd)\<rparr>"

lemma content_moved_ok:
  assumes "content_wf cd" and "window_ok cd vals c" and "in_window cd vals c at"
  shows "unat (cur_delta (content_moved cd at c)) = at + unat (match_delta cd)"
    and "unat (cur_pos (content_moved cd at c)) = at + length (pattern_buf (pmd cd))"
    and "cursor_ok (content_moved cd at c)"
    and "snd (set_pos (of_nat at + pattern_size (pmd cd))
            (snd (set_delta (of_nat at + match_delta cd) c))) = content_moved cd at c"
proof -
  have le: "at + length (pattern_buf (pmd cd)) \<le> length (cur_data c)"
    using content_depth_range(1) [OF assms(2)] assms(3) by (simp add: in_window_def)
  have ok: "cursor_ok c" "length (cur_data c) < 2 ^ 30" using assms(2) by (simp_all add: window_ok_def)
  have w: "unat (pattern_size (pmd cd)) = length (pattern_buf (pmd cd))"
    "unat (match_delta cd) \<le> length (pattern_buf (pmd cd))"
    using assms(1) by (simp_all add: content_wf_def)
  have a: "unat (of_nat at :: u32) = at" using le ok(2) by (simp add: unat_of_nat take_bit_nat_eq_self)
  show 1: "unat (cur_delta (content_moved cd at c)) = at + unat (match_delta cd)"
    using a w le ok(2) unfolding content_moved_def by (simp, subst unat_add_nowrap) simp_all
  show 2: "unat (cur_pos (content_moved cd at c)) = at + length (pattern_buf (pmd cd))"
    using a w le ok(2) unfolding content_moved_def by (simp, subst unat_add_nowrap) simp_all
  have d: "of_nat at + match_delta cd \<le> cur_sz c" "of_nat at + pattern_size (pmd cd) \<le> cur_sz c"
    using 1 2 w le ok(1) by (simp_all add: word_le_nat_alt cursor_ok_def content_moved_def)
  then show "cursor_ok (content_moved cd at c)"
    using ok(1) by (simp add: content_moved_def cursor_ok_def)
  show "snd (set_pos (of_nat at + pattern_size (pmd cd))
      (snd (set_delta (of_nat at + match_delta cd) c))) = content_moved cd at c"
    using d by (simp add: set_pos_def set_delta_def content_moved_def not_less [symmetric])
qed

lemma uniSearchReal_cases:
  assumes "content_wf cd" and "window_ok cd vals c"
  obtains (found) at where "uniSearchReal cd vals c = Some (1, content_moved cd at c)"
      "in_window cd vals c at" "\<And>i. in_window cd vals c i \<Longrightarrow> at \<le> i"
  | (none) r where "uniSearchReal cd vals c = Some (r, c)" "r = 0 \<or> r = - 1"
      "r = - 1 \<longleftrightarrow> content_depth cd vals c < int (length (pattern_buf (pmd cd))) \<and>
         \<not> (is_negated (pmd cd) \<and> 0 < content_depth cd vals c)"
      "\<And>i. \<not> in_window cd vals c i"
proof (cases "content_depth cd vals c < int (length (pattern_buf (pmd cd)))")
  case True
  then have "\<not> in_window cd vals c i" for i by (auto simp: in_window_def)
  then show thesis
    using none [of "if is_negated (pmd cd) \<and> 0 < content_depth cd vals c then 0 else - 1"] True
      content_fits(1) [OF assms]
    by (auto simp: uniSearchReal_def Let_def)
next
  case False
  define pos where "pos = content_pos cd vals c"
  define depth where "depth = content_depth cd vals c"
  have p: "0 \<le> pos" "pos < 2 ^ 31" using content_pos_range [OF assms(2)] by (simp_all add: pos_def)
  have d: "0 \<le> depth" using False by (simp add: depth_def)
  obtain k where k: "pos = int k" using p(1) nonneg_int_cases by blast
  obtain m where m: "depth = int m" using d nonneg_int_cases by blast
  have km: "k + m \<le> length (cur_data c)"
    using content_depth_range(1) [OF assms(2)] k m by (simp add: pos_def depth_def)
  have win: "in_window cd vals c i \<longleftrightarrow>
      k \<le> i \<and> i + length (pattern_buf (pmd cd)) \<le> k + m \<and> content_at cd (cur_data c) i" for i
    using k m by (auto simp: in_window_def pos_def depth_def)
  have u: "uniSearchReal cd vals c =
      (case content_find cd (drop k (cur_data c)) m of
         None \<Rightarrow> None
       | Some found \<Rightarrow>
           if 0 \<le> found then
             Some (1, snd (set_pos (of_int (int k + found) + pattern_size (pmd cd))
               (snd (set_delta (of_int (int k + found) + match_delta cd) c))))
           else Some (0, c))"
    using content_fits(1) [OF assms] False k m
    by (simp add: uniSearchReal_def Let_def pos_def [symmetric] depth_def [symmetric] split: option.split)
  show thesis
  proof (cases rule: content_find_window [OF assms(1) km])
    case (1 r)
    then have w: "in_window cd vals c (k + r)" by (simp add: win)
    have "uniSearchReal cd vals c = Some (1, content_moved cd (k + r) c)"
      using u 1(1) content_moved_ok(4) [OF assms w] by simp
    moreover have "k + r \<le> i" if "in_window cd vals c i" for i
      using that 1(4) [of i] by (auto simp: win not_less [symmetric])
    ultimately show thesis using found w by blast
  next
    case 2
    then have "\<not> in_window cd vals c i" for i by (auto simp: win)
    moreover have "uniSearchReal cd vals c = Some (0, c)" using u 2(1) by simp
    ultimately show thesis using none [of 0] False by auto
  qed
qed

text \<open>
  C13: a content matches exactly when its pattern occurs in the search window, which starts at the
  loop offset or at the cursor or buffer start plus the offset and is cut to the depth; a match
  places the cursor behind the first such occurrence and the loop offset \<open>match_delta\<close> behind
  its start.  A negated content matches exactly when the window is not empty and has no
  occurrence.  The search always returns.
\<close>

theorem content_match:
  assumes "content_wf cd" and "window_ok cd vals c"
  shows "\<exists>st c'. CheckANDPatternMatch cd vals c = Some (st, c') \<and>
    (if is_negated (pmd cd)
     then st = MATCH \<longleftrightarrow> 0 < content_depth cd vals c \<and> (\<forall>i. \<not> in_window cd vals c i)
     else st = MATCH \<longleftrightarrow> (\<exists>i. in_window cd vals c i)) \<and>
    (if \<exists>i. in_window cd vals c i
     then c' = content_moved cd (LEAST i. in_window cd vals c i) c else c' = c)"
proof (cases rule: uniSearchReal_cases [OF assms])
  case (1 at)
  have "(LEAST i. in_window cd vals c i) = at" using 1(2,3) by (rule Least_equality)
  then show ?thesis using 1 by (auto simp: CheckANDPatternMatch_def Let_def)
next
  case (2 r)
  have "0 < content_depth cd vals c"
    if "\<not> content_depth cd vals c < int (length (pattern_buf (pmd cd)))"
  proof -
    have "0 < int (length (pattern_buf (pmd cd)))" using assms(1) by (simp add: content_wf_def)
    then show ?thesis using that by linarith
  qed
  then show ?thesis using 2 by (auto simp: CheckANDPatternMatch_def Let_def)
qed


definition content_example :: content_data where
  "content_example = content_begin
     \<lparr>pmd := \<lparr>pattern_buf = [97, 98], pattern_size = 2, pm_offset = 1, pm_depth = 5, pm_flags = 12,
              fp_offset = 0, fp_length = 0\<rparr>,
      match_delta := 2, skip_stride := make_skip [97, 98], shift_stride := make_shift [97, 98]\<rparr>"

definition content_cursor :: cursor where
  "content_cursor =
     \<lparr>cur_name = ''pkt_data'', cur_data = [97, 98, 120, 120, 97, 98, 120], cur_sz = 7, cur_pos = 0,
      cur_delta = 0\<rparr>"

lemma content_example_wf:
  "content_wf content_example" "window_ok content_example [0, 0, 0] content_cursor"
  "\<not> is_negated (pmd content_example)"
  by (simp_all add: content_wf_def content_example_def window_ok_def content_cursor_def
      cursor_ok_def pmd_is_def pmd_flags content_begin_def cd_init_def var_or_int_def
      extract_constants)

lemma content_example_pos:
  "content_pos content_example [0, 0, 0] content_cursor = 1"
  "content_depth content_example [0, 0, 0] content_cursor = 5"
  by (simp_all add: content_pos_def content_depth_def content_example_def content_cursor_def
      pmd_is_def pmd_flags content_begin_def cd_init_def var_or_int_def extract_constants
      to_int32_def Let_def)

lemma content_example_window: "in_window content_example [0, 0, 0] content_cursor 4"
  unfolding in_window_def content_example_pos
  by (simp add: content_example_def content_cursor_def content_at_def content_norm_def occurs_at_def
      pmd_is_def pmd_flags content_begin_def cd_init_def)

theorem content_match_witness:
  "content_wf content_example \<and> window_ok content_example [0, 0, 0] content_cursor \<and>
   (\<exists>c'. CheckANDPatternMatch content_example [0, 0, 0] content_cursor = Some (MATCH, c'))"
proof -
  have "is_negated (pmd content_example) = False" using content_example_wf(3) by simp
  then show ?thesis
    using content_match [OF content_example_wf(1,2)] content_example_wf content_example_window
    by auto
qed

lemma content_example_eval:
  "\<exists>c'. CheckANDPatternMatch content_example [0, 0, 0] content_cursor = Some (MATCH, c')"
proof (cases rule: uniSearchReal_cases [OF content_example_wf(1,2)])
  case (1 at)
  then show ?thesis using content_example_wf(3) by (simp add: CheckANDPatternMatch_def Let_def)
next
  case (2 r)
  then show ?thesis using content_example_window by blast
qed


section \<open>The jump to the next candidate\<close>

text \<open>\<open>d\<close> is a period of \<open>p\<close>: the pattern shifted by \<open>d\<close> agrees with itself.\<close>

definition period :: "'a list \<Rightarrow> nat \<Rightarrow> bool" where
  "period p d \<longleftrightarrow> (\<forall>k. k + d < length p \<longrightarrow> p ! k = p ! (k + d))"

lemma max_jump_loop_spec:
  assumes "n = length p" and "1 \<le> i" and "i \<le> n" and "j < i" and "\<forall>k < j. p ! k = p ! (i - j + k)"
  shows "1 \<le> max_jump_loop p n i j \<and> max_jump_loop p n i j \<le> n \<and> period p (max_jump_loop p n i j)"
  using assms
proof (induction p n i j rule: max_jump_loop.induct)
  case (1 p n i j)
  show ?case
  proof (cases "i < n")
    case False
    then have "max_jump_loop p n i j = n" by (subst max_jump_loop.simps) simp
    then show ?thesis using "1.prems"(1,2,3) by (simp add: period_def)
  next
    case lt: True
    consider "p ! j \<noteq> p ! i" | "p ! j = p ! i" "i = n - 1" | "p ! j = p ! i" "i \<noteq> n - 1" by blast
    then show ?thesis
    proof cases
      case 1
      then have "max_jump_loop p n i j = max_jump_loop p n (i + 1) 0"
        using lt by (subst max_jump_loop.simps) simp
      then show ?thesis using "1.IH"(1) [OF lt 1] "1.prems"(1) lt by simp
    next
      case 2
      then have e: "max_jump_loop p n i j = n - j - 1"
        using lt by (subst max_jump_loop.simps) simp
      have "p ! k = p ! (k + (n - j - 1))" if "k + (n - j - 1) < n" for k
      proof (cases "k = j")
        case True
        then show ?thesis using 2 "1.prems"(4) lt by simp
      next
        case False
        then have "k < j" using that "1.prems"(4) lt by simp
        then have "p ! k = p ! (i - j + k)" using "1.prems"(5) by blast
        moreover have "i - j + k = k + (n - j - 1)" using 2 "1.prems"(4) by simp
        ultimately show ?thesis by simp
      qed
      then have "period p (n - j - 1)" using "1.prems"(1) by (simp add: period_def)
      then show ?thesis using e 2(2) "1.prems"(1,2,4) lt by simp
    next
      case 3
      then have e: "max_jump_loop p n i j = max_jump_loop p n (i + 1) (j + 1)"
        using lt by (subst max_jump_loop.simps) simp
      have "p ! k = p ! (i + 1 - (j + 1) + k)" if "k < j + 1" for k
      proof (cases "k = j")
        case True
        then show ?thesis using 3(1) "1.prems"(4) by simp
      next
        case False
        then have "k < j" using that by simp
        then show ?thesis using "1.prems"(5) by simp
      qed
      then show ?thesis
        unfolding e using 3 lt "1.prems"(1,4) by (intro "1.IH"(2)) simp_all
    qed
  qed
qed

lemma max_jump_delta:
  assumes "p = pattern_buf (pmd cd)" and "p \<noteq> []" and "length p < 2 ^ 32"
    and "unat (pattern_size (pmd cd)) = length p"
  shows "0 < unat (match_delta (set_max_jump_size cd)) \<and>
         unat (match_delta (set_max_jump_size cd)) \<le> length p \<and>
         period p (unat (match_delta (set_max_jump_size cd)))"
proof -
  have "1 \<le> length p" using assms(2) by (cases p) auto
  then have "1 \<le> max_jump_loop p (length p) 1 0 \<and> max_jump_loop p (length p) 1 0 \<le> length p \<and>
      period p (max_jump_loop p (length p) 1 0)"
    by (intro max_jump_loop_spec) simp_all
  moreover from this have "unat (match_delta (set_max_jump_size cd)) = max_jump_loop p (length p) 1 0"
    using assms by (simp add: set_max_jump_size_def unat_of_nat take_bit_nat_eq_self)
  ultimately show ?thesis by simp
qed

text \<open>
  The jump that \<open>set_max_jump_size\<close> computes is between one and the pattern size, and it is
  a period of the pattern: the next candidate overlaps the match consistently.
\<close>

lemma max_jump_period:
  assumes "pattern_buf (pmd cd) \<noteq> []" and "length (pattern_buf (pmd cd)) < 2 ^ 32"
    and "pattern_size (pmd cd) = of_nat (length (pattern_buf (pmd cd)))"
  shows "0 < unat (match_delta (set_max_jump_size cd)) \<and>
         unat (match_delta (set_max_jump_size cd)) \<le> length (pattern_buf (pmd cd)) \<and>
         period (pattern_buf (pmd cd)) (unat (match_delta (set_max_jump_size cd)))"
  using assms by (intro max_jump_delta) (simp_all add: unat_of_nat take_bit_nat_eq_self)


section \<open>What the parser accepts\<close>

text \<open>What holds of the data while parameters are set.\<close>

definition content_partial :: "content_data \<Rightarrow> bool" where
  "content_partial cd \<longleftrightarrow>
     length (pattern_buf (pmd cd)) < 2 ^ 30 \<and>
     unat (pattern_size (pmd cd)) = length (pattern_buf (pmd cd)) \<and>
     (pattern_buf (pmd cd) \<noteq> [] \<longrightarrow>
        0 < unat (match_delta cd) \<and> unat (match_delta cd) \<le> length (pattern_buf (pmd cd)))"

lemma content_partial_cong:
  assumes "pattern_buf (pmd cd') = pattern_buf (pmd cd)" and "pattern_size (pmd cd') = pattern_size (pmd cd)"
    and "match_delta cd' = match_delta cd"
  shows "content_partial cd' \<longleftrightarrow> content_partial cd"
  using assms by (simp add: content_partial_def)

lemma pbc_step_out:
  "pbc_step s c rest = Some (s', rest') \<Longrightarrow>
     length (pbc_out s') + length rest' \<le> length (pbc_out s) + Suc (length rest)"
  by (auto simp: pbc_step_def pbc_open_def Let_def split: pbc_state.splits if_splits)

lemma pbc_loop_out:
  "pbc_loop s xs = Some s' \<Longrightarrow> length (pbc_out s') \<le> length (pbc_out s) + length xs"
proof (induction s xs rule: pbc_loop.induct)
  case (2 s c rest)
  then obtain s1 r1 where st: "pbc_step s c rest = Some (s1, r1)" and l: "pbc_loop s1 r1 = Some s'"
    by (auto split: option.splits)
  show ?case using 2(1) [OF st _ l] pbc_step_out [OF st] by simp
qed simp

lemma parse_byte_code_out: "parse_byte_code s = Some (neg, out) \<Longrightarrow> length out \<le> length s"
  by (auto simp: parse_byte_code_def split: option.splits dest!: pbc_loop_out)

lemma parse_content_partial:
  assumes "content_partial cd" and "length s < 2 ^ 30"
  shows "content_partial (fst (parse_content s cd))"
proof (cases "parse_byte_code s")
  case None
  then show ?thesis using assms by (simp add: parse_content_def)
next
  case (Some r)
  obtain neg buf where r: "r = (neg, buf)" by (cases r)
  have len: "length buf < 2 ^ 30" using parse_byte_code_out [of s neg buf] Some r assms(2) by simp
  define pm where "pm = (let pm = pmd_set PMD_LITERAL
      ((pmd cd)\<lparr>pattern_buf := buf, pattern_size := of_nat (length buf)\<rparr>)
    in if neg then pmd_set PMD_NEGATED pm else pm)"
  have e: "fst (parse_content s cd) = set_max_jump_size (cd\<lparr>pmd := pm\<rparr>)"
    using Some r by (simp add: parse_content_def pm_def Let_def)
  have f: "pattern_buf pm = buf" "unat (pattern_size pm) = length buf"
    using len by (simp_all add: pm_def pmd_set_def Let_def unat_of_nat take_bit_nat_eq_self)
  have "pmd (set_max_jump_size (cd\<lparr>pmd := pm\<rparr>)) = pm" by (simp add: set_max_jump_size_def)
  then show ?thesis
    using max_jump_delta [of buf "cd\<lparr>pmd := pm\<rparr>"] f len
    by (auto simp: content_partial_def e)
qed

lemma parse_modifiers_partial:
  "content_partial (fst (parse_offset names s cd)) = content_partial cd"
  "content_partial (fst (parse_depth names s cd)) = content_partial cd"
  "content_partial (fst (parse_distance names s cd)) = content_partial cd"
  "content_partial (fst (parse_within names s cd)) = content_partial cd"
  by (rule content_partial_cong;
      simp add: parse_offset_def parse_depth_def parse_distance_def parse_within_def parse_start_def
        parse_length_def set_relative_def pmd_set_def Let_def split: prod.split)+

lemma content_set_partial:
  assumes "content_partial cd" and "length (v_str v) < 2 ^ 30"
  shows "content_partial (fst (snd (content_set names v cd)))"
proof -
  have "length (c_str (v_str v)) \<le> length (v_str v)"
    by (simp add: c_str_def length_takeWhile_le)
  then have "length (c_str (v_str v)) < 2 ^ 30" using assms(2) by simp
  note pc = parse_content_partial [OF assms(1) this]
  have fl: "content_partial (cd\<lparr>pmd := pmd_set f (pmd cd)\<rparr>)"
    "content_partial (cd\<lparr>pmd := pmd_set f ((pmd cd)\<lparr>fp_offset := o1\<rparr>)\<rparr>)"
    "content_partial (cd\<lparr>pmd := pmd_set f ((pmd cd)\<lparr>fp_length := o1\<rparr>)\<rparr>)" for f o1
    using assms(1) by (simp_all add: content_partial_def pmd_set_def)
  show ?thesis
    using pc assms(1) by (simp add: content_set_def Let_def parse_modifiers_partial fl)
qed

lemma content_sets_partial:
  "content_sets names vs cd = Some cd' \<Longrightarrow> content_partial cd \<Longrightarrow>
     \<forall>v \<in> set vs. length (v_str v) < 2 ^ 30 \<Longrightarrow> content_partial cd'"
proof (induction vs arbitrary: cd)
  case (Cons v vs)
  then show ?case using content_set_partial [of cd v names] by (auto split: prod.splits if_splits)
qed simp

text \<open>
  C16: a content that the module accepts, from parameters of any text shorter than 2^30 bytes, has
  a nonempty pattern with matching size, Boyer-Moore tables built for exactly that pattern, a jump
  between one and the pattern size, a fast pattern window inside the pattern, and an upper-cased
  pattern when it ignores case: what the search needs.
\<close>

theorem content_accepted:
  assumes "content_sets names vs content_begin = Some cd" and "content_end cd = (True, cd')"
    and "\<forall>v \<in> set vs. length (v_str v) < 2 ^ 30"
  shows "content_wf cd' \<and>
    unat (fp_offset (pmd cd')) + unat (fp_length (pmd cd')) \<le> length (pattern_buf (pmd cd')) \<and>
    (is_no_case (pmd cd') \<longrightarrow> (\<exists>p. pattern_buf (pmd cd') = map toupper p))"
proof -
  have "content_partial content_begin"
    by (simp add: content_partial_def content_begin_def cd_init_def)
  then have part: "content_partial cd" using content_sets_partial [OF assms(1) _ assms(3)] by blast
  have sz: "sint (pattern_size (pmd cd)) = int (length (pattern_buf (pmd cd)))"
    using part by (subst sint_small) (simp_all add: content_partial_def)
  have u: "uint w = int (unat w)" for w :: u16 by simp
  have i: "\<not> int (length (pattern_buf (pmd cd))) \<le> uint (fp_offset (pmd cd))"
    "\<not> int (length (pattern_buf (pmd cd))) < uint (fp_offset (pmd cd)) + uint (fp_length (pmd cd))"
    using assms(2) sz by (auto simp: content_end_def Let_def split: if_splits)
  have fp: "unat (fp_offset (pmd cd)) < length (pattern_buf (pmd cd))"
    "unat (fp_offset (pmd cd)) + unat (fp_length (pmd cd)) \<le> length (pattern_buf (pmd cd))"
    using i unfolding u by linarith+
  then have ne: "pattern_buf (pmd cd) \<noteq> []" by auto
  have cd': "cd' = setup_bm (if is_no_case (pmd cd)
      then cd\<lparr>pmd := (pmd cd)\<lparr>pattern_buf := map toupper (pattern_buf (pmd cd))\<rparr>\<rparr> else cd)"
    using assms(2) by (auto simp: content_end_def Let_def split: if_splits)
  show ?thesis
    using part ne fp
    by (auto simp: cd' setup_bm_def content_wf_def content_partial_def pmd_is_def)
qed

definition content_values :: "param_value list" where
  "content_values =
     [\<lparr>v_name = ''~data'', v_num = 0, v_str = [34, 97, 124, 54, 50, 124, 34]\<rparr>,
      \<lparr>v_name = ''nocase'', v_num = 0, v_str = []\<rparr>]"

definition content_parsed :: content_data where
  "content_parsed = the (content_sets [] content_values content_begin)"

lemma content_parsed_pattern:
  "content_sets [] content_values content_begin = Some content_parsed"
  "fst (content_end content_parsed)"
proof -
  have c: "c_str [34, 97, 124, 54, 50, 124, 34] = [34, 97, 124, 54, 50, 124, 34]"
    by (simp add: c_str_def)
  have p: "parse_byte_code [34, 97, 124, 54, 50, 124, 34] = Some (False, [97, 98])" by code_simp
  show 1: "content_sets [] content_values content_begin = Some content_parsed"
    by (simp add: content_parsed_def content_values_def content_set_def value_is_def c parse_content_def p)
  show "fst (content_end content_parsed)"
    by (simp add: content_parsed_def content_values_def content_set_def value_is_def c parse_content_def p
        content_end_def set_max_jump_size_def pmd_set_def content_begin_def cd_init_def Let_def)
qed

theorem content_accepted_witness:
  "content_sets [] content_values content_begin = Some content_parsed \<and>
   fst (content_end content_parsed) \<and> list_all (\<lambda>v. length (v_str v) < 2 ^ 30) content_values \<and>
   content_wf (snd (content_end content_parsed))"
proof -
  have e: "content_end content_parsed = (True, snd (content_end content_parsed))"
    using content_parsed_pattern(2) by (metis prod.collapse)
  have l: "\<forall>v \<in> set content_values. length (v_str v) < 2 ^ 30" by (simp add: content_values_def)
  show ?thesis using content_accepted [OF content_parsed_pattern(1) e l] content_parsed_pattern l
    by (simp add: list_all_iff)
qed

end
