(* ===== verification/XHash.thy ===== *)
theory XHash
  imports Hashfcn
begin

unbundle bit_operations_syntax

text \<open>
  The generic hash table of \<^verbatim>\<open>hash/xhash.cc\<close> with its memory cap from \<^verbatim>\<open>utils/sfmemcap.cc\<close>, at
  the level of its pointers.  A node is an address; each pointer field of \<open>XHashNode\<close> is a
  function from addresses, so that the assignments of the source are function updates.  The null
  pointer is \<open>None\<close>.  Loops that follow pointers are partial functions: \<open>None\<close> is a walk that
  never ends.
\<close>

section \<open>Memory cap\<close>

record memcap =
  memused :: u64
  mc_cap :: u64
  nblocks :: u32

definition sfmemcap_init :: "u64 \<Rightarrow> memcap" where
  "sfmemcap_init nbytes = \<lparr>memused = 0, mc_cap = nbytes, nblocks = 0\<rparr>"

text \<open>Eight bytes in front of each block hold its size.  \<open>None\<close> is the null pointer.\<close>

definition sfmemcap_alloc :: "u64 \<Rightarrow> memcap \<Rightarrow> memcap option" where
  "sfmemcap_alloc nbytes mc =
     (let n = nbytes + 8
      in if 0 < mc_cap mc \<and> mc_cap mc < memused mc + n then None
         else Some (mc\<lparr>memused := memused mc + n, nblocks := nblocks mc + 1\<rparr>))"

text \<open>The size that is read back is cut to 32 bits.\<close>

definition sfmemcap_free :: "u64 \<Rightarrow> memcap \<Rightarrow> memcap" where
  "sfmemcap_free nbytes mc =
     mc\<lparr>memused := memused mc - ucast (ucast (nbytes + 8) :: u32), nblocks := nblocks mc - 1\<rparr>"

section \<open>The table\<close>

type_synonym ptr = "nat option"

text \<open>
  The key operations are the two function pointers of \<open>hashfcn\<close>; \<open>keycmp\<close> is true when the C
  function returns 0.  The user's data is a pointer, or with a nonzero \<open>datasize\<close> a block inside
  the node, whose contents \<open>zero\<close> after allocation.  \<open>released\<close> records the calls of \<open>usrfree\<close>.
\<close>

record ('k, 'd) xhash =
  hash_fcn :: "'k \<Rightarrow> u32"
  keycmp_fcn :: "'k \<Rightarrow> 'k \<Rightarrow> bool"
  keysize :: int
  datasize :: int
  zero_data :: 'd
  tbl :: "nat \<Rightarrow> ptr"
  nrows :: u32
  xcount :: u32
  crow :: u32
  cnode :: ptr
  splay :: int
  max_nodes :: u32
  mc :: memcap
  overhead_bytes :: u32
  overhead_blocks :: u32
  find_fail :: u32
  find_success :: u32
  ghead :: ptr
  gtail :: ptr
  fhead :: ptr
  ftail :: ptr
  gnode :: ptr
  recycle_nodes :: bool
  anr_tries :: u32
  anr_count :: u32
  anr_flag :: bool
  anrfree :: "('k \<Rightarrow> 'd option \<Rightarrow> bool) option"
  usrfree :: bool
  gnext :: "nat \<Rightarrow> ptr"
  gprev :: "nat \<Rightarrow> ptr"
  rnext :: "nat \<Rightarrow> ptr"
  rprev :: "nat \<Rightarrow> ptr"
  rindex :: "nat \<Rightarrow> nat"
  nkey :: "nat \<Rightarrow> 'k"
  ndata :: "nat \<Rightarrow> 'd option"
  fresh :: nat
  released :: "('k \<times> 'd option) list"

text \<open>\<open>p->f = v\<close> for a pointer that may be null.\<close>

definition upd :: "(nat \<Rightarrow> 'a) \<Rightarrow> ptr \<Rightarrow> 'a \<Rightarrow> nat \<Rightarrow> 'a" where
  "upd f p v = (case p of None \<Rightarrow> f | Some n \<Rightarrow> f(n := v))"

definition xhash_nearest_powerof2 :: "u32 \<Rightarrow> u32" where
  "xhash_nearest_powerof2 nr =
     fold (\<lambda>i n. n OR drop_bit i n) [1, 2, 4, 8, 16] (nr - 1) + 1"

definition node_bytes :: "('k, 'd) xhash \<Rightarrow> u64" where
  "node_bytes t = word_of_int (to_int32 (56 + keysize t + datasize t))"

text \<open>
  \<open>xhash_new\<close>: the random parameters of the default hash function and the heap are arguments
  (through \<open>hash\<close>, \<open>cmp\<close>, and the base table \<open>h\<close> that \<open>calloc\<close> returns, of which only the
  fields are read that the source does not set).
\<close>

definition xhash_new ::
    "('k, 'd) xhash \<Rightarrow> ('k \<Rightarrow> u32) \<Rightarrow> ('k \<Rightarrow> 'k \<Rightarrow> bool) \<Rightarrow> int \<Rightarrow> int \<Rightarrow> int \<Rightarrow> u64 \<Rightarrow> bool \<Rightarrow>
      ('k \<Rightarrow> 'd option \<Rightarrow> bool) option \<Rightarrow> bool \<Rightarrow> bool \<Rightarrow> ('k, 'd) xhash option" where
  "xhash_new h hash cmp nrows0 ksize dsize maxmem anr anrf usrf recycle =
     (let nr = (if 0 < nrows0 then xhash_nearest_powerof2 (word_of_int nrows0)
                else word_of_int (- nrows0))
      in case sfmemcap_alloc (8 * ucast nr) (sfmemcap_init maxmem) of
           None \<Rightarrow> None
         | Some m \<Rightarrow> Some (h\<lparr>hash_fcn := hash, keycmp_fcn := cmp, mc := m, tbl := (\<lambda>_. None),
             anrfree := anrf, usrfree := usrf, keysize := ksize, datasize := dsize, nrows := nr,
             max_nodes := 0, crow := 0, cnode := None, xcount := 0, ghead := None, gtail := None,
             anr_count := 0, anr_tries := 0, anr_flag := anr, splay := 1,
             recycle_nodes := recycle, find_success := 0, find_fail := 0,
             overhead_bytes := ucast (memused m), overhead_blocks := nblocks m,
             fhead := None, ftail := None, gnode := None, released := []\<rparr>))"

definition xhash_set_max_nodes :: "('k, 'd) xhash \<Rightarrow> u32 \<Rightarrow> ('k, 'd) xhash" where
  "xhash_set_max_nodes h n = h\<lparr>max_nodes := n\<rparr>"

section \<open>The linked lists\<close>

definition xhash_save_free_node :: "('k, 'd) xhash \<Rightarrow> nat \<Rightarrow> ('k, 'd) xhash" where
  "xhash_save_free_node t n =
     (case fhead t of
        Some f \<Rightarrow> t\<lparr>gprev := ((gprev t)(n := None))(f := Some n), gnext := (gnext t)(n := Some f),
                    fhead := Some n\<rparr>
      | None \<Rightarrow> t\<lparr>gprev := (gprev t)(n := None), gnext := (gnext t)(n := None),
                  fhead := Some n, ftail := Some n\<rparr>)"

definition xhash_get_free_node :: "('k, 'd) xhash \<Rightarrow> ('k, 'd) xhash \<times> ptr" where
  "xhash_get_free_node t =
     (case fhead t of
        None \<Rightarrow> (t, None)
      | Some n \<Rightarrow>
          let t1 = t\<lparr>fhead := gnext t n\<rparr>;
              t2 = t1\<lparr>gprev := upd (gprev t1) (fhead t1) None\<rparr>;
              t3 = (if ftail t2 = Some n then t2\<lparr>ftail := None\<rparr> else t2)
          in (t3, Some n))"

definition xhash_glink_node :: "('k, 'd) xhash \<Rightarrow> nat \<Rightarrow> ('k, 'd) xhash" where
  "xhash_glink_node t n =
     (case ghead t of
        Some g \<Rightarrow> t\<lparr>gprev := ((gprev t)(n := None))(g := Some n), gnext := (gnext t)(n := Some g),
                    ghead := Some n\<rparr>
      | None \<Rightarrow> t\<lparr>gprev := (gprev t)(n := None), gnext := (gnext t)(n := None),
                  ghead := Some n, gtail := Some n\<rparr>)"

definition xhash_gunlink_node :: "('k, 'd) xhash \<Rightarrow> nat \<Rightarrow> ('k, 'd) xhash" where
  "xhash_gunlink_node t n =
     (let gnode' = (if gnode t = Some n then gnext t n else gnode t);
          ghead' = (if ghead t = Some n then gnext t n else ghead t);
          gprev' = (if ghead t = Some n then upd (gprev t) ghead' None else gprev t);
          gnext' = upd (gnext t) (gprev' n) (gnext t n);
          gprev'' = upd gprev' (gnext' n) (gprev' n);
          gtail' = (if gtail t = Some n then gprev'' n else gtail t)
      in t\<lparr>gnode := gnode', ghead := ghead', gnext := gnext', gprev := gprev'', gtail := gtail'\<rparr>)"

definition xhash_gmovetofront :: "('k, 'd) xhash \<Rightarrow> nat \<Rightarrow> ('k, 'd) xhash" where
  "xhash_gmovetofront t n =
     (if Some n \<noteq> ghead t then xhash_glink_node (xhash_gunlink_node t n) n else t)"

definition xhash_link_node :: "('k, 'd) xhash \<Rightarrow> nat \<Rightarrow> ('k, 'd) xhash" where
  "xhash_link_node t n =
     (case tbl t (rindex t n) of
        Some r \<Rightarrow> t\<lparr>rprev := ((rprev t)(n := None))(r := Some n), rnext := (rnext t)(n := Some r),
                    tbl := (tbl t)(rindex t n := Some n)\<rparr>
      | None \<Rightarrow> t\<lparr>rprev := (rprev t)(n := None), rnext := (rnext t)(n := None),
                  tbl := (tbl t)(rindex t n := Some n)\<rparr>)"

definition xhash_unlink_node :: "('k, 'd) xhash \<Rightarrow> nat \<Rightarrow> ('k, 'd) xhash" where
  "xhash_unlink_node t n =
     (case rprev t n of
        Some p \<Rightarrow>
          let t1 = t\<lparr>rnext := (rnext t)(p := rnext t n)\<rparr>
          in t1\<lparr>rprev := upd (rprev t1) (rnext t1 n) (rprev t1 n)\<rparr>
      | None \<Rightarrow>
          (case tbl t (rindex t n) of
             None \<Rightarrow> t
           | Some r \<Rightarrow>
               let t1 = t\<lparr>tbl := (tbl t)(rindex t n := rnext t r)\<rparr>
               in t1\<lparr>rprev := upd (rprev t1) (tbl t1 (rindex t n)) None\<rparr>))"

definition movetofront :: "('k, 'd) xhash \<Rightarrow> nat \<Rightarrow> ('k, 'd) xhash" where
  "movetofront t n =
     (let t1 = (if tbl t (rindex t n) \<noteq> Some n then xhash_link_node (xhash_unlink_node t n) n else t);
          t2 = (if Some n = gnode t1 then t1\<lparr>gnode := gnext t1 n\<rparr> else t1)
      in xhash_gmovetofront t2 n)"

section \<open>Nodes\<close>

definition alloc_node :: "('k, 'd) xhash \<Rightarrow> ('k, 'd) xhash \<times> ptr" where
  "alloc_node t =
     (if max_nodes t = 0 \<or> xcount t < max_nodes t then
        (case sfmemcap_alloc (node_bytes t) (mc t) of
           None \<Rightarrow> (t, None)
         | Some m \<Rightarrow>
             (t\<lparr>mc := m, fresh := fresh t + 1,
                ndata := (ndata t)(fresh t := (if datasize t \<noteq> 0 then Some (zero_data t) else None))\<rparr>,
              Some (fresh t)))
      else (t, None))"

text \<open>The walk from the oldest node to the first one that the user lets go.\<close>

partial_function (option) anr_walk ::
    "('k, 'd) xhash \<Rightarrow> ptr \<Rightarrow> (('k, 'd) xhash \<times> ptr) option" where
  "anr_walk t p =
     (case p of
        None \<Rightarrow> Some (t, None)
      | Some n \<Rightarrow>
          (case anrfree t of
             Some refuses \<Rightarrow>
               if refuses (nkey t n) (ndata t n)
               then anr_walk (t\<lparr>anr_tries := anr_tries t + 1\<rparr>) (gprev t n)
               else Some (t\<lparr>anr_tries := anr_tries t + 1\<rparr>, Some n)
           | None \<Rightarrow> Some (t, Some n)))"

definition anr_unlink :: "('k, 'd) xhash \<Rightarrow> nat \<Rightarrow> ('k, 'd) xhash" where
  "anr_unlink t n =
     (let t1 = xhash_unlink_node (xhash_gunlink_node t n) n
      in t1\<lparr>xcount := xcount t1 - 1, anr_count := anr_count t1 + 1\<rparr>)"

definition xhash_newnode :: "('k, 'd) xhash \<Rightarrow> (('k, 'd) xhash \<times> ptr) option" where
  "xhash_newnode t =
     (case xhash_get_free_node t of
        (t1, Some n) \<Rightarrow> Some (t1, Some n)
      | (t1, None) \<Rightarrow>
          (case alloc_node t1 of
             (t2, Some n) \<Rightarrow> Some (t2, Some n)
           | (t2, None) \<Rightarrow>
               if anr_flag t2 \<and> gtail t2 \<noteq> None then
                 (case anr_walk t2 (gtail t2) of
                    None \<Rightarrow> None
                  | Some (t3, None) \<Rightarrow> Some (t3, None)
                  | Some (t3, Some n) \<Rightarrow> Some (anr_unlink t3 n, Some n))
               else Some (t2, None)))"

section \<open>Finding, adding, removing\<close>

definition row_of :: "('k, 'd) xhash \<Rightarrow> 'k \<Rightarrow> nat" where
  "row_of t k = unat (hash_fcn t k AND (nrows t - 1))"

partial_function (option) row_walk :: "('k, 'd) xhash \<Rightarrow> 'k \<Rightarrow> ptr \<Rightarrow> ptr option" where
  "row_walk t k p =
     (case p of
        None \<Rightarrow> Some None
      | Some n \<Rightarrow> if keycmp_fcn t (nkey t n) k then Some (Some n) else row_walk t k (rnext t n))"

definition xhash_find_node_row ::
    "('k, 'd) xhash \<Rightarrow> 'k \<Rightarrow> (('k, 'd) xhash \<times> ptr \<times> nat) option" where
  "xhash_find_node_row t k =
     (case row_walk t k (tbl t (row_of t k)) of
        None \<Rightarrow> None
      | Some (Some n) \<Rightarrow>
          let t1 = (if 0 < splay t then movetofront t n else t)
          in Some (t1\<lparr>find_success := find_success t1 + 1\<rparr>, Some n, row_of t k)
      | Some None \<Rightarrow> Some (t\<lparr>find_fail := find_fail t + 1\<rparr>, None, row_of t k))"

text \<open>The common end of \<open>xhash_add_ex\<close> and \<open>xhash_get_node\<close>: the new node is linked in front.\<close>

definition link_new :: "('k, 'd) xhash \<Rightarrow> nat \<Rightarrow> ('k, 'd) xhash" where
  "link_new t n =
     (let t1 = xhash_glink_node (xhash_link_node t n) n in t1\<lparr>xcount := xcount t1 + 1\<rparr>)"

datatype xhash_result = XHASH_NOMEM | XHASH_ERR | XHASH_OK | XHASH_INTABLE

text \<open>The second result is \<open>data_ptr\<close>, \<open>None\<close> when it is not assigned.\<close>

definition xhash_add_ex ::
    "('k, 'd) xhash \<Rightarrow> 'k \<Rightarrow> 'd option \<Rightarrow>
      (('k, 'd) xhash \<times> xhash_result \<times> 'd option option) option" where
  "xhash_add_ex t k d =
     (case xhash_find_node_row t k of
        None \<Rightarrow> None
      | Some (t1, Some n, index) \<Rightarrow>
          Some (t1\<lparr>cnode := Some n\<rparr>, XHASH_INTABLE, Some (ndata t1 n))
      | Some (t1, None, index) \<Rightarrow>
          (case xhash_newnode t1 of
             None \<Rightarrow> None
           | Some (t2, None) \<Rightarrow> Some (t2, XHASH_NOMEM, None)
           | Some (t2, Some n) \<Rightarrow>
               let t3 = t2\<lparr>nkey := (nkey t2)(n := k), rindex := (rindex t2)(n := index)\<rparr>;
                   t4 = (if datasize t3 \<noteq> 0
                         then (if d = None then t3 else t3\<lparr>ndata := (ndata t3)(n := d)\<rparr>)
                         else t3\<lparr>ndata := (ndata t3)(n := d)\<rparr>)
               in Some (link_new t4 n, XHASH_OK, if datasize t4 \<noteq> 0 then Some (ndata t4 n) else None)))"

definition xhash_add ::
    "('k, 'd) xhash \<Rightarrow> 'k \<Rightarrow> 'd option \<Rightarrow> (('k, 'd) xhash \<times> xhash_result) option" where
  "xhash_add t k d = map_option (\<lambda>(t', r, p). (t', r)) (xhash_add_ex t k d)"

definition xhash_get_node :: "('k, 'd) xhash \<Rightarrow> 'k \<Rightarrow> (('k, 'd) xhash \<times> ptr) option" where
  "xhash_get_node t k =
     (case xhash_find_node_row t k of
        None \<Rightarrow> None
      | Some (t1, Some n, index) \<Rightarrow> Some (t1\<lparr>cnode := Some n\<rparr>, Some n)
      | Some (t1, None, index) \<Rightarrow>
          (case xhash_newnode t1 of
             None \<Rightarrow> None
           | Some (t2, None) \<Rightarrow> Some (t2, None)
           | Some (t2, Some n) \<Rightarrow>
               let t3 = t2\<lparr>nkey := (nkey t2)(n := k), rindex := (rindex t2)(n := index)\<rparr>;
                   t4 = (if datasize t3 \<noteq> 0 then t3 else t3\<lparr>ndata := (ndata t3)(n := None)\<rparr>)
               in Some (link_new t4 n, Some n)))"

definition xhash_find_node :: "('k, 'd) xhash \<Rightarrow> 'k \<Rightarrow> (('k, 'd) xhash \<times> ptr) option" where
  "xhash_find_node t k = map_option (\<lambda>(t', n, i). (t', n)) (xhash_find_node_row t k)"

definition xhash_find :: "('k, 'd) xhash \<Rightarrow> 'k \<Rightarrow> (('k, 'd) xhash \<times> 'd option) option" where
  "xhash_find t k =
     map_option (\<lambda>(t', n, i). (t', case n of Some n \<Rightarrow> ndata t' n | None \<Rightarrow> None))
       (xhash_find_node_row t k)"

definition xhash_ghead :: "('k, 'd) xhash \<Rightarrow> ptr" where
  "xhash_ghead t = ghead t"

definition xhash_gfindnext :: "('k, 'd) xhash \<Rightarrow> ('k, 'd) xhash \<times> ptr" where
  "xhash_gfindnext t =
     (case gnode t of Some n \<Rightarrow> (t\<lparr>gnode := gnext t n\<rparr>, Some n) | None \<Rightarrow> (t, None))"

definition xhash_gfindfirst :: "('k, 'd) xhash \<Rightarrow> ('k, 'd) xhash \<times> ptr" where
  "xhash_gfindfirst t =
     (t\<lparr>gnode := (case ghead t of Some n \<Rightarrow> gnext t n | None \<Rightarrow> None)\<rparr>, ghead t)"

definition xhash_mru :: "('k, 'd) xhash \<Rightarrow> 'd option" where
  "xhash_mru t = (case xhash_ghead t of Some n \<Rightarrow> ndata t n | None \<Rightarrow> None)"

definition xhash_lru :: "('k, 'd) xhash \<Rightarrow> 'd option" where
  "xhash_lru t = (case gtail t of Some n \<Rightarrow> ndata t n | None \<Rightarrow> None)"

definition xhash_free_node :: "('k, 'd) xhash \<Rightarrow> nat \<Rightarrow> ('k, 'd) xhash" where
  "xhash_free_node t n =
     (let t1 = xhash_gunlink_node (xhash_unlink_node t n) n;
          t2 = t1\<lparr>xcount := xcount t1 - 1\<rparr>;
          t3 = (if usrfree t2 then t2\<lparr>released := released t2 @ [(nkey t2 n, ndata t2 n)]\<rparr> else t2)
      in if recycle_nodes t3 then xhash_save_free_node t3 n
         else t3\<lparr>mc := sfmemcap_free (node_bytes t3) (mc t3)\<rparr>)"

definition xhash_remove :: "('k, 'd) xhash \<Rightarrow> 'k \<Rightarrow> (('k, 'd) xhash \<times> xhash_result) option" where
  "xhash_remove t k =
     (case row_walk t k (tbl t (row_of t k)) of
        None \<Rightarrow> None
      | Some (Some n) \<Rightarrow> Some (xhash_free_node t n, XHASH_OK)
      | Some None \<Rightarrow> Some (t, XHASH_ERR))"

section \<open>Walking the rows\<close>

lemma unat_inc: "r < (n :: u32) \<Longrightarrow> unat (r + 1) = unat r + 1"
proof -
  assume "r < n"
  then have "unat r + 1 \<le> unat n" by (simp add: word_less_nat_alt)
  also have "unat n < 2 ^ 32" using unsigned_less [of n] by simp
  finally show ?thesis by (subst unat_add_nowrap) simp_all
qed

text \<open>From row \<open>r\<close> on, the first row that is not empty: the loops over \<open>crow\<close>.\<close>

function next_row :: "('k, 'd) xhash \<Rightarrow> u32 \<Rightarrow> u32 \<times> ptr" where
  "next_row t r =
     (if r < nrows t then
        (case tbl t (unat r) of Some n \<Rightarrow> (r, Some n) | None \<Rightarrow> next_row t (r + 1))
      else (r, None))"
  by pat_completeness auto
termination
  by (relation "measure (\<lambda>(t, r). unat (nrows t) - unat r)")
    (auto simp: unat_inc word_less_nat_alt)

declare next_row.simps [simp del]

definition xhash_next :: "('k, 'd) xhash \<Rightarrow> ('k, 'd) xhash" where
  "xhash_next t =
     (case cnode t of
        None \<Rightarrow> t
      | Some n \<Rightarrow>
          (case rnext t n of
             Some m \<Rightarrow> t\<lparr>cnode := Some m\<rparr>
           | None \<Rightarrow>
               (case next_row t (crow t + 1) of (r, p) \<Rightarrow> t\<lparr>crow := r, cnode := p\<rparr>)))"

definition xhash_findfirst :: "('k, 'd) xhash \<Rightarrow> ('k, 'd) xhash \<times> ptr" where
  "xhash_findfirst t =
     (case next_row t 0 of
        (r, None) \<Rightarrow> (t\<lparr>crow := r, cnode := (if nrows t = 0 then cnode t else None)\<rparr>, None)
      | (r, Some n) \<Rightarrow> (xhash_next (t\<lparr>crow := r, cnode := Some n\<rparr>), Some n))"

definition xhash_findnext :: "('k, 'd) xhash \<Rightarrow> ('k, 'd) xhash \<times> ptr" where
  "xhash_findnext t = (case cnode t of None \<Rightarrow> (t, None) | Some n \<Rightarrow> (xhash_next t, Some n))"

text \<open>Emptying a row; the walk reads \<open>next\<close> before it frees the node.\<close>

partial_function (option) free_row :: "('k, 'd) xhash \<Rightarrow> ptr \<Rightarrow> ('k, 'd) xhash option" where
  "free_row t p =
     (case p of None \<Rightarrow> Some t | Some n \<Rightarrow> free_row (xhash_free_node t n) (rnext t n))"

fun free_rows :: "('k, 'd) xhash \<Rightarrow> nat list \<Rightarrow> ('k, 'd) xhash option" where
  "free_rows t [] = Some t"
| "free_rows t (i # is) =
     (case free_row t (tbl t i) of None \<Rightarrow> None | Some t1 \<Rightarrow> free_rows t1 is)"

definition xhash_make_empty :: "('k, 'd) xhash \<Rightarrow> ('k, 'd) xhash option" where
  "xhash_make_empty h =
     map_option (\<lambda>t. t\<lparr>max_nodes := 0, crow := 0, cnode := None, xcount := 0, ghead := None,
       gtail := None, anr_count := 0, anr_tries := 0, find_success := 0, find_fail := 0\<rparr>)
       (free_rows h [0..<unat (nrows h)])"

text \<open>
  \<open>xhash_delete\<close> tells the user about every node and returns all memory: what is left in the
  table is the memory count and the calls of \<open>usrfree\<close>.
\<close>

definition delete_node :: "('k, 'd) xhash \<Rightarrow> nat \<Rightarrow> ('k, 'd) xhash" where
  "delete_node t n =
     (let t1 = (if usrfree t then t\<lparr>released := released t @ [(nkey t n, ndata t n)]\<rparr> else t)
      in t1\<lparr>mc := sfmemcap_free (node_bytes t1) (mc t1)\<rparr>)"

partial_function (option) delete_row :: "('k, 'd) xhash \<Rightarrow> ptr \<Rightarrow> ('k, 'd) xhash option" where
  "delete_row t p =
     (case p of None \<Rightarrow> Some t | Some n \<Rightarrow> delete_row (delete_node t n) (rnext t n))"

fun delete_rows :: "('k, 'd) xhash \<Rightarrow> nat list \<Rightarrow> ('k, 'd) xhash option" where
  "delete_rows t [] = Some t"
| "delete_rows t (i # is) =
     (case delete_row t (tbl t i) of None \<Rightarrow> None | Some t1 \<Rightarrow> delete_rows t1 is)"

partial_function (option) delete_free_list ::
    "('k, 'd) xhash \<Rightarrow> ptr \<Rightarrow> ('k, 'd) xhash option" where
  "delete_free_list t p =
     (case p of
        None \<Rightarrow> Some t
      | Some n \<Rightarrow>
          delete_free_list (t\<lparr>mc := sfmemcap_free (node_bytes t) (mc t)\<rparr>) (gnext t n))"

definition xhash_delete_free_list :: "('k, 'd) xhash \<Rightarrow> ('k, 'd) xhash option" where
  "xhash_delete_free_list t =
     (if fhead t = None then Some t
      else map_option (\<lambda>t. t\<lparr>fhead := None, ftail := None\<rparr>) (delete_free_list t (fhead t)))"

definition xhash_delete :: "('k, 'd) xhash \<Rightarrow> ('k, 'd) xhash option" where
  "xhash_delete h =
     (case delete_rows h [0..<unat (nrows h)] of
        None \<Rightarrow> None
      | Some t \<Rightarrow>
          xhash_delete_free_list
            (t\<lparr>mc := sfmemcap_free (8 * ucast (nrows t)) (mc t), tbl := (\<lambda>_. None)\<rparr>))"

section \<open>Doubly linked lists\<close>

text \<open>
  \<open>chain nx pv p xs q\<close>: the nodes \<open>xs\<close> are linked in this order by \<open>nx\<close> and \<open>pv\<close>; the first one
  points back to \<open>p\<close> and the last one on to \<open>q\<close>.
\<close>

definition first_or :: "nat list \<Rightarrow> ptr \<Rightarrow> ptr" where
  "first_or xs q = (case xs of [] \<Rightarrow> q | x # _ \<Rightarrow> Some x)"

definition last_or :: "ptr \<Rightarrow> nat list \<Rightarrow> ptr" where
  "last_or p xs = (if xs = [] then p else Some (last xs))"

lemma first_or_simps [simp]:
  "first_or [] q = q" "first_or (x # xs) q = Some x"
  "first_or (xs @ ys) q = first_or xs (first_or ys q)"
  by (auto simp: first_or_def split: list.split)

lemma last_or_simps [simp]:
  "last_or p [] = p" "last_or p (xs @ [x]) = Some x" "last_or p (x # xs) = last_or (Some x) xs"
  "last_or p (xs @ ys) = last_or (last_or p xs) ys"
  by (auto simp: last_or_def)

lemma first_or_hd: "xs \<noteq> [] \<Longrightarrow> first_or xs q = Some (hd xs)"
  by (simp add: first_or_def split: list.split)

fun chain :: "(nat \<Rightarrow> ptr) \<Rightarrow> (nat \<Rightarrow> ptr) \<Rightarrow> ptr \<Rightarrow> nat list \<Rightarrow> ptr \<Rightarrow> bool" where
  "chain nx pv p [] q \<longleftrightarrow> True"
| "chain nx pv p (n # ns) q \<longleftrightarrow> pv n = p \<and> nx n = first_or ns q \<and> chain nx pv (Some n) ns q"

lemma chain_append [simp]:
  "chain nx pv p (xs @ ys) q \<longleftrightarrow>
     chain nx pv p xs (first_or ys q) \<and> chain nx pv (last_or p xs) ys q"
  by (induction xs arbitrary: p) auto

lemma chain_frame:
  assumes "\<forall>x \<in> set xs. nx' x = nx x \<and> pv' x = pv x"
  shows "chain nx' pv' p xs q \<longleftrightarrow> chain nx pv p xs q"
  using assms by (induction xs arbitrary: p) auto

lemma chain_set_end:
  assumes "distinct xs" and "chain nx pv p xs q"
  shows "chain (upd nx (last_or None xs) r) pv p xs r"
proof (cases xs rule: rev_cases)
  case Nil
  then show ?thesis by simp
next
  case (snoc ys y)
  have "chain (nx(y := r)) pv p ys (Some y) = chain nx pv p ys (Some y)"
    using assms(1) snoc by (intro chain_frame) auto
  then show ?thesis using assms snoc by (simp add: upd_def)
qed

lemma chain_set_begin:
  assumes "distinct xs" and "chain nx pv p xs q"
  shows "chain nx (upd pv (first_or xs None) r) r xs q"
proof (cases xs)
  case Nil
  then show ?thesis by simp
next
  case (Cons y ys)
  have "chain nx (pv(y := r)) (Some y) ys q = chain nx pv (Some y) ys q"
    using assms(1) Cons by (intro chain_frame) auto
  then show ?thesis using assms Cons by (simp add: upd_def)
qed

definition dll :: "(nat \<Rightarrow> ptr) \<Rightarrow> (nat \<Rightarrow> ptr) \<Rightarrow> ptr \<Rightarrow> nat list \<Rightarrow> bool" where
  "dll nx pv h xs \<longleftrightarrow> distinct xs \<and> h = first_or xs None \<and> chain nx pv None xs None"

lemma dll_frame:
  assumes "\<forall>x \<in> set xs. nx' x = nx x \<and> pv' x = pv x"
  shows "dll nx' pv' h xs \<longleftrightarrow> dll nx pv h xs"
  using chain_frame [OF assms] by (simp add: dll_def)

text \<open>Linking a node in front, and taking one out of the middle.\<close>

lemma dll_push:
  assumes "dll nx pv h xs" and "n \<notin> set xs"
  shows "dll (nx(n := h)) (upd (pv(n := None)) h (Some n)) (Some n) (n # xs)"
proof -
  let ?nx = "nx(n := h)" and ?pv = "upd (pv(n := None)) h (Some n)"
  have h: "h = first_or xs None" using assms(1) by (simp add: dll_def)
  have "chain ?nx (pv(n := None)) None xs None"
    using assms by (subst chain_frame [of xs _ nx _ pv]) (auto simp: dll_def)
  then have "chain ?nx ?pv (Some n) xs None"
    using assms(1) unfolding h by (intro chain_set_begin) (auto simp: dll_def)
  moreover have "?pv n = None"
    using assms h by (cases xs) (auto simp: upd_def)
  ultimately show ?thesis using assms h by (simp add: dll_def)
qed

lemma dll_remove:
  assumes "dll nx pv h (ys @ n # zs)"
  shows "dll (upd nx (pv n) (nx n)) (upd pv (nx n) (pv n)) (first_or (ys @ zs) None) (ys @ zs)"
proof -
  have d: "distinct (ys @ zs)" "n \<notin> set ys" "n \<notin> set zs" and c: "chain nx pv None (ys @ n # zs) None"
    using assms by (auto simp: dll_def)
  have pn: "pv n = last_or None ys" and nn: "nx n = first_or zs None" using c by auto
  let ?nx = "upd nx (pv n) (nx n)" and ?pv = "upd pv (nx n) (pv n)"
  have "chain ?nx pv None ys (nx n)"
    unfolding pn using c d by (intro chain_set_end [where q = "Some n"]) auto
  then have 1: "chain ?nx ?pv None ys (nx n)"
    using d by (subst chain_frame [of ys _ ?nx _ pv])
      (auto simp: nn upd_def first_or_def split: list.splits)
  have "chain nx ?pv (pv n) zs None"
    unfolding nn using c d by (intro chain_set_begin [where p = "Some n"]) auto
  then have 2: "chain ?nx ?pv (pv n) zs None"
    using d by (subst chain_frame [of zs _ nx _ ?pv])
      (auto simp: pn upd_def last_or_def dest: last_in_set)
  show ?thesis using 1 2 d by (simp add: dll_def pn nn)
qed

text \<open>The rows of the table: one list per row, of the nodes that carry its index.\<close>

definition rows_ok ::
    "(nat \<Rightarrow> ptr) \<Rightarrow> (nat \<Rightarrow> ptr) \<Rightarrow> (nat \<Rightarrow> ptr) \<Rightarrow> (nat \<Rightarrow> nat) \<Rightarrow> nat \<Rightarrow> (nat \<Rightarrow> nat list) \<Rightarrow> bool" where
  "rows_ok nx pv tb rix N R \<longleftrightarrow> (\<forall>i < N. dll nx pv (tb i) (R i) \<and> (\<forall>n \<in> set (R i). rix n = i))"

lemma rows_remove:
  assumes "rows_ok nx pv tb rix N R" and "i < N" and "R i = ys @ n # zs"
  shows "rows_ok (upd nx (pv n) (nx n)) (upd pv (nx n) (pv n)) (tb(i := first_or (ys @ zs) None)) rix N
    (R(i := ys @ zs))"
  unfolding rows_ok_def
proof (intro allI impI)
  fix j assume j: "j < N"
  have di: "dll nx pv (tb i) (ys @ n # zs)" and ri: "\<forall>n \<in> set (ys @ n # zs). rix n = i"
    using assms by (auto simp: rows_ok_def)
  have pn: "pv n = last_or None ys" and nn: "nx n = first_or zs None"
    using di by (auto simp: dll_def)
  have "dll (upd nx (pv n) (nx n)) (upd pv (nx n) (pv n)) (tb j) (R j)" if ji: "j \<noteq> i"
  proof -
    have dj: "dll nx pv (tb j) (R j)" and "\<forall>x \<in> set (R j). rix x \<noteq> i"
      using assms(1) j ji by (auto simp: rows_ok_def)
    then have nj: "last_or None ys \<noteq> Some x \<and> first_or zs None \<noteq> Some x" if "x \<in> set (R j)" for x
      using that ri by (auto simp: last_or_def first_or_def split: list.splits dest: last_in_set)
    show ?thesis
      using nj dj by (subst dll_frame [of _ _ nx _ pv]) (auto simp: pn nn upd_def split: option.split)
  qed
  then show "dll (upd nx (pv n) (nx n)) (upd pv (nx n) (pv n)) ((tb(i := first_or (ys @ zs) None)) j)
      ((R(i := ys @ zs)) j) \<and> (\<forall>n \<in> set ((R(i := ys @ zs)) j). rix n = j)"
    using dll_remove [OF di] ri assms(1) j by (auto simp: rows_ok_def)
qed

lemma rows_push:
  assumes "rows_ok nx pv tb rix N R" and "i < N" and "n \<notin> set (R i)" and "rix n = i"
  shows "rows_ok (nx(n := tb i)) (upd (pv(n := None)) (tb i) (Some n)) (tb(i := Some n)) rix N
    (R(i := n # R i))"
  unfolding rows_ok_def
proof (intro allI impI)
  fix j assume j: "j < N"
  have di: "dll nx pv (tb i) (R i)" and ri: "\<forall>n \<in> set (R i). rix n = i"
    using assms by (auto simp: rows_ok_def)
  have h: "tb i = first_or (R i) None" using di by (simp add: dll_def)
  have "dll (nx(n := tb i)) (upd (pv(n := None)) (tb i) (Some n)) (tb j) (R j)" if ji: "j \<noteq> i"
  proof -
    have dj: "dll nx pv (tb j) (R j)" and "\<forall>x \<in> set (R j). rix x \<noteq> i"
      using assms(1) j ji by (auto simp: rows_ok_def)
    then have nj: "x \<noteq> n \<and> first_or (R i) None \<noteq> Some x" if "x \<in> set (R j)" for x
      using that ri assms(4) by (auto simp: first_or_def split: list.splits)
    show ?thesis
      using nj dj by (subst dll_frame [of _ _ nx _ pv]) (auto simp: h upd_def split: option.split)
  qed
  then show "dll (nx(n := tb i)) (upd (pv(n := None)) (tb i) (Some n)) ((tb(i := Some n)) j)
      ((R(i := n # R i)) j) \<and> (\<forall>m \<in> set ((R(i := n # R i)) j). rix m = j)"
    using dll_push [OF di assms(3)] assms(1,4) j by (auto simp: rows_ok_def)
qed

section \<open>What the list operations do\<close>

text \<open>
  \<open>conf\<close> erases the links, the statistics and the position of the row walk; the list operations
  keep everything else.
\<close>

definition conf :: "('k, 'd) xhash \<Rightarrow> ('k, 'd) xhash" where
  "conf t = t\<lparr>tbl := (\<lambda>_. None), rnext := (\<lambda>_. None), rprev := (\<lambda>_. None), gnext := (\<lambda>_. None),
     gprev := (\<lambda>_. None), ghead := None, gtail := None, gnode := None, fhead := None, ftail := None,
     find_success := 0, find_fail := 0, anr_tries := 0, anr_count := 0, crow := 0, cnode := None\<rparr>"

lemma conf_sel [simp]:
  "conf (t\<lparr>tbl := x1\<rparr>) = conf t" "conf (t\<lparr>rnext := x2\<rparr>) = conf t" "conf (t\<lparr>rprev := x2\<rparr>) = conf t"
  "conf (t\<lparr>gnext := x2\<rparr>) = conf t" "conf (t\<lparr>gprev := x2\<rparr>) = conf t" "conf (t\<lparr>ghead := x3\<rparr>) = conf t"
  "conf (t\<lparr>gtail := x3\<rparr>) = conf t" "conf (t\<lparr>gnode := x3\<rparr>) = conf t" "conf (t\<lparr>fhead := x3\<rparr>) = conf t"
  "conf (t\<lparr>ftail := x3\<rparr>) = conf t" "conf (t\<lparr>find_success := x4\<rparr>) = conf t"
  "conf (t\<lparr>find_fail := x4\<rparr>) = conf t" "conf (t\<lparr>anr_tries := x4\<rparr>) = conf t"
  "conf (t\<lparr>anr_count := x4\<rparr>) = conf t" "conf (t\<lparr>crow := x4\<rparr>) = conf t"
  "conf (t\<lparr>cnode := x3\<rparr>) = conf t"
  by (simp_all add: conf_def)

lemma gunlink_eq:
  assumes "dll (gnext t) (gprev t) (ghead t) (ys @ n # zs)" and "gtail t = last_or None (ys @ n # zs)"
  shows "xhash_gunlink_node t n =
    t\<lparr>gnode := (if gnode t = Some n then gnext t n else gnode t), ghead := first_or (ys @ zs) None,
      gtail := last_or None (ys @ zs), gnext := upd (gnext t) (gprev t n) (gnext t n),
      gprev := upd (gprev t) (gnext t n) (gprev t n)\<rparr>"
proof -
  have pn: "gprev t n = last_or None ys" and nn: "gnext t n = first_or zs None"
    and hd: "ghead t = first_or ys (Some n)" and d: "n \<notin> set ys" "n \<notin> set zs"
    using assms(1) by (auto simp: dll_def)
  have y: "ys = [] \<or> (\<exists>us u. ys = us @ [u] \<and> u \<noteq> n \<and> first_or ys (Some n) \<noteq> Some n)"
    using d first_or_hd [of ys "Some n"] hd_in_set [of ys] by (cases ys rule: rev_cases) auto
  have z: "zs = [] \<or> (\<exists>v vs. zs = v # vs \<and> v \<noteq> n \<and> last_or None zs \<noteq> Some n)"
    using d by (cases zs) (auto simp: last_or_def dest: last_in_set)
  from y z show ?thesis
    by (elim disjE exE conjE;
        use pn nn hd assms(2) in \<open>simp add: xhash_gunlink_node_def Let_def upd_def\<close>)
qed

lemma glink_eq:
  "xhash_glink_node t n =
    t\<lparr>gprev := upd ((gprev t)(n := None)) (ghead t) (Some n), gnext := (gnext t)(n := ghead t),
      ghead := Some n, gtail := (if ghead t = None then Some n else gtail t)\<rparr>"
  by (cases t) (simp add: xhash_glink_node_def upd_def split: option.split)

lemma save_free_eq:
  "xhash_save_free_node t n =
    t\<lparr>gprev := upd ((gprev t)(n := None)) (fhead t) (Some n), gnext := (gnext t)(n := fhead t),
      fhead := Some n, ftail := (if fhead t = None then Some n else ftail t)\<rparr>"
  by (cases t) (simp add: xhash_save_free_node_def upd_def split: option.split)

lemma link_eq:
  "xhash_link_node t n =
    t\<lparr>rprev := upd ((rprev t)(n := None)) (tbl t (rindex t n)) (Some n),
      rnext := (rnext t)(n := tbl t (rindex t n)), tbl := (tbl t)(rindex t n := Some n)\<rparr>"
  by (simp add: xhash_link_node_def upd_def split: option.split)

lemma unlink_eq:
  assumes "dll (rnext t) (rprev t) (tbl t (rindex t n)) (ys @ n # zs)"
  shows "xhash_unlink_node t n =
    t\<lparr>tbl := (tbl t)(rindex t n := first_or (ys @ zs) None),
      rnext := upd (rnext t) (rprev t n) (rnext t n),
      rprev := upd (rprev t) (rnext t n) (rprev t n)\<rparr>"
proof -
  have pn: "rprev t n = last_or None ys" and nn: "rnext t n = first_or zs None"
    and hd: "tbl t (rindex t n) = first_or ys (Some n)" and d: "n \<notin> set ys" "n \<notin> set zs"
    using assms(1) by (auto simp: dll_def)
  have y: "ys = [] \<or> (\<exists>us u. ys = us @ [u] \<and> u \<noteq> n \<and> first_or (ys @ zs) None = first_or ys (Some n))"
    using d first_or_hd [of ys "Some n"] first_or_hd [of ys "first_or zs None"]
    by (cases ys rule: rev_cases) auto
  then show ?thesis
  proof
    assume "ys = []"
    then show ?thesis using pn nn hd
      by (cases t) (simp add: xhash_unlink_node_def Let_def upd_def split: option.split)
  next
    assume "\<exists>us u. ys = us @ [u] \<and> u \<noteq> n \<and> first_or (ys @ zs) None = first_or ys (Some n)"
    then obtain us u where u: "ys = us @ [u]" "u \<noteq> n" "first_or (ys @ zs) None = tbl t (rindex t n)"
      using hd by auto
    show ?thesis unfolding u(3)
      using pn nn u(1,2)
      by (cases t) (simp add: xhash_unlink_node_def Let_def upd_def split: option.split)
  qed
qed

lemma get_free_eq:
  assumes "dll (gnext t) (gprev t) (fhead t) F" and "ftail t = last_or None F"
  shows "xhash_get_free_node t =
    (case F of
       [] \<Rightarrow> (t, None)
     | n # zs \<Rightarrow> (t\<lparr>fhead := first_or zs None, ftail := last_or None zs,
         gprev := upd (gprev t) (first_or zs None) None\<rparr>, Some n))"
proof (cases F)
  case Nil
  then show ?thesis using assms by (simp add: xhash_get_free_node_def dll_def)
next
  case (Cons n zs)
  have nn: "gnext t n = first_or zs None" and hd: "fhead t = Some n" and d: "n \<notin> set zs"
    using assms(1) Cons by (auto simp: dll_def)
  have "zs = [] \<or> (\<exists>v vs. zs = v # vs \<and> last_or None zs \<noteq> Some n)"
    using d by (cases zs) (auto simp: last_or_def dest: last_in_set)
  then show ?thesis
    by (elim disjE exE conjE; cases t)
      (use nn hd assms(2) Cons in \<open>auto simp: xhash_get_free_node_def Let_def upd_def\<close>)
qed

section \<open>The invariant\<close>

text \<open>
  The table in terms of its lists: \<open>G\<close> is the global list with the most recently used node
  first, \<open>R i\<close> the row \<open>i\<close>, \<open>F\<close> the free list.  Every node of the global list stands in the row
  of its key's hash and in no other, and no two of them have equal keys.
\<close>

definition xh_links :: "('k, 'd) xhash \<Rightarrow> nat list \<Rightarrow> (nat \<Rightarrow> nat list) \<Rightarrow> nat list \<Rightarrow> bool" where
  "xh_links t G R F \<longleftrightarrow>
     dll (gnext t) (gprev t) (ghead t) G \<and> gtail t = last_or None G \<and>
     dll (gnext t) (gprev t) (fhead t) F \<and> ftail t = last_or None F \<and> set G \<inter> set F = {} \<and>
     rows_ok (rnext t) (rprev t) (tbl t) (rindex t) (unat (nrows t)) R \<and>
     (\<forall>i < unat (nrows t). set (R i) = {n \<in> set G. rindex t n = i}) \<and>
     (\<forall>n. gnode t = Some n \<longrightarrow> n \<in> set G)"

definition xh_keys :: "('k, 'd) xhash \<Rightarrow> nat list \<Rightarrow> nat list \<Rightarrow> bool" where
  "xh_keys t G F \<longleftrightarrow>
     0 < nrows t \<and> xcount t = of_nat (length G) \<and>
     (\<forall>n \<in> set G. rindex t n = row_of t (nkey t n)) \<and>
     (\<forall>n \<in> set G. \<forall>m \<in> set G. keycmp_fcn t (nkey t m) (nkey t n) \<longrightarrow> m = n) \<and>
     (\<forall>n \<in> set G \<union> set F. n < fresh t)"

lemma conf_get [simp]:
  "nkey (conf t) = nkey t" "ndata (conf t) = ndata t" "rindex (conf t) = rindex t"
  "nrows (conf t) = nrows t" "xcount (conf t) = xcount t" "hash_fcn (conf t) = hash_fcn t"
  "keycmp_fcn (conf t) = keycmp_fcn t" "fresh (conf t) = fresh t" "mc (conf t) = mc t"
  "max_nodes (conf t) = max_nodes t" "splay (conf t) = splay t" "datasize (conf t) = datasize t"
  "keysize (conf t) = keysize t" "anr_flag (conf t) = anr_flag t" "anrfree (conf t) = anrfree t"
  "usrfree (conf t) = usrfree t" "recycle_nodes (conf t) = recycle_nodes t"
  "released (conf t) = released t" "zero_data (conf t) = zero_data t"
  by (simp_all add: conf_def)

lemma conf_upd [simp]:
  "conf (t\<lparr>xcount := v_xcount\<rparr>) = (conf t)\<lparr>xcount := v_xcount\<rparr>"
  "conf (t\<lparr>mc := v_mc\<rparr>) = (conf t)\<lparr>mc := v_mc\<rparr>"
  "conf (t\<lparr>fresh := v_fresh\<rparr>) = (conf t)\<lparr>fresh := v_fresh\<rparr>"
  "conf (t\<lparr>ndata := v_ndata\<rparr>) = (conf t)\<lparr>ndata := v_ndata\<rparr>"
  "conf (t\<lparr>nkey := v_nkey\<rparr>) = (conf t)\<lparr>nkey := v_nkey\<rparr>"
  "conf (t\<lparr>rindex := v_rindex\<rparr>) = (conf t)\<lparr>rindex := v_rindex\<rparr>"
  "conf (t\<lparr>released := v_released\<rparr>) = (conf t)\<lparr>released := v_released\<rparr>"
  "conf (t\<lparr>max_nodes := v_max_nodes\<rparr>) = (conf t)\<lparr>max_nodes := v_max_nodes\<rparr>"
  by (simp_all add: conf_def)

text \<open>From an equation on the erased table, the fields that are left.\<close>

lemma conf_fields:
  assumes "conf t = c"
  shows
    "nkey t = nkey c" "ndata t = ndata c" "rindex t = rindex c" "nrows t = nrows c"
    "xcount t = xcount c" "hash_fcn t = hash_fcn c" "keycmp_fcn t = keycmp_fcn c"
    "fresh t = fresh c" "mc t = mc c" "max_nodes t = max_nodes c" "splay t = splay c"
    "datasize t = datasize c" "keysize t = keysize c" "anr_flag t = anr_flag c"
    "anrfree t = anrfree c" "usrfree t = usrfree c" "recycle_nodes t = recycle_nodes c"
    "released t = released c" "zero_data t = zero_data c"
  unfolding assms [symmetric] conf_get by (rule refl)+

lemma links_unlink:
  assumes l: "xh_links t G R F" and G: "G = ys @ n # zs" and i: "rindex t n < unat (nrows t)"
  shows "\<exists>us vs. R (rindex t n) = us @ n # vs \<and>
    xh_links (xhash_gunlink_node (xhash_unlink_node t n) n) (ys @ zs) (R(rindex t n := us @ vs)) F \<and>
    xh_links (xhash_unlink_node (xhash_gunlink_node t n) n) (ys @ zs) (R(rindex t n := us @ vs)) F \<and>
    conf (xhash_gunlink_node (xhash_unlink_node t n) n) = conf t \<and>
    conf (xhash_unlink_node (xhash_gunlink_node t n) n) = conf t"
proof -
  let ?i = "rindex t n"
  have dg: "dll (gnext t) (gprev t) (ghead t) (ys @ n # zs)" and tg: "gtail t = last_or None (ys @ n # zs)"
    and rows: "rows_ok (rnext t) (rprev t) (tbl t) (rindex t) (unat (nrows t)) R"
    and ri: "\<And>j. j < unat (nrows t) \<Longrightarrow> set (R j) = {m \<in> set G. rindex t m = j}"
    using l G by (auto simp: xh_links_def)
  have "n \<in> set (R ?i)" using ri [OF i] G by auto
  then obtain us vs where R: "R ?i = us @ n # vs" by (auto dest: split_list)
  have dr: "dll (rnext t) (rprev t) (tbl t ?i) (us @ n # vs)"
    using rows i unfolding R [symmetric] by (simp add: rows_ok_def)
  then have dR: "distinct (us @ n # vs)" by (simp add: dll_def)
  have dG: "distinct (ys @ n # zs)" using dg by (simp add: dll_def)
  let ?gn = "upd (gnext t) (gprev t n) (gnext t n)" and ?gp = "upd (gprev t) (gnext t n) (gprev t n)"
  have near: "gprev t n = last_or None ys" "gnext t n = first_or zs None" using dg by (auto simp: dll_def)
  have inG: "\<forall>x. gprev t n = Some x \<or> gnext t n = Some x \<longrightarrow> x \<in> set (ys @ zs)"
    unfolding near by (auto simp: last_or_def first_or_def split: list.splits if_splits)
  have f: "dll ?gn ?gp (fhead t) F"
  proof -
    have "dll (gnext t) (gprev t) (fhead t) F" and "\<forall>x \<in> set F. x \<notin> set (ys @ zs)"
      using l G by (auto simp: xh_links_def)
    then show ?thesis using inG
      by (subst dll_frame [of _ _ "gnext t" _ "gprev t"]) (auto simp: upd_def split: option.split)
  qed
  have sets: "\<forall>j < unat (nrows t). set ((R(?i := us @ vs)) j) = {m \<in> set (ys @ zs). rindex t m = j}"
  proof (intro allI impI)
    fix j assume j: "j < unat (nrows t)"
    have "set (us @ vs) = set (R ?i) - {n}" and "set (ys @ zs) = set G - {n}"
      unfolding R G using dR dG by auto
    then show "set ((R(?i := us @ vs)) j) = {m \<in> set (ys @ zs). rindex t m = j}"
      using ri [OF j] by (cases "j = ?i") auto
  qed
  have gn: "\<forall>m. (if gnode t = Some n then gnext t n else gnode t) = Some m \<longrightarrow> m \<in> set (ys @ zs)"
    using l G inG by (auto simp: xh_links_def split: if_splits)
  have g: "dll ?gn ?gp (first_or (ys @ zs) None) (ys @ zs)" by (rule dll_remove [OF dg])
  note r = rows_remove [OF rows i R]
  have disj: "set (ys @ zs) \<inter> set F = {}" and ft: "ftail t = last_or None F"
    using l G by (auto simp: xh_links_def)
  have u: "xhash_unlink_node t n = t\<lparr>tbl := (tbl t)(?i := first_or (us @ vs) None),
      rnext := upd (rnext t) (rprev t n) (rnext t n), rprev := upd (rprev t) (rnext t n) (rprev t n)\<rparr>"
    by (rule unlink_eq [OF dr])
  have gu: "xhash_gunlink_node t n =
    t\<lparr>gnode := (if gnode t = Some n then gnext t n else gnode t), ghead := first_or (ys @ zs) None,
      gtail := last_or None (ys @ zs), gnext := ?gn, gprev := ?gp\<rparr>"
    by (rule gunlink_eq [OF dg tg])
  have gu': "xhash_gunlink_node (xhash_unlink_node t n) n =
    (xhash_unlink_node t n)\<lparr>gnode := (if gnode t = Some n then gnext t n else gnode t),
      ghead := first_or (ys @ zs) None, gtail := last_or None (ys @ zs), gnext := ?gn, gprev := ?gp\<rparr>"
    using gunlink_eq [of "xhash_unlink_node t n" ys n zs] dg tg by (simp add: u)
  have u': "xhash_unlink_node (xhash_gunlink_node t n) n =
    (xhash_gunlink_node t n)\<lparr>tbl := (tbl t)(?i := first_or (us @ vs) None),
      rnext := upd (rnext t) (rprev t n) (rnext t n), rprev := upd (rprev t) (rnext t n) (rprev t n)\<rparr>"
    using unlink_eq [of "xhash_gunlink_node t n" n us vs] dr by (simp add: gu)
  have "xh_links (xhash_gunlink_node (xhash_unlink_node t n) n) (ys @ zs) (R(?i := us @ vs)) F"
    unfolding xh_links_def gu' unfolding u using f sets gn g r disj ft by simp
  moreover have "xh_links (xhash_unlink_node (xhash_gunlink_node t n) n) (ys @ zs) (R(?i := us @ vs)) F"
    unfolding xh_links_def u' unfolding gu using f sets gn g r disj ft by simp
  moreover have "conf (xhash_gunlink_node (xhash_unlink_node t n) n) = conf t" unfolding gu' unfolding u by simp
  moreover have "conf (xhash_unlink_node (xhash_gunlink_node t n) n) = conf t" unfolding u' unfolding gu by simp
  ultimately show ?thesis using R by blast
qed

lemma links_link:
  assumes l: "xh_links t G R F" and n: "n \<notin> set G" "n \<notin> set F" and i: "rindex t n < unat (nrows t)"
  shows "xh_links (xhash_glink_node (xhash_link_node t n) n) (n # G)
    (R(rindex t n := n # R (rindex t n))) F"
    and "conf (xhash_glink_node (xhash_link_node t n) n) = conf t"
proof -
  let ?i = "rindex t n"
  have dg: "dll (gnext t) (gprev t) (ghead t) G" and tg: "gtail t = last_or None G"
    and df: "dll (gnext t) (gprev t) (fhead t) F" and tf: "ftail t = last_or None F"
    and disj: "set G \<inter> set F = {}"
    and rows: "rows_ok (rnext t) (rprev t) (tbl t) (rindex t) (unat (nrows t)) R"
    and ri: "set (R ?i) = {m \<in> set G. rindex t m = ?i}"
    and gn: "\<And>m. gnode t = Some m \<Longrightarrow> m \<in> set G"
    using l i by (auto simp: xh_links_def)
  have nR: "n \<notin> set (R ?i)" using ri n by auto
  note r = rows_push [OF rows i nR refl]
  note g = dll_push [OF dg n(1)]
  have hd: "ghead t = first_or G None" using dg by (simp add: dll_def)
  have f: "dll ((gnext t)(n := ghead t)) (upd ((gprev t)(n := None)) (ghead t) (Some n)) (fhead t) F"
    using df n disj unfolding hd
    by (subst dll_frame [of _ _ "gnext t" _ "gprev t"])
      (auto simp: upd_def first_or_def split: list.split)
  have tl: "(if ghead t = None then Some n else gtail t) = last_or (Some n) G"
    unfolding hd tg by (auto simp: first_or_def last_or_def split: list.split)
  have sets: "\<forall>j < unat (nrows t). set ((R(?i := n # R ?i)) j) = {m \<in> set (n # G). rindex t m = j}"
    using l by (auto simp: xh_links_def)
  have disj': "set (n # G) \<inter> set F = {}" and gn': "\<forall>m. gnode t = Some m \<longrightarrow> m \<in> set (n # G)"
    using disj n gn by auto
  show "xh_links (xhash_glink_node (xhash_link_node t n) n) (n # G) (R(?i := n # R ?i)) F"
    unfolding xh_links_def glink_eq link_eq
    using g r f tl tf sets disj' gn' by (auto split: if_splits)
  show "conf (xhash_glink_node (xhash_link_node t n) n) = conf t"
    by (simp add: glink_eq link_eq)
qed

lemma dll_near:
  assumes "dll nx pv h xs" and "n \<in> set xs"
  shows "nx n = Some m \<Longrightarrow> m \<in> set xs" and "pv n = Some m \<Longrightarrow> m \<in> set xs"
proof -
  obtain ys zs where xs: "xs = ys @ n # zs" using assms(2) by (auto dest: split_list)
  then have "pv n = last_or None ys" and "nx n = first_or zs None" using assms(1) by (auto simp: dll_def)
  then show "nx n = Some m \<Longrightarrow> m \<in> set xs" and "pv n = Some m \<Longrightarrow> m \<in> set xs"
    using xs by (auto simp: last_or_def first_or_def split: list.splits if_splits)
qed

lemma links_row_front:
  assumes l: "xh_links t G R F" and n: "n \<in> set G" and i: "rindex t n < unat (nrows t)"
  shows "\<exists>R'. xh_links (xhash_link_node (xhash_unlink_node t n) n) G R' F \<and>
    conf (xhash_link_node (xhash_unlink_node t n) n) = conf t"
proof -
  let ?i = "rindex t n"
  have rows: "rows_ok (rnext t) (rprev t) (tbl t) (rindex t) (unat (nrows t)) R"
    and ri: "\<And>j. j < unat (nrows t) \<Longrightarrow> set (R j) = {m \<in> set G. rindex t m = j}"
    using l by (auto simp: xh_links_def)
  have "n \<in> set (R ?i)" using ri [OF i] n by simp
  then obtain us vs where R: "R ?i = us @ n # vs" by (auto dest: split_list)
  have dr: "dll (rnext t) (rprev t) (tbl t ?i) (us @ n # vs)"
    using rows i unfolding R [symmetric] by (simp add: rows_ok_def)
  then have nR: "n \<notin> set ((R(?i := us @ vs)) ?i)" by (simp add: dll_def)
  note r = rows_push [OF rows_remove [OF rows i R] i nR refl, simplified fun_upd_same fun_upd_upd]
  let ?R = "R(?i := n # us @ vs)"
  have "set (n # us @ vs) = set (R ?i)" unfolding R by auto
  then have "\<forall>j < unat (nrows t). set (?R j) = {m \<in> set G. rindex t m = j}"
    using ri [OF i] ri by (simp del: set_simps set_append)
  then have "xh_links (xhash_link_node (xhash_unlink_node t n) n) G ?R F"
    using l r by (simp add: xh_links_def link_eq unlink_eq [OF dr])
  then show ?thesis by (auto simp: link_eq unlink_eq [OF dr])
qed

lemma links_gfront:
  assumes l: "xh_links t G R F" and n: "n \<in> set G"
  shows "xh_links (xhash_gmovetofront t n) (n # remove1 n G) R F" and "conf (xhash_gmovetofront t n) = conf t"
proof -
  have dg: "dll (gnext t) (gprev t) (ghead t) G" and tg: "gtail t = last_or None G"
    and df: "dll (gnext t) (gprev t) (fhead t) F" and disj: "set G \<inter> set F = {}"
    using l by (auto simp: xh_links_def)
  have hd: "ghead t = first_or G None" and dG: "distinct G" using dg by (auto simp: dll_def)
  have "xh_links (xhash_gmovetofront t n) (n # remove1 n G) R F \<and> conf (xhash_gmovetofront t n) = conf t"
  proof (cases "Some n = ghead t")
    case True
    then have "n # remove1 n G = G" using hd n by (cases G) auto
    then show ?thesis using l True by (simp add: xhash_gmovetofront_def)
  next
    case False
    obtain ys zs where G: "G = ys @ n # zs" and ny: "n \<notin> set ys" using n by (auto dest: split_list_first)
    have rm: "remove1 n G = ys @ zs" using G ny by (simp add: remove1_append)
    have nz: "n \<notin> set (ys @ zs)" using dG G by auto
    have ne: "ys \<noteq> []" using False hd G by auto
    note gu = gunlink_eq [OF dg [unfolded G] tg [unfolded G]]
    note g = dll_push [OF dll_remove [OF dg [unfolded G]] nz]
    let ?h = "first_or (ys @ zs) None"
    let ?gn = "(upd (gnext t) (gprev t n) (gnext t n))(n := ?h)"
    let ?gp = "upd ((upd (gprev t) (gnext t n) (gprev t n))(n := None)) ?h (Some n)"
    have hs: "?h = Some (hd ys)" using ne by (simp add: first_or_hd)
    have f: "dll ?gn ?gp (fhead t) F"
    proof -
      have "\<forall>x \<in> set F. x \<noteq> n \<and> ?h \<noteq> Some x \<and> gprev t n \<noteq> Some x \<and> gnext t n \<noteq> Some x"
        using disj n dll_near [OF dg n] hs ne G by (auto dest: hd_in_set)
      then show ?thesis using df
        by (subst dll_frame [of _ _ "gnext t" _ "gprev t"]) (auto simp: upd_def split: option.split)
    qed
    have gn: "\<forall>m. (if gnode t = Some n then gnext t n else gnode t) = Some m \<longrightarrow> m \<in> set (n # ys @ zs)"
      using l dll_near [OF dg n] G by (auto simp: xh_links_def split: if_splits)
    have eq: "xhash_gmovetofront t n = t\<lparr>gnode := (if gnode t = Some n then gnext t n else gnode t),
        ghead := Some n, gtail := last_or None (ys @ zs), gnext := ?gn, gprev := ?gp\<rparr>"
      using False hs by (simp add: xhash_gmovetofront_def gu glink_eq)
    have sets: "set G = set (n # ys @ zs)" using G by auto
    have tl: "last_or None (ys @ zs) = last_or None (n # ys @ zs)" using ne by (simp add: last_or_def)
    show ?thesis
      unfolding rm eq using l g f gn disj unfolding xh_links_def sets tl
      by (simp del: first_or_simps(3) last_or_simps set_simps set_append)
  qed
  then show "xh_links (xhash_gmovetofront t n) (n # remove1 n G) R F"
    and "conf (xhash_gmovetofront t n) = conf t" by auto
qed

lemma links_movetofront:
  assumes l: "xh_links t G R F" and n: "n \<in> set G" and i: "rindex t n < unat (nrows t)"
  shows "\<exists>R'. xh_links (movetofront t n) (n # remove1 n G) R' F \<and> conf (movetofront t n) = conf t"
proof -
  define t1 where "t1 = (if tbl t (rindex t n) \<noteq> Some n
    then xhash_link_node (xhash_unlink_node t n) n else t)"
  obtain R' where l1: "xh_links t1 G R' F" and c1: "conf t1 = conf t"
    using links_row_front [OF l n i] l unfolding t1_def by (cases "tbl t (rindex t n) \<noteq> Some n") auto
  define t2 where "t2 = (if Some n = gnode t1 then t1\<lparr>gnode := gnext t1 n\<rparr> else t1)"
  have "dll (gnext t1) (gprev t1) (ghead t1) G" using l1 by (simp add: xh_links_def)
  from dll_near [OF this n] have l2: "xh_links t2 G R' F"
    using l1 unfolding t2_def xh_links_def by auto
  have "conf t2 = conf t" using c1 by (simp add: t2_def)
  moreover have "movetofront t n = xhash_gmovetofront t2 n"
    by (simp add: movetofront_def Let_def t1_def t2_def)
  ultimately show ?thesis using links_gfront [OF l2 n] by auto
qed

section \<open>Finding\<close>

text \<open>What the table needs of the key operations that its user installs.\<close>

locale key_ops =
  fixes cmp :: "'k \<Rightarrow> 'k \<Rightarrow> bool" and hash :: "'k \<Rightarrow> u32"
  assumes cmp_sym: "cmp x y \<Longrightarrow> cmp y x"
    and cmp_trans: "cmp x y \<Longrightarrow> cmp y z \<Longrightarrow> cmp x z"
    and cmp_hash: "cmp x y \<Longrightarrow> hash x = hash y"
begin

lemma cmp_left: "cmp x y \<Longrightarrow> cmp x z = cmp y z"
  using cmp_sym cmp_trans by blast

end

definition xh_inv :: "('k, 'd) xhash \<Rightarrow> nat list \<Rightarrow> (nat \<Rightarrow> nat list) \<Rightarrow> nat list \<Rightarrow> bool" where
  "xh_inv t G R F \<longleftrightarrow> xh_links t G R F \<and> xh_keys t G F"

lemma xh_inv_stats [simp]:
  "xh_inv (t\<lparr>find_success := x\<rparr>) G R F = xh_inv t G R F" "xh_inv (t\<lparr>find_fail := x\<rparr>) G R F = xh_inv t G R F"
  "xh_inv (t\<lparr>anr_tries := x\<rparr>) G R F = xh_inv t G R F" "xh_inv (t\<lparr>anr_count := x\<rparr>) G R F = xh_inv t G R F"
  "xh_inv (t\<lparr>crow := x\<rparr>) G R F = xh_inv t G R F" "xh_inv (t\<lparr>cnode := y\<rparr>) G R F = xh_inv t G R F"
  "xh_inv (t\<lparr>max_nodes := x\<rparr>) G R F = xh_inv t G R F"
  by (simp_all add: xh_inv_def xh_links_def xh_keys_def row_of_def)

definition is_key :: "('k, 'd) xhash \<Rightarrow> 'k \<Rightarrow> nat \<Rightarrow> bool" where
  "is_key t k n = keycmp_fcn t (nkey t n) k"

lemma row_of_less: "0 < nrows t \<Longrightarrow> row_of t k < unat (nrows t)"
proof -
  assume n: "0 < nrows t"
  have "hash_fcn t k AND (nrows t - 1) \<le> nrows t - 1" by (rule word_and_le1)
  also have "nrows t - 1 < nrows t"
    using n unat_sub_nowrap [of 1 "nrows t"] by (simp add: word_less_nat_alt word_le_nat_alt)
  finally show ?thesis by (simp add: row_of_def word_less_nat_alt)
qed

lemma row_walk_chain:
  "chain (rnext t) pv p xs None \<Longrightarrow> row_walk t k (first_or xs None) = Some (find (is_key t k) xs)"
  by (induction xs arbitrary: p) (auto simp: row_walk.simps is_key_def)

lemma find_unique:
  assumes "\<forall>x \<in> set xs. \<forall>y \<in> set xs. P x \<longrightarrow> P y \<longrightarrow> x = y"
    and "x \<in> set xs" and "P x"
  shows "find P xs = Some x"
  using assms by (induction xs) auto

lemma find_is_key_row:
  assumes i: "xh_inv t G R F" and k: "key_ops (keycmp_fcn t) (hash_fcn t)"
  shows "find (is_key t k) (R (row_of t k)) = find (is_key t k) G"
    and "\<forall>m \<in> set G. \<forall>n \<in> set G. is_key t k m \<longrightarrow> is_key t k n \<longrightarrow> m = n"
proof -
  have n: "0 < nrows t"
    and rx: "\<And>n. n \<in> set G \<Longrightarrow> rindex t n = row_of t (nkey t n)"
    and di: "\<And>m n. \<lbrakk>m \<in> set G; n \<in> set G; keycmp_fcn t (nkey t m) (nkey t n)\<rbrakk> \<Longrightarrow> m = n"
    and R: "\<And>i. i < unat (nrows t) \<Longrightarrow> set (R i) = {n \<in> set G. rindex t n = i}"
    using i by (auto simp: xh_inv_def xh_links_def xh_keys_def)
  show u: "\<forall>m \<in> set G. \<forall>n \<in> set G. is_key t k m \<longrightarrow> is_key t k n \<longrightarrow> m = n"
    using di key_ops.cmp_sym [OF k] key_ops.cmp_trans [OF k] unfolding is_key_def by blast
  have set: "set (R (row_of t k)) = {n \<in> set G. rindex t n = row_of t k}"
    by (rule R [OF row_of_less [OF n]])
  have sub: "n \<in> set (R (row_of t k))" if "n \<in> set G" "is_key t k n" for n
    using set that rx [OF that(1)] key_ops.cmp_hash [OF k] unfolding is_key_def row_of_def by auto
  show "find (is_key t k) (R (row_of t k)) = find (is_key t k) G"
  proof (cases "\<exists>n \<in> set G. is_key t k n")
    case True
    then obtain n where n: "n \<in> set G" "is_key t k n" by blast
    have "find (is_key t k) G = Some n" by (rule find_unique [OF u n])
    moreover have "find (is_key t k) (R (row_of t k)) = Some n"
      using u set by (intro find_unique sub n) auto
    ultimately show ?thesis by simp
  next
    case False
    then have "find (is_key t k) G = None" and "find (is_key t k) (R (row_of t k)) = None"
      using set by (auto simp: find_None_iff)
    then show ?thesis by simp
  qed
qed

lemma row_walk_eq:
  assumes i: "xh_inv t G R F" and k: "key_ops (keycmp_fcn t) (hash_fcn t)"
  shows "row_walk t k (tbl t (row_of t k)) = Some (find (is_key t k) G)"
proof -
  have n: "0 < nrows t" using i by (simp add: xh_inv_def xh_keys_def)
  have "dll (rnext t) (rprev t) (tbl t (row_of t k)) (R (row_of t k))"
    using i row_of_less [OF n] by (simp add: xh_inv_def xh_links_def rows_ok_def)
  then have "tbl t (row_of t k) = first_or (R (row_of t k)) None"
    and "chain (rnext t) (rprev t) None (R (row_of t k)) None" by (auto simp: dll_def)
  then show ?thesis using row_walk_chain find_is_key_row(1) [OF i k] by metis
qed

lemma remove1_unique:
  assumes "distinct xs" and "\<forall>x \<in> set xs. \<forall>y \<in> set xs. P x \<longrightarrow> P y \<longrightarrow> x = y" and "find P xs = Some n"
  shows "remove1 n xs = filter (\<lambda>x. \<not> P x) xs"
proof -
  have "P n" and "n \<in> set xs" using assms(3) by (auto simp: find_Some_iff)
  then have eq: "(n \<noteq> x) = (\<not> P x)" if "x \<in> set xs" for x using assms(2) that by auto
  have "remove1 n xs = filter (\<lambda>x. n \<noteq> x) xs"
    by (simp only: distinct_remove1_removeAll [OF assms(1)] removeAll_filter_not_eq)
  also have "\<dots> = filter (\<lambda>x. \<not> P x) xs" by (rule filter_cong [OF refl eq])
  finally show ?thesis .
qed

lemma xh_keys_perm:
  assumes "xh_keys t G F" and "set G' = set G" and "length G' = length G" and "conf t' = conf t"
  shows "xh_keys t' G' F"
  using assms(1-3) conf_fields [OF assms(4)] by (simp add: xh_keys_def row_of_def)

text \<open>A search finds the one node with the key, and moves it to the front of both its lists.\<close>

lemma find_node_row_spec:
  assumes i: "xh_inv t G R F" and k: "key_ops (keycmp_fcn t) (hash_fcn t)" and s: "0 < splay t"
  shows "\<exists>t' R'. xhash_find_node_row t k = Some (t', find (is_key t k) G, row_of t k) \<and>
    xh_inv t' (case find (is_key t k) G of None \<Rightarrow> G | Some n \<Rightarrow> n # filter (\<lambda>m. \<not> is_key t k m) G) R' F \<and>
    conf t' = conf t"
proof (cases "find (is_key t k) G")
  case None
  then show ?thesis
    using i by (intro exI [of _ "t\<lparr>find_fail := find_fail t + 1\<rparr>"] exI [of _ R])
      (simp add: xhash_find_node_row_def row_walk_eq [OF i k])
next
  case (Some n)
  then have n: "n \<in> set G" by (auto simp: find_Some_iff)
  have l: "xh_links t G R F" and x: "xh_keys t G F" using i by (auto simp: xh_inv_def)
  have "rindex t n < unat (nrows t)"
    using x n row_of_less by (auto simp: xh_keys_def)
  from links_movetofront [OF l n this] obtain R' where
    l': "xh_links (movetofront t n) (n # remove1 n G) R' F" and c: "conf (movetofront t n) = conf t" by blast
  have "distinct G" using l by (simp add: xh_links_def dll_def)
  note rm = remove1_unique [OF this find_is_key_row(2) [OF i k] Some]
  have "set (n # remove1 n G) = set G" using n \<open>distinct G\<close> by auto
  moreover have "length (n # remove1 n G) = length G"
    using n by (simp add: length_remove1) (metis length_pos_if_in_set Suc_pred)
  ultimately have "xh_keys (movetofront t n) (n # remove1 n G) F"
    using xh_keys_perm [OF x _ _ c] by blast
  with l' have "xh_inv (movetofront t n) (n # filter (\<lambda>m. \<not> is_key t k m) G) R' F"
    unfolding xh_inv_def rm by blast
  then show ?thesis
    using c s Some
    by (intro exI [of _ "(movetofront t n)\<lparr>find_success := find_success (movetofront t n) + 1\<rparr>"] exI [of _ R'])
      (simp add: xhash_find_node_row_def row_walk_eq [OF i k] Let_def)
qed

end
