(* ===== verification/XHash_Spec.thy ===== *)
theory XHash_Spec
  imports XHash
begin

unbundle bit_operations_syntax

text \<open>
  What the table of \<open>XHash\<close> promises its users: it is a dictionary in most-recently-used order.
  The operations are related to functions on the list of key and data pairs; the theorems cover
  whole sequences of operations, the replacement of the oldest entry and the release of all
  memory.
\<close>

section \<open>New nodes\<close>

text \<open>The node that automatic recovery picks: the oldest one that the user does not refuse.\<close>

definition lets_go :: "('k, 'd) xhash \<Rightarrow> nat \<Rightarrow> bool" where
  "lets_go t n = (case anrfree t of None \<Rightarrow> True | Some refuses \<Rightarrow> \<not> refuses (nkey t n) (ndata t n))"

lemma anr_walk_chain:
  "chain nx (gprev t) None xs q \<Longrightarrow>
   \<exists>c. anr_walk t (last_or None xs) = Some (t\<lparr>anr_tries := c\<rparr>, find (lets_go t) (rev xs))"
proof (induction xs arbitrary: t q rule: rev_induct)
  case Nil
  show ?case by (rule exI [of _ "anr_tries t"]) (simp add: anr_walk.simps [of t None])
next
  case (snoc x xs)
  let ?t = "t\<lparr>anr_tries := anr_tries t + 1\<rparr>"
  have px: "gprev t x = last_or None xs" and "chain nx (gprev ?t) None xs (Some x)"
    using snoc.prems by auto
  from snoc.IH [OF this(2)] obtain c where
    "anr_walk ?t (last_or None xs) = Some (?t\<lparr>anr_tries := c\<rparr>, find (lets_go ?t) (rev xs))" by blast
  moreover have "lets_go ?t = lets_go t" by (simp add: lets_go_def fun_eq_iff split: option.split)
  ultimately have step: "anr_walk ?t (gprev t x) = Some (t\<lparr>anr_tries := c\<rparr>, find (lets_go t) (rev xs))"
    by (simp add: px)
  show ?case
  proof (cases "anrfree t")
    case None
    then show ?thesis
      by (intro exI [of _ "anr_tries t"]) (simp add: anr_walk.simps [of t "Some x"] lets_go_def)
  next
    case (Some refuses)
    then show ?thesis using step
      by (cases "refuses (nkey t x) (ndata t x)")
        (auto simp: anr_walk.simps [of t "Some x"] lets_go_def [of t x])
  qed
qed

definition can_alloc :: "('k, 'd) xhash \<Rightarrow> bool" where
  "can_alloc t \<longleftrightarrow>
     (max_nodes t = 0 \<or> xcount t < max_nodes t) \<and> sfmemcap_alloc (node_bytes t) (mc t) \<noteq> None"

definition victim :: "('k, 'd) xhash \<Rightarrow> nat list \<Rightarrow> ptr" where
  "victim t G = (if anr_flag t then find (lets_go t) (rev G) else None)"

lemma anr_unlink_spec:
  assumes i: "xh_inv t G R F" and n: "n \<in> set G"
  shows "\<exists>R'. xh_inv (anr_unlink t n) (remove1 n G) R' F \<and>
    conf (anr_unlink t n) = (conf t)\<lparr>xcount := xcount t - 1\<rparr>"
proof -
  have l: "xh_links t G R F" and x: "xh_keys t G F" using i by (auto simp: xh_inv_def)
  obtain ys zs where G: "G = ys @ n # zs" and ny: "n \<notin> set ys" using n by (auto dest: split_list_first)
  have rm: "remove1 n G = ys @ zs" using G ny by (simp add: remove1_append)
  have "rindex t n < unat (nrows t)" using x n row_of_less by (auto simp: xh_keys_def)
  from links_unlink [OF l G this] obtain us vs where
    l': "xh_links (xhash_unlink_node (xhash_gunlink_node t n) n) (ys @ zs) (R(rindex t n := us @ vs)) F"
    and c: "conf (xhash_unlink_node (xhash_gunlink_node t n) n) = conf t" by blast
  let ?t1 = "xhash_unlink_node (xhash_gunlink_node t n) n"
  have eq: "anr_unlink t n = ?t1\<lparr>xcount := xcount ?t1 - 1, anr_count := anr_count ?t1 + 1\<rparr>"
    by (simp add: anr_unlink_def Let_def)
  have "xh_links (anr_unlink t n) (ys @ zs) (R(rindex t n := us @ vs)) F"
    using l' unfolding eq by (simp add: xh_links_def)
  moreover have "xh_keys (anr_unlink t n) (ys @ zs) F"
    using x conf_fields [OF c] G unfolding eq by (simp add: xh_keys_def row_of_def)
  moreover have "conf (anr_unlink t n) = (conf t)\<lparr>xcount := xcount t - 1\<rparr>"
    using c conf_fields [OF c] unfolding eq by simp
  ultimately show ?thesis unfolding xh_inv_def rm by blast
qed

lemma get_free_spec:
  assumes "xh_inv t G R F"
  shows "(F = [] \<and> xhash_get_free_node t = (t, None)) \<or>
    (\<exists>n zs t'. F = n # zs \<and> xhash_get_free_node t = (t', Some n) \<and> xh_inv t' G R zs \<and>
      n \<notin> set G \<and> n \<notin> set zs \<and> conf t' = conf t \<and> n < fresh t)"
proof (cases F)
  case Nil
  then show ?thesis using assms get_free_eq [of t F] by (auto simp: xh_inv_def xh_links_def)
next
  case (Cons n zs)
  have l: "xh_links t G R F" and x: "xh_keys t G F" using assms by (auto simp: xh_inv_def)
  have d: "dll (gnext t) (gprev t) (fhead t) (n # zs)" and dg: "dll (gnext t) (gprev t) (ghead t) G"
    and disj: "set G \<inter> set (n # zs) = {}"
    using l Cons by (auto simp: xh_links_def)
  let ?t = "t\<lparr>fhead := first_or zs None, ftail := last_or None zs,
      gprev := upd (gprev t) (first_or zs None) None\<rparr>"
  have eq: "xhash_get_free_node t = (?t, Some n)"
    using l get_free_eq [of t F] Cons by (simp add: xh_links_def)
  have dz: "dll (gnext t) (upd (gprev t) (first_or zs None) None) (first_or zs None) zs"
    using dll_remove [of "gnext t" "gprev t" "fhead t" "[]" n zs] d by (simp add: dll_def upd_def)
  have dg': "dll (gnext t) (upd (gprev t) (first_or zs None) None) (ghead t) G"
    using dg disj by (subst dll_frame [of _ _ "gnext t" _ "gprev t"])
      (auto simp: upd_def first_or_def split: list.split)
  have "xh_links ?t G R zs" using l dz dg' disj unfolding xh_links_def by simp
  moreover have "xh_keys ?t G zs" using x Cons by (simp add: xh_keys_def row_of_def)
  moreover have "n < fresh t" using x Cons by (simp add: xh_keys_def)
  ultimately show ?thesis using Cons eq disj d by (auto simp: xh_inv_def dll_def)
qed

text \<open>What a table is set up with, and its memory count: one block for the rows and \<open>k\<close> nodes.\<close>

definition same_setup :: "('k, 'd) xhash \<Rightarrow> ('k, 'd) xhash \<Rightarrow> bool" where
  "same_setup t t' \<longleftrightarrow>
     hash_fcn t' = hash_fcn t \<and> keycmp_fcn t' = keycmp_fcn t \<and> nrows t' = nrows t \<and> splay t' = splay t \<and>
     max_nodes t' = max_nodes t \<and> datasize t' = datasize t \<and> keysize t' = keysize t \<and>
     anr_flag t' = anr_flag t \<and> anrfree t' = anrfree t \<and> usrfree t' = usrfree t \<and>
     recycle_nodes t' = recycle_nodes t \<and> zero_data t' = zero_data t \<and> mc_cap (mc t') = mc_cap (mc t)"

definition mem_ok :: "('k, 'd) xhash \<Rightarrow> nat \<Rightarrow> bool" where
  "mem_ok t k \<longleftrightarrow>
     memused (mc t) = (8 * ucast (nrows t) + 8) + of_nat k * (node_bytes t + 8) \<and>
     nblocks (mc t) = 1 + of_nat k \<and> unat (node_bytes t) + 8 < 2 ^ 32"

lemma same_setup_refl [simp]: "same_setup t t"
  by (simp add: same_setup_def)

lemma same_setup_trans: "same_setup t t' \<Longrightarrow> same_setup t' t'' \<Longrightarrow> same_setup t t''"
  by (simp add: same_setup_def)

lemma same_setup_conf: "conf t' = conf t \<Longrightarrow> same_setup t t'"
  using conf_fields [of t' "conf t"] by (simp add: same_setup_def)

lemma mem_ok_conf: "conf t' = conf t \<Longrightarrow> mem_ok t' k = mem_ok t k"
  using conf_fields [of t' "conf t"] by (simp add: mem_ok_def node_bytes_def)

lemma mem_ok_alloc:
  assumes "sfmemcap_alloc (node_bytes t) (mc t) = Some m" and "mem_ok t k"
  shows "mem_ok (t\<lparr>mc := m\<rparr>) (Suc k)" and "mc_cap m = mc_cap (mc t)"
  using assms by (auto simp: sfmemcap_alloc_def mem_ok_def node_bytes_def Let_def algebra_simps
      split: if_splits)

lemma xh_inv_alloc:
  assumes "xh_inv t G R F"
  shows "xh_inv (t\<lparr>mc := m, fresh := fresh t + 1, ndata := d\<rparr>) G R F"
  using assms by (simp add: xh_inv_def xh_links_def xh_keys_def row_of_def less_Suc_eq)

lemma newnode_spec:
  assumes i: "xh_inv t G R F" and m: "mem_ok t (length G + length F)"
  shows "\<exists>t' r. xhash_newnode t = Some (t', r) \<and> same_setup t t' \<and>
    (case r of
       None \<Rightarrow> F = [] \<and> \<not> can_alloc t \<and> victim t G = None \<and> xh_inv t' G R [] \<and> conf t' = conf t
     | Some n \<Rightarrow> \<exists>G' R' F'. xh_inv t' G' R' F' \<and> n \<notin> set G' \<and> n \<notin> set F' \<and> n < fresh t' \<and>
         nkey t' = nkey t \<and> (\<forall>j \<in> set G'. ndata t' j = ndata t j) \<and>
         mem_ok t' (Suc (length G' + length F')) \<and> length F' = length F - 1 \<and>
         (if F \<noteq> [] \<or> can_alloc t then G' = G else victim t G = Some n \<and> G' = remove1 n G))"
proof -
  from get_free_spec [OF i] consider
    (free) n zs t' where "F = n # zs" "xhash_get_free_node t = (t', Some n)" "xh_inv t' G R zs"
      "n \<notin> set G" "n \<notin> set zs" "conf t' = conf t" "n < fresh t"
    | (empty) "F = []" "xhash_get_free_node t = (t, None)"
    by blast
  then show ?thesis
  proof cases
    case free
    have f: "fresh t' = fresh t" "nkey t' = nkey t" "ndata t' = ndata t"
      using conf_fields [OF free(6)] by simp_all
    have "mem_ok t' (Suc (length G + length zs))" using m free(1) mem_ok_conf [OF free(6)] by simp
    then show ?thesis
      using free f same_setup_conf [OF free(6)]
      by (intro exI [of _ t'] exI [of _ "Some n"]) (auto simp: xhash_newnode_def)
  next
    case empty
    show ?thesis
    proof (cases "can_alloc t")
      case True
      then obtain mm where mm: "sfmemcap_alloc (node_bytes t) (mc t) = Some mm"
        and cap: "max_nodes t = 0 \<or> xcount t < max_nodes t" by (auto simp: can_alloc_def)
      define t' where "t' = t\<lparr>mc := mm, fresh := fresh t + 1,
        ndata := (ndata t)(fresh t := (if datasize t \<noteq> 0 then Some (zero_data t) else None))\<rparr>"
      have eq: "xhash_newnode t = Some (t', Some (fresh t))"
        using empty mm cap by (simp add: xhash_newnode_def alloc_node_def t'_def)
      have inv: "xh_inv t' G R F" unfolding t'_def by (rule xh_inv_alloc [OF i])
      have nf: "fresh t \<notin> set G" "\<forall>j \<in> set G. j \<noteq> fresh t"
        using i by (auto simp: xh_inv_def xh_keys_def)
      have "mem_ok t' (Suc (length G + length F))"
        using mem_ok_alloc(1) [OF mm m] by (simp add: mem_ok_def node_bytes_def t'_def)
      moreover have "same_setup t t'"
        using mem_ok_alloc(2) [OF mm m] by (simp add: same_setup_def t'_def)
      moreover have "fresh t < fresh t'" "nkey t' = nkey t" "\<forall>j \<in> set G. ndata t' j = ndata t j"
        using nf by (auto simp: t'_def)
      ultimately show ?thesis using eq inv nf empty(1) True
        by (intro exI [of _ t'] exI [of _ "Some (fresh t)"])
          (simp, intro exI [of _ R] exI [of _ "[]"], simp)
    next
      case False
      have al: "alloc_node t = (t, None)" using False by (auto simp: alloc_node_def can_alloc_def)
      have tl: "gtail t = last_or None G" and ch: "chain (gnext t) (gprev t) None G None"
        using i by (auto simp: xh_inv_def xh_links_def dll_def)
      obtain c where w: "anr_walk t (gtail t) = Some (t\<lparr>anr_tries := c\<rparr>, find (lets_go t) (rev G))"
        using anr_walk_chain [OF ch] tl by auto
      let ?t1 = "t\<lparr>anr_tries := c\<rparr>"
      show ?thesis
      proof (cases "victim t G")
        case None
        let ?r = "if anr_flag t \<and> gtail t \<noteq> None then ?t1 else t"
        have "xhash_newnode t = Some (?r, None)"
          using None w by (auto simp: xhash_newnode_def empty al victim_def)
        moreover have "conf ?r = conf t" and "xh_inv ?r G R []" using i empty(1) by auto
        ultimately show ?thesis using None False empty(1) same_setup_conf [of ?r t]
          by (intro exI [of _ ?r] exI [of _ None]) auto
      next
        case (Some n)
        then have anr: "anr_flag t" and f: "find (lets_go t) (rev G) = Some n"
          by (auto simp: victim_def split: if_splits)
        then have n: "n \<in> set G" by (auto simp: find_Some_iff in_set_conv_nth)
          (metis length_rev nth_mem set_rev in_set_conv_nth)
        then have g: "gtail t \<noteq> None" using tl by (auto simp: last_or_def)
        have i1: "xh_inv ?t1 G R F" using i by simp
        from anr_unlink_spec [OF i1 n] obtain R' where
          inv: "xh_inv (anr_unlink ?t1 n) (remove1 n G) R' F"
          and c: "conf (anr_unlink ?t1 n) = (conf t)\<lparr>xcount := xcount t - 1\<rparr>" by auto
        let ?t2 = "anr_unlink ?t1 n"
        have eq: "xhash_newnode t = Some (?t2, Some n)"
          using anr g f w by (simp add: xhash_newnode_def empty al)
        have d: "distinct G" using i by (simp add: xh_inv_def xh_links_def dll_def)
        have len: "Suc (length (remove1 n G)) = length G"
          using n length_pos_if_in_set [OF n] by (simp add: length_remove1)
        have "mem_ok ?t2 (length G + length F)"
          using m conf_fields [OF c] by (simp add: mem_ok_def node_bytes_def)
        moreover have "Suc (length (remove1 n G) + length F) = length G + length F" using len by simp
        ultimately have m2: "mem_ok ?t2 (Suc (length (remove1 n G) + length F))" by (simp only:)
        have "n < fresh t" using i n by (simp add: xh_inv_def xh_keys_def)
        moreover have "same_setup t ?t2" using conf_fields [OF c] by (simp add: same_setup_def)
        ultimately show ?thesis
          using eq inv m2 d conf_fields(1,2,8) [OF c] Some False empty(1)
          by (intro exI [of _ ?t2] exI [of _ "Some n"])
            (simp, intro exI [of _ R'] exI [of _ "[]"], simp)
      qed
    qed
  qed
qed

section \<open>Adding and removing\<close>

definition ents :: "('k, 'd) xhash \<Rightarrow> nat list \<Rightarrow> ('k \<times> 'd option) list" where
  "ents t G = map (\<lambda>n. (nkey t n, ndata t n)) G"

text \<open>The table holds the entries \<open>es\<close>, the most recently used one first.\<close>

definition holds :: "('k, 'd) xhash \<Rightarrow> ('k \<times> 'd option) list \<Rightarrow> nat \<Rightarrow> bool" where
  "holds t es nfree \<longleftrightarrow>
     (\<exists>G R F. xh_inv t G R F \<and> ents t G = es \<and> length F = nfree \<and> mem_ok t (length G + length F)) \<and>
     key_ops (keycmp_fcn t) (hash_fcn t) \<and> 0 < splay t"

lemma holdsI:
  "xh_inv t G R F \<Longrightarrow> ents t G = es \<Longrightarrow> length F = f \<Longrightarrow> mem_ok t (length G + length F) \<Longrightarrow>
   key_ops (keycmp_fcn t) (hash_fcn t) \<Longrightarrow> 0 < splay t \<Longrightarrow> holds t es f"
  unfolding holds_def by blast

lemma holds_count: "holds t es f \<Longrightarrow> xcount t = of_nat (length es)"
  by (auto simp: holds_def xh_inv_def xh_keys_def ents_def)

text \<open>The dictionary operations on lists of entries.\<close>

definition e_find :: "('k \<Rightarrow> 'k \<Rightarrow> bool) \<Rightarrow> 'k \<Rightarrow> ('k \<times> 'd) list \<Rightarrow> ('k \<times> 'd) option" where
  "e_find cmp k es = find (\<lambda>e. cmp (fst e) k) es"

definition e_remove :: "('k \<Rightarrow> 'k \<Rightarrow> bool) \<Rightarrow> 'k \<Rightarrow> ('k \<times> 'd) list \<Rightarrow> ('k \<times> 'd) list" where
  "e_remove cmp k es = filter (\<lambda>e. \<not> cmp (fst e) k) es"

definition e_touch :: "('k \<Rightarrow> 'k \<Rightarrow> bool) \<Rightarrow> 'k \<Rightarrow> ('k \<times> 'd) list \<Rightarrow> ('k \<times> 'd) list" where
  "e_touch cmp k es = (case e_find cmp k es of None \<Rightarrow> es | Some e \<Rightarrow> e # e_remove cmp k es)"

lemma find_map: "find P (map f xs) = map_option f (find (P \<circ> f) xs)"
  by (induction xs) auto

lemma e_find_ents: "e_find (keycmp_fcn t) k (ents t G) =
    map_option (\<lambda>n. (nkey t n, ndata t n)) (find (is_key t k) G)"
  by (simp add: e_find_def ents_def find_map comp_def is_key_def [abs_def])

lemma e_remove_ents: "e_remove (keycmp_fcn t) k (ents t G) = ents t (filter (\<lambda>n. \<not> is_key t k n) G)"
  by (simp add: e_remove_def ents_def filter_map comp_def is_key_def)

lemma ents_cong: "nkey t' = nkey t \<Longrightarrow> \<forall>j \<in> set G. ndata t' j = ndata t j \<Longrightarrow> ents t' G = ents t G"
  by (simp add: ents_def)

lemma holds_stats [simp]:
  "holds (t\<lparr>cnode := p\<rparr>) es f = holds t es f" "holds (t\<lparr>max_nodes := x\<rparr>) es f = holds t es f"
  by (simp_all add: holds_def mem_ok_def node_bytes_def ents_def)

lemma find_row_holds:
  assumes h: "holds t es f" and c: "keycmp_fcn t = cmp"
  shows "\<exists>t' p. xhash_find_node_row t k = Some (t', p, row_of t k) \<and> holds t' (e_touch cmp k es) f \<and>
    conf t' = conf t \<and> map_option (\<lambda>n. (nkey t n, ndata t n)) p = e_find cmp k es"
proof -
  obtain G R F where i: "xh_inv t G R F" and es: "ents t G = es" and F: "length F = f"
    and m: "mem_ok t (length G + length F)" and k: "key_ops (keycmp_fcn t) (hash_fcn t)" and s: "0 < splay t"
    using h by (auto simp: holds_def)
  let ?G = "case find (is_key t k) G of None \<Rightarrow> G | Some n \<Rightarrow> n # filter (\<lambda>m. \<not> is_key t k m) G"
  obtain t' R' where f: "xhash_find_node_row t k = Some (t', find (is_key t k) G, row_of t k)"
    and i': "xh_inv t' ?G R' F" and c': "conf t' = conf t"
    using find_node_row_spec [OF i k s] by blast
  have e: "e_find cmp k es = map_option (\<lambda>n. (nkey t n, ndata t n)) (find (is_key t k) G)"
    using e_find_ents [of t k G] es c by simp
  have "ents t ?G = e_touch cmp k es"
    using e_remove_ents [of t k G] es c
    by (simp add: e_touch_def e split: option.split) (simp add: ents_def)
  then have es': "ents t' ?G = e_touch cmp k es" using conf_fields(1,2) [OF c'] by (simp add: ents_def)
  have x: "xcount t = of_nat (length G)" using i by (simp add: xh_inv_def xh_keys_def)
  have d: "distinct G" using i by (simp add: xh_inv_def xh_links_def dll_def)
  have "length ?G = length G"
  proof (cases "find (is_key t k) G")
    case (Some n)
    then have n: "n \<in> set G" by (auto simp: find_Some_iff)
    have "Suc (length (remove1 n G)) = length G"
      using n length_pos_if_in_set [OF n] by (simp add: length_remove1)
    then show ?thesis using Some unfolding remove1_unique [OF d find_is_key_row(2) [OF i k] Some] by simp
  qed simp
  then have "mem_ok t' (length ?G + length F)" using m mem_ok_conf [OF c'] by simp
  then have "holds t' (e_touch cmp k es) f"
    using i' es' F k s conf_fields(6,7,11) [OF c'] unfolding holds_def by auto
  then show ?thesis using f c' e by auto
qed

lemma remove1_map:
  "find P xs = Some n \<Longrightarrow> \<forall>x. f x = f n \<longrightarrow> P x \<Longrightarrow> remove1 (f n) (map f xs) = map f (remove1 n xs)"
  by (induction xs) (auto split: if_splits)

lemma rev_remove1_rev: "distinct xs \<Longrightarrow> rev (remove1 x (rev xs)) = remove1 x xs"
  by (simp add: distinct_remove1_removeAll removeAll_filter_not_eq rev_filter)

text \<open>
  The oldest entry that the user lets go, and the entries without it.  \<open>None\<close> when the table
  does not recover nodes or the user refuses all of them.
\<close>

definition e_evict ::
    "bool \<Rightarrow> ('k \<Rightarrow> 'd option \<Rightarrow> bool) option \<Rightarrow> ('k \<times> 'd option) list \<Rightarrow> ('k \<times> 'd option) list option" where
  "e_evict anr refuses es =
     (if \<not> anr then None
      else case find (\<lambda>(k, d). case refuses of None \<Rightarrow> True | Some r \<Rightarrow> \<not> r k d) (rev es) of
             None \<Rightarrow> None
           | Some e \<Rightarrow> Some (rev (remove1 e (rev es))))"

lemma victim_evict:
  assumes "distinct G"
  shows "e_evict (anr_flag t) (anrfree t) (ents t G) = map_option (\<lambda>n. ents t (remove1 n G)) (victim t G)"
proof (cases "victim t G")
  case None
  then show ?thesis
    by (auto simp: e_evict_def victim_def ents_def rev_map find_map comp_def lets_go_def [abs_def]
        split: if_splits)
next
  case (Some n)
  then have a: "anr_flag t" and f: "find (lets_go t) (rev G) = Some n" by (auto simp: victim_def split: if_splits)
  let ?f = "\<lambda>n. (nkey t n, ndata t n)"
  have "remove1 (?f n) (map ?f (rev G)) = map ?f (remove1 n (rev G))"
  proof (rule remove1_map [OF f], intro allI impI)
    fix x assume "?f x = ?f n"
    moreover have "lets_go t n" using f by (auto simp: find_Some_iff)
    ultimately show "lets_go t x" by (auto simp: lets_go_def split: option.splits)
  qed
  then have "rev (remove1 (?f n) (rev (map ?f G))) = map ?f (remove1 n G)"
    using rev_remove1_rev [OF assms, of n] by (simp add: rev_map)
  moreover have "find (\<lambda>(k, d). case anrfree t of None \<Rightarrow> True | Some r \<Rightarrow> \<not> r k d) (rev (map ?f G)) = Some (?f n)"
    using f by (simp add: rev_map find_map comp_def lets_go_def [abs_def])
  ultimately show ?thesis using a Some by (simp add: e_evict_def ents_def)
qed

lemma link_new_inv:
  assumes i: "xh_inv t G R F" and n: "n \<notin> set G" "n \<notin> set F" "n < fresh t"
    and k: "key_ops (keycmp_fcn t) (hash_fcn t)" and no: "\<forall>m \<in> set G. \<not> keycmp_fcn t (nkey t m) k"
    and t': "t' = t\<lparr>nkey := (nkey t)(n := k), rindex := (rindex t)(n := row_of t k), ndata := d\<rparr>"
  shows "\<exists>R'. xh_inv (link_new t' n) (n # G) R' F \<and>
    conf (link_new t' n) = (conf t')\<lparr>xcount := xcount t' + 1\<rparr>"
proof -
  have l: "xh_links t G R F" and x: "xh_keys t G F" using i by (auto simp: xh_inv_def)
  have sub: "\<forall>j < unat (nrows t). n \<notin> set (R j)" using l n by (auto simp: xh_links_def)
  have "rows_ok (rnext t) (rprev t) (tbl t) (rindex t) (unat (nrows t)) R" using l by (simp add: xh_links_def)
  then have "rows_ok (rnext t) (rprev t) (tbl t) ((rindex t)(n := row_of t k)) (unat (nrows t)) R"
    using sub unfolding rows_ok_def by auto
  moreover have "\<forall>j < unat (nrows t). set (R j) = {m \<in> set G. ((rindex t)(n := row_of t k)) m = j}"
  proof -
    have "{m \<in> set G. ((rindex t)(n := row_of t k)) m = j} = {m \<in> set G. rindex t m = j}" for j
      using n(1) by auto
    then show ?thesis using l by (simp add: xh_links_def)
  qed
  ultimately have l': "xh_links t' G R F" using l unfolding xh_links_def t' by simp
  have r: "rindex t' n = row_of t k" "nrows t' = nrows t" by (simp_all add: t')
  have "rindex t' n < unat (nrows t')" using x row_of_less [of t k] by (simp add: r xh_keys_def)
  note lk = links_link [OF l' n(1,2) this]
  let ?t1 = "xhash_glink_node (xhash_link_node t' n) n"
  have eq: "link_new t' n = ?t1\<lparr>xcount := xcount ?t1 + 1\<rparr>" by (simp add: link_new_def Let_def)
  note cf = conf_fields [OF lk(2)]
  have nd: "\<forall>m \<in> set G. m \<noteq> n" using n by auto
  have no': "\<forall>m \<in> set G. \<not> keycmp_fcn t k (nkey t m)" using no key_ops.cmp_sym [OF k] by blast
  have "xh_keys (link_new t' n) (n # G) F"
    using x n nd no no' cf unfolding eq by (auto simp: xh_keys_def row_of_def t')
  moreover have "xh_links (link_new t' n) (n # G) (R(rindex t' n := n # R (rindex t' n))) F"
    using lk(1) unfolding eq by (simp add: xh_links_def)
  moreover have "conf (link_new t' n) = (conf t')\<lparr>xcount := xcount t' + 1\<rparr>"
    using lk(2) cf(5) unfolding eq by simp
  ultimately show ?thesis unfolding xh_inv_def by blast
qed

lemma can_alloc_conf: "conf t' = conf t \<Longrightarrow> can_alloc t' = can_alloc t"
  using conf_fields [of t' "conf t"] by (simp add: can_alloc_def node_bytes_def)

lemma add_new_holds:
  assumes h: "holds t es f" and c: "keycmp_fcn t = cmp" and no: "e_find cmp k es = None"
    and nn: "xhash_newnode t = Some (t2, r)"
    and add: "add = (\<lambda>t2 n. link_new (t2\<lparr>nkey := (nkey t2)(n := k), rindex := (rindex t2)(n := row_of t k),
      ndata := (if datasize t2 \<noteq> 0 \<and> d = None then ndata t2 else (ndata t2)(n := d))\<rparr>) n)"
  shows "case r of
      None \<Rightarrow> f = 0 \<and> \<not> can_alloc t \<and> e_evict (anr_flag t) (anrfree t) es = None \<and> holds t2 es f \<and>
        same_setup t t2
    | Some n \<Rightarrow> same_setup t (add t2 n) \<and>
        (\<exists>es' f' d'. holds (add t2 n) ((k, d') # es') f' \<and> (datasize t \<noteq> 0 \<and> d = None \<or> d' = d) \<and>
          f' = f - 1 \<and>
          (if 0 < f \<or> can_alloc t then es' = es
           else e_evict (anr_flag t) (anrfree t) es = Some es'))"
proof -
  obtain G R F where i: "xh_inv t G R F" and es: "ents t G = es" and F: "length F = f"
    and m: "mem_ok t (length G + length F)" and ko: "key_ops (keycmp_fcn t) (hash_fcn t)" and s: "0 < splay t"
    using h by (auto simp: holds_def)
  have d: "distinct G" using i by (simp add: xh_inv_def xh_links_def dll_def)
  note ev = victim_evict [OF d, of t, unfolded es]
  note ns = newnode_spec [OF i m, unfolded nn]
  have su: "same_setup t t2" using ns by auto
  show ?thesis
  proof (cases r)
    case None
    then have "F = []" "\<not> can_alloc t" "victim t G = None" "xh_inv t2 G R []" "conf t2 = conf t"
      using ns by auto
    moreover from this have "ents t2 G = es" and "mem_ok t2 (length G)"
      using es m mem_ok_conf [of t2 t] conf_fields(1,2) [of t2 "conf t"] by (simp_all add: ents_def)
    ultimately have "holds t2 es f" using F ko s conf_fields(6,7,11) [of t2 "conf t"]
      unfolding holds_def by auto
    then show ?thesis using None F ev su \<open>F = []\<close> \<open>\<not> can_alloc t\<close> \<open>victim t G = None\<close> by simp
  next
    case (Some n)
    then obtain G' R' F' where i2: "xh_inv t2 G' R' F'" and n: "n \<notin> set G'" "n \<notin> set F'" "n < fresh t2"
      and kd: "nkey t2 = nkey t" "\<forall>j \<in> set G'. ndata t2 j = ndata t j"
      and m2: "mem_ok t2 (Suc (length G' + length F'))" and F': "length F' = f - 1"
      and sel: "if F \<noteq> [] \<or> can_alloc t then G' = G else victim t G = Some n \<and> G' = remove1 n G"
      using ns F by auto
    define nd where "nd = (if datasize t2 \<noteq> 0 \<and> d = None then ndata t2 else (ndata t2)(n := d))"
    define t3 where "t3 = t2\<lparr>nkey := (nkey t2)(n := k), rindex := (rindex t2)(n := row_of t k), ndata := nd\<rparr>"
    have rt: "row_of t2 k = row_of t k" using su by (simp add: row_of_def same_setup_def)
    have ko2: "key_ops (keycmp_fcn t2) (hash_fcn t2)" using ko su by (simp add: same_setup_def)
    have "\<forall>m \<in> set G. \<not> keycmp_fcn t (nkey t m) k"
      using no e_find_ents [of t k G] es c by (auto simp: find_None_iff is_key_def)
    moreover have "set G' \<subseteq> set G" using sel set_remove1_subset [of n G] by (auto split: if_splits)
    ultimately have no2: "\<forall>m \<in> set G'. \<not> keycmp_fcn t2 (nkey t2 m) k"
      using kd(1) su by (auto simp: same_setup_def)
    have t3: "t3 = t2\<lparr>nkey := (nkey t2)(n := k), rindex := (rindex t2)(n := row_of t2 k), ndata := nd\<rparr>"
      by (simp add: t3_def rt)
    from link_new_inv [OF i2 n ko2 no2 t3] obtain R'' where
      inv: "xh_inv (link_new t3 n) (n # G') R'' F'"
      and cf: "conf (link_new t3 n) = (conf t3)\<lparr>xcount := xcount t3 + 1\<rparr>" by blast
    have add_eq: "add t2 n = link_new t3 n" by (simp add: add t3_def nd_def)
    note fs = conf_fields [OF cf]
    have "ents (link_new t3 n) (n # G') = (k, nd n) # ents t G'"
      using fs(1,2) n(1) kd by (auto simp: ents_def t3_def nd_def)
    moreover have "mem_ok (link_new t3 n) (length (n # G') + length F')"
      using m2 fs(4,9,12,13) by (simp add: mem_ok_def node_bytes_def t3_def)
    moreover have "key_ops (keycmp_fcn (link_new t3 n)) (hash_fcn (link_new t3 n))" "0 < splay (link_new t3 n)"
      using ko2 s su fs(6,7,11) by (simp_all add: t3_def same_setup_def)
    ultimately have "holds (add t2 n) ((k, nd n) # ents t G') (f - 1)"
      unfolding add_eq F' [symmetric] by (intro holdsI [OF inv]) simp_all
    moreover have "same_setup t (add t2 n)"
      using su fs unfolding add_eq by (simp add: same_setup_def t3_def)
    moreover have "datasize t \<noteq> 0 \<and> d = None \<or> nd n = d"
      using su by (simp add: nd_def same_setup_def)
    moreover have "if 0 < f \<or> can_alloc t then ents t G' = es
        else e_evict (anr_flag t) (anrfree t) es = Some (ents t G')"
      using sel ev es F by (auto split: if_splits)
    ultimately show ?thesis unfolding Some option.case by blast
  qed
qed

lemma add_holds:
  assumes h: "holds t es f" and c: "keycmp_fcn t = cmp"
  shows "\<exists>t' res. xhash_add t k d = Some (t', res) \<and> same_setup t t' \<and>
    (case e_find cmp k es of
       Some e \<Rightarrow> res = XHASH_INTABLE \<and> holds t' (e_touch cmp k es) f
     | None \<Rightarrow>
         if f = 0 \<and> \<not> can_alloc t \<and> e_evict (anr_flag t) (anrfree t) es = None
         then res = XHASH_NOMEM \<and> holds t' es f
         else res = XHASH_OK \<and>
           (\<exists>es' f' d'. holds t' ((k, d') # es') f' \<and> (datasize t \<noteq> 0 \<and> d = None \<or> d' = d) \<and>
             f' = f - 1 \<and>
             (if 0 < f \<or> can_alloc t then es' = es
              else e_evict (anr_flag t) (anrfree t) es = Some es')))"
proof -
  obtain t1 p where f: "xhash_find_node_row t k = Some (t1, p, row_of t k)"
    and h1: "holds t1 (e_touch cmp k es) f" and c1: "conf t1 = conf t"
    and p: "map_option (\<lambda>n. (nkey t n, ndata t n)) p = e_find cmp k es"
    using find_row_holds [OF h c, of k] by blast
  note s1 = same_setup_conf [OF c1]
  show ?thesis
  proof (cases p)
    case (Some n)
    then show ?thesis using f h1 p s1
      by (auto simp: xhash_add_def xhash_add_ex_def same_setup_def split: option.splits)
  next
    case None
    then have no: "e_find cmp k es = None" using p by simp
    then have h1': "holds t1 es f" using h1 by (simp add: e_touch_def)
    have c1': "keycmp_fcn t1 = cmp" using c s1 by (simp add: same_setup_def)
    obtain G R F where "xh_inv t1 G R F" "mem_ok t1 (length G + length F)"
      using h1' by (auto simp: holds_def)
    from newnode_spec [OF this] obtain t2 r where nn: "xhash_newnode t1 = Some (t2, r)" by blast
    have rt: "row_of t1 k = row_of t k" using s1 by (simp add: row_of_def same_setup_def)
    have eqs: "anr_flag t1 = anr_flag t" "anrfree t1 = anrfree t" "datasize t1 = datasize t"
      "can_alloc t1 = can_alloc t"
      using s1 can_alloc_conf [OF c1] by (auto simp: same_setup_def)
    note an = add_new_holds [OF h1' c1' no nn refl, of d, unfolded rt eqs]
    show ?thesis
    proof (cases r)
      case None
      then have "xhash_add t k d = Some (t2, XHASH_NOMEM)"
        using f \<open>p = None\<close> nn by (simp add: xhash_add_def xhash_add_ex_def)
      then show ?thesis using an None no same_setup_trans [OF s1] by auto
    next
      case (Some n)
      let ?t4 = "t2\<lparr>nkey := (nkey t2)(n := k), rindex := (rindex t2)(n := row_of t k),
        ndata := (if datasize t2 \<noteq> 0 \<and> d = None then ndata t2 else (ndata t2)(n := d))\<rparr>"
      have "xhash_add t k d = Some (link_new ?t4 n, XHASH_OK)"
        using f \<open>p = None\<close> nn Some by (simp add: xhash_add_def xhash_add_ex_def Let_def)
      then show ?thesis using an Some no same_setup_trans [OF s1] by (auto split: if_splits)
    qed
  qed
qed

lemma find_holds:
  assumes h: "holds t es f" and c: "keycmp_fcn t = cmp"
  shows "\<exists>t'. xhash_find t k = Some (t', case e_find cmp k es of Some (_, d) \<Rightarrow> d | None \<Rightarrow> None) \<and>
    same_setup t t' \<and> holds t' (e_touch cmp k es) f"
proof -
  obtain t1 p where f: "xhash_find_node_row t k = Some (t1, p, row_of t k)"
    and h1: "holds t1 (e_touch cmp k es) f" and c1: "conf t1 = conf t"
    and p: "map_option (\<lambda>n. (nkey t n, ndata t n)) p = e_find cmp k es"
    using find_row_holds [OF h c, of k] by blast
  have "xhash_find t k = Some (t1, case e_find cmp k es of Some (_, d) \<Rightarrow> d | None \<Rightarrow> None)"
    using f p conf_fields(2) [OF c1] by (auto simp: xhash_find_def split: option.splits)
  then show ?thesis using h1 same_setup_conf [OF c1] by blast
qed

lemma mem_ok_free:
  assumes "mem_ok t (Suc k)"
  shows "mem_ok (t\<lparr>mc := sfmemcap_free (node_bytes t) (mc t)\<rparr>) k"
proof -
  have b: "unat (node_bytes t) + 8 < 2 ^ 32" using assms by (simp add: mem_ok_def)
  then have "unat (node_bytes t + 8) = unat (node_bytes t) + 8" by (subst unat_add_nowrap) simp_all
  then have "ucast (ucast (node_bytes t + 8) :: u32) = node_bytes t + 8"
    using b by (simp add: word_unat_eq_iff unsigned_ucast_eq unsigned_take_bit_eq take_bit_nat_eq_self)
  then show ?thesis
    using assms by (simp add: mem_ok_def sfmemcap_free_def node_bytes_def algebra_simps)
qed

lemma free_node_spec:
  assumes i: "xh_inv t G R F" and n: "n \<in> set G" and m: "mem_ok t (length G + length F)"
  shows "\<exists>R' F'. xh_inv (xhash_free_node t n) (remove1 n G) R' F' \<and>
    mem_ok (xhash_free_node t n) (length (remove1 n G) + length F') \<and> same_setup t (xhash_free_node t n) \<and>
    nkey (xhash_free_node t n) = nkey t \<and> ndata (xhash_free_node t n) = ndata t \<and>
    length F' \<le> Suc (length F)"
proof -
  have l: "xh_links t G R F" and x: "xh_keys t G F" using i by (auto simp: xh_inv_def)
  obtain ys zs where G: "G = ys @ n # zs" and ny: "n \<notin> set ys" using n by (auto dest: split_list_first)
  have rm: "remove1 n G = ys @ zs" using G ny by (simp add: remove1_append)
  have dG: "distinct G" using l by (simp add: xh_links_def dll_def)
  then have nz: "n \<notin> set (ys @ zs)" using G by auto
  have nF: "n \<notin> set F" using l n by (auto simp: xh_links_def)
  have "rindex t n < unat (nrows t)" using x n row_of_less by (auto simp: xh_keys_def)
  from links_unlink [OF l G this] obtain R' where
    l1: "xh_links (xhash_gunlink_node (xhash_unlink_node t n) n) (ys @ zs) R' F"
    and c1: "conf (xhash_gunlink_node (xhash_unlink_node t n) n) = conf t" by blast
  define t1 where "t1 = xhash_gunlink_node (xhash_unlink_node t n) n"
  define t3 where "t3 = t1\<lparr>xcount := xcount t1 - 1,
    released := (if usrfree t1 then released t1 @ [(nkey t1 n, ndata t1 n)] else released t1)\<rparr>"
  have eq: "xhash_free_node t n = (if recycle_nodes t3 then xhash_save_free_node t3 n
      else t3\<lparr>mc := sfmemcap_free (node_bytes t3) (mc t3)\<rparr>)"
    by (cases "usrfree t1") (simp_all add: xhash_free_node_def Let_def t3_def t1_def [symmetric])
  have l3: "xh_links t3 (ys @ zs) R' F" using l1 by (simp add: xh_links_def t3_def t1_def)
  note f1 = conf_fields [OF c1 [folded t1_def]]
  have x3: "xh_keys t3 (ys @ zs) F" using x f1 G by (simp add: xh_keys_def row_of_def t3_def)
  have len: "length G + length F = Suc (length (ys @ zs) + length F)" using G by simp
  have m3: "mem_ok t3 (Suc (length (ys @ zs) + length F))"
    using m f1 unfolding len by (simp add: mem_ok_def node_bytes_def t3_def)
  have s3: "same_setup t t3" using f1 by (simp add: same_setup_def t3_def)
  have k3: "nkey t3 = nkey t" "ndata t3 = ndata t" "fresh t3 = fresh t" using f1 by (simp_all add: t3_def)
  show ?thesis
  proof (cases "recycle_nodes t3")
    case True
    let ?t4 = "xhash_save_free_node t3 n"
    have df: "dll (gnext t3) (gprev t3) (fhead t3) F" and dg: "dll (gnext t3) (gprev t3) (ghead t3) (ys @ zs)"
      and dj: "set (ys @ zs) \<inter> set F = {}" and tf: "ftail t3 = last_or None F"
      using l3 by (auto simp: xh_links_def)
    have hf: "fhead t3 = first_or F None" using df by (simp add: dll_def)
    have g4: "dll ((gnext t3)(n := fhead t3)) (upd ((gprev t3)(n := None)) (fhead t3) (Some n)) (ghead t3) (ys @ zs)"
      using dg nz dj unfolding hf
      by (subst dll_frame [of _ _ "gnext t3" _ "gprev t3"]) (auto simp: upd_def first_or_def split: list.split)
    have tl: "(if fhead t3 = None then Some n else ftail t3) = last_or None (n # F)"
      unfolding hf tf by (auto simp: first_or_def last_or_def split: list.split)
    have "xh_links ?t4 (ys @ zs) R' (n # F)"
      using l3 dll_push [OF df nF] g4 tl nz unfolding xh_links_def save_free_eq by simp
    moreover have "xh_keys ?t4 (ys @ zs) (n # F)"
      using x3 x n k3 by (simp add: xh_keys_def row_of_def save_free_eq)
    moreover have "mem_ok ?t4 (length (ys @ zs) + length (n # F))"
      using m3 by (simp add: mem_ok_def node_bytes_def save_free_eq)
    moreover have "same_setup t ?t4" using s3 by (simp add: same_setup_def save_free_eq)
    moreover have "nkey ?t4 = nkey t" "ndata ?t4 = ndata t" using k3 by (simp_all add: save_free_eq)
    ultimately show ?thesis unfolding rm eq if_P [OF True] xh_inv_def
      by (metis length_Cons order_refl)
  next
    case False
    let ?t4 = "t3\<lparr>mc := sfmemcap_free (node_bytes t3) (mc t3)\<rparr>"
    have "xh_inv ?t4 (ys @ zs) R' F" using l3 x3 by (simp add: xh_inv_def xh_links_def xh_keys_def row_of_def)
    moreover have "same_setup t ?t4" using s3 by (simp add: same_setup_def sfmemcap_free_def)
    moreover have "nkey ?t4 = nkey t" "ndata ?t4 = ndata t" using k3 by simp_all
    ultimately show ?thesis unfolding rm eq if_not_P [OF False] using mem_ok_free [OF m3]
      by (meson le_SucI order_refl)
  qed
qed

lemma remove_holds:
  assumes h: "holds t es f" and c: "keycmp_fcn t = cmp"
  shows "\<exists>t' f'. xhash_remove t k = Some (t', if e_find cmp k es = None then XHASH_ERR else XHASH_OK) \<and>
    same_setup t t' \<and> holds t' (e_remove cmp k es) f' \<and> length (e_remove cmp k es) + f' \<le> length es + f"
proof -
  obtain G R F where i: "xh_inv t G R F" and es: "ents t G = es" and F: "length F = f"
    and m: "mem_ok t (length G + length F)" and ko: "key_ops (keycmp_fcn t) (hash_fcn t)" and s: "0 < splay t"
    using h by (auto simp: holds_def)
  have e: "e_find cmp k es = map_option (\<lambda>n. (nkey t n, ndata t n)) (find (is_key t k) G)"
    using e_find_ents [of t k G] es c by simp
  have r: "e_remove cmp k es = ents t (filter (\<lambda>n. \<not> is_key t k n) G)"
    using e_remove_ents [of t k G] es c by simp
  show ?thesis
  proof (cases "find (is_key t k) G")
    case None
    then have "filter (\<lambda>n. \<not> is_key t k n) G = G" by (simp add: find_None_iff filter_id_conv)
    then show ?thesis using None h es
      by (auto simp: xhash_remove_def row_walk_eq [OF i ko] e r)
  next
    case (Some n)
    then have n: "n \<in> set G" by (auto simp: find_Some_iff)
    have d: "distinct G" using i by (simp add: xh_inv_def xh_links_def dll_def)
    note rm = remove1_unique [OF d find_is_key_row(2) [OF i ko] Some]
    obtain R' F' where f: "xh_inv (xhash_free_node t n) (remove1 n G) R' F'"
      "mem_ok (xhash_free_node t n) (length (remove1 n G) + length F')" "same_setup t (xhash_free_node t n)"
      "nkey (xhash_free_node t n) = nkey t" "ndata (xhash_free_node t n) = ndata t" "length F' \<le> Suc (length F)"
      using free_node_spec [OF i n m] by blast
    have "ents (xhash_free_node t n) (remove1 n G) = e_remove cmp k es"
      unfolding r rm using f(4,5) by (simp add: ents_def)
    from holdsI [OF f(1) this refl f(2)] have "holds (xhash_free_node t n) (e_remove cmp k es) (length F')"
      using ko s f(3) by (simp add: same_setup_def)
    moreover have "length (e_remove cmp k es) + length F' \<le> length es + f"
    proof -
      have "Suc (length (remove1 n G)) = length G"
        using n length_pos_if_in_set [OF n] by (simp add: length_remove1)
      then show ?thesis using f(6) F es unfolding r rm by (auto simp: ents_def)
    qed
    ultimately show ?thesis using f(3) Some by (auto simp: xhash_remove_def row_walk_eq [OF i ko] e)
  qed
qed

end
