(* ===== verification/XHash_Run.thy ===== *)
theory XHash_Run
  imports XHash_Spec "HOL-Library.Multiset"
begin

unbundle bit_operations_syntax

text \<open>
  Whole lives of a table of \<open>XHash\<close>: from \<open>xhash_new\<close> through any sequence of additions, searches
  and removals, its answers are those of a dictionary; with a limit on the number of nodes it is
  a least-recently-used cache; and \<open>xhash_delete\<close> returns all of its memory.
\<close>

section \<open>The number of rows\<close>

lemma smear_step:
  assumes "\<And>k. bit y k \<longleftrightarrow> (\<exists>j < m. bit (x :: u32) (k + j))"
  shows "bit (y OR drop_bit m y) k \<longleftrightarrow> (\<exists>j < 2 * m. bit x (k + j))"
proof -
  have "(\<exists>j < 2 * m. bit x (k + j)) \<longleftrightarrow> (\<exists>j < m. bit x (k + j)) \<or> (\<exists>j < m. bit x (m + k + j))"
  proof
    assume "\<exists>j < 2 * m. bit x (k + j)"
    then obtain j where j: "j < 2 * m" "bit x (k + j)" by blast
    show "(\<exists>j < m. bit x (k + j)) \<or> (\<exists>j < m. bit x (m + k + j))"
    proof (cases "j < m")
      case False
      then have "j - m < m" "m + k + (j - m) = k + j" using j by auto
      then show ?thesis using j by metis
    qed (use j in blast)
  next
    assume "(\<exists>j < m. bit x (k + j)) \<or> (\<exists>j < m. bit x (m + k + j))"
    then show "\<exists>j < 2 * m. bit x (k + j)"
    proof
      assume "\<exists>j < m. bit x (m + k + j)"
      then obtain j where "j < m" "bit x (m + k + j)" by blast
      then show ?thesis by (intro exI [of _ "m + j"]) (simp add: ac_simps)
    next
      assume "\<exists>j < m. bit x (k + j)"
      then obtain j where "j < m" "bit x (k + j)" by blast
      then show ?thesis by (intro exI [of _ j]) simp
    qed
  qed
  then show ?thesis by (simp add: bit_or_iff bit_drop_bit_eq assms)
qed

lemma smear_bits:
  "bit (fold (\<lambda>i n. n OR drop_bit i n) [1, 2, 4, 8, 16] (x :: u32)) k \<longleftrightarrow> (\<exists>j < 32. bit x (k + j))"
proof -
  have 0: "bit x k \<longleftrightarrow> (\<exists>j < 1. bit x (k + j))" for k by simp
  note 1 = smear_step [OF 0]
  note 2 = smear_step [OF 1]
  note 3 = smear_step [OF 2]
  note 4 = smear_step [OF 3]
  note 5 = smear_step [OF 4]
  show ?thesis using 5 [of k] by simp
qed

lemma smear_mask:
  assumes "2 ^ h \<le> unat x" and "unat x < 2 ^ Suc h"
  shows "fold (\<lambda>i n. n OR drop_bit i n) [1, 2, 4, 8, 16] (x :: u32) = mask (Suc h)"
proof (rule bit_word_eqI)
  fix k assume k: "k < LENGTH(32)"
  have b: "bit x j \<longleftrightarrow> odd (unat x div 2 ^ j)" for j
    by (simp add: bit_unsigned_iff flip: bit_iff_odd)
  have "unat x < 2 ^ 32" using unsigned_less [of x] by simp
  then have "(2 :: nat) ^ h < 2 ^ 32" using assms(1) by (rule le_less_trans [rotated])
  then have h: "h < 32" by (rule power_less_imp_less_exp [rotated]) simp
  have "unat x div 2 ^ h = 1" using assms by (intro div_nat_eqI) auto
  then have bh: "bit x h" by (simp add: b)
  have bz: "\<not> bit x j" if "h < j" for j
  proof -
    have "unat x < 2 ^ j" using assms(2) that by (metis Suc_leI less_le_trans one_le_numeral power_increasing)
    then show ?thesis by (simp add: b)
  qed
  have "(\<exists>j < 32. bit x (k + j)) \<longleftrightarrow> k \<le> h"
  proof
    assume "\<exists>j < 32. bit x (k + j)"
    then show "k \<le> h" using bz by (metis le_add1 le_trans not_le)
  next
    assume "k \<le> h"
    then show "\<exists>j < 32. bit x (k + j)" using bh h by (intro exI [of _ "h - k"]) auto
  qed
  then show "bit (fold (\<lambda>i n. n OR drop_bit i n) [1, 2, 4, 8, 16] x) k \<longleftrightarrow> bit (mask (Suc h) :: u32) k"
    using k by (simp only: smear_bits) (auto simp: bit_mask_iff)
qed

lemma log2_exists: "0 < (n :: nat) \<Longrightarrow> \<exists>h. 2 ^ h \<le> n \<and> n < 2 ^ Suc h"
proof (induction n rule: less_induct)
  case (less n)
  show ?case
  proof (cases "n = 1")
    case True
    then show ?thesis by (intro exI [of _ 0]) simp
  next
    case False
    then have "n div 2 < n" "0 < n div 2" using less.prems by auto
    from less.IH [OF this] obtain h where "2 ^ h \<le> n div 2" "n div 2 < 2 ^ Suc h" by blast
    then show ?thesis by (intro exI [of _ "Suc h"]) auto
  qed
qed

lemma nearest_powerof2:
  assumes "0 < n" and "n \<le> 2 ^ 31"
  shows "\<exists>e \<le> 31. xhash_nearest_powerof2 n = 2 ^ e \<and> unat n \<le> 2 ^ e \<and> 2 ^ e < 2 * unat n"
proof (cases "n = 1")
  case True
  then show ?thesis by (intro exI [of _ 0]) (simp add: xhash_nearest_powerof2_def)
next
  case False
  have n: "unat n \<noteq> 0" "unat n \<noteq> 1" "unat n \<le> 2 ^ 31"
    using assms False by (auto simp: word_le_nat_alt word_less_nat_alt unat_eq_numeral)
  then have x: "unat (n - 1) = unat n - 1" by (subst unat_sub_nowrap) (auto simp: word_le_nat_alt)
  then have "0 < unat (n - 1)" using n by simp
  then obtain h where h: "2 ^ h \<le> unat (n - 1)" "unat (n - 1) < 2 ^ Suc h" using log2_exists by blast
  have "(2 :: nat) ^ h < 2 ^ 31" using h(1) n x by linarith
  then have hl: "h < 31" by (rule power_less_imp_less_exp [rotated]) simp
  have "xhash_nearest_powerof2 n = 2 ^ Suc h"
    by (simp only: xhash_nearest_powerof2_def smear_mask [OF h]) (simp add: mask_eq_exp_minus_1)
  then show ?thesis using h n x hl by (intro exI [of _ "Suc h"]) auto
qed

section \<open>A new table\<close>

lemma xhash_new_nrows:
  assumes "xhash_new h hash cmp nr ks ds cap anr anrf usrf rec = Some t" and "0 < nr" and "nr \<le> 2 ^ 31"
  shows "\<exists>e \<le> 31. nrows t = 2 ^ e \<and> nr \<le> 2 ^ e \<and> 2 ^ e < 2 * nr" and "0 < nrows t"
proof -
  have eq: "nrows t = xhash_nearest_powerof2 (word_of_int nr)"
    using assms(1,2) by (auto simp: xhash_new_def Let_def split: option.splits)
  have "nr < 2 ^ 32" by (rule le_less_trans [OF assms(3)]) simp
  then have u: "uint (word_of_int nr :: u32) = nr"
    using assms(2) by (simp add: uint_word_of_int)
  then have i: "int (unat (word_of_int nr :: u32)) = nr" by simp
  have w: "0 < (word_of_int nr :: u32)" "(word_of_int nr :: u32) \<le> 2 ^ 31"
    using assms(2,3) u by (simp_all add: word_less_def word_le_def)
  from nearest_powerof2 [OF this] obtain e where e: "e \<le> 31"
    "nrows t = 2 ^ e" "unat (word_of_int nr :: u32) \<le> 2 ^ e" "2 ^ e < 2 * unat (word_of_int nr :: u32)"
    unfolding eq by blast
  have "nr \<le> 2 ^ e" and "2 ^ e < 2 * nr"
    using e(3,4) i by (metis of_nat_le_iff of_nat_numeral of_nat_power,
        metis of_nat_less_iff of_nat_mult of_nat_numeral of_nat_power)
  then show "\<exists>e \<le> 31. nrows t = 2 ^ e \<and> nr \<le> 2 ^ e \<and> 2 ^ e < 2 * nr" using e by blast
  show "0 < nrows t" unfolding e(2) using e(1)
    by (simp add: word_neq_0_conv [symmetric] flip: bit_eq_iff) 
qed

text \<open>The sizes for which the node size fits in an \<open>int\<close>.\<close>

definition sizes_ok :: "int \<Rightarrow> int \<Rightarrow> bool" where
  "sizes_ok ks ds \<longleftrightarrow> 0 \<le> ks \<and> 0 \<le> ds \<and> ks + ds < 2 ^ 31 - 64"

lemma node_bytes_small:
  assumes "sizes_ok (keysize t) (datasize t)"
  shows "unat (node_bytes t) + 8 < 2 ^ 32"
proof -
  let ?n = "56 + keysize t + datasize t"
  have r: "0 \<le> ?n" "?n < 2 ^ 31" using assms by (auto simp: sizes_ok_def)
  then have "to_int32 ?n = ?n" by (intro to_int32_id) (rule order_trans [of _ 0], simp_all)
  then have "node_bytes t = word_of_int ?n" by (simp add: node_bytes_def)
  moreover have "?n < 2 ^ 64" using r(2) by (rule less_trans) simp
  ultimately have "uint (node_bytes t) = ?n"
    using r(1) by (simp only: uint_word_of_int) (rule mod_pos_pos_trivial, simp_all)
  then have "int (unat (node_bytes t)) = ?n" by simp
  moreover have "?n < 2147483648" using r(2) by simp
  ultimately have "unat (node_bytes t) + 8 < 4294967296" by linarith
  then show ?thesis by simp
qed

lemma xhash_new_holds:
  assumes n: "xhash_new h hash cmp nr ks ds cap anr anrf usrf rec = Some t"
    and r: "0 < nr" "nr \<le> 2 ^ 31" and k: "key_ops cmp hash" and sz: "sizes_ok ks ds"
  shows "holds t [] 0" and "keycmp_fcn t = cmp" and "max_nodes t = 0" and "mc_cap (mc t) = cap"
    and "datasize t = ds" and "anr_flag t = anr" and "anrfree t = anrf" and "usrfree t = usrf"
    and "released t = []" and "keysize t = ks"
proof -
  obtain m where m: "sfmemcap_alloc (8 * ucast (nrows t)) (sfmemcap_init cap) = Some m"
    and t: "t = h\<lparr>hash_fcn := hash, keycmp_fcn := cmp, mc := m, tbl := (\<lambda>_. None),
             anrfree := anrf, usrfree := usrf, keysize := ks, datasize := ds, nrows := nrows t,
             max_nodes := 0, crow := 0, cnode := None, xcount := 0, ghead := None, gtail := None,
             anr_count := 0, anr_tries := 0, anr_flag := anr, splay := 1,
             recycle_nodes := rec, find_success := 0, find_fail := 0,
             overhead_bytes := ucast (memused m), overhead_blocks := nblocks m,
             fhead := None, ftail := None, gnode := None, released := []\<rparr>"
    using n by (auto simp: xhash_new_def Let_def split: option.splits)
  have f: "keycmp_fcn t = cmp" "hash_fcn t = hash" "mc t = m" "tbl t = (\<lambda>_. None)" "keysize t = ks" "datasize t = ds"
    "xcount t = 0" "ghead t = None" "gtail t = None" "fhead t = None" "ftail t = None" "gnode t = None"
    "splay t = 1" "max_nodes t = 0" "anr_flag t = anr" "anrfree t = anrf" "usrfree t = usrf" "released t = []"
    by (subst t, simp)+
  have mm: "memused m = 8 * ucast (nrows t) + 8" "nblocks m = 1" "mc_cap m = cap"
    using m by (auto simp: sfmemcap_alloc_def sfmemcap_init_def Let_def split: if_splits)
  have "xh_inv t [] (\<lambda>_. []) []"
    using xhash_new_nrows(2) [OF n r] f by (simp add: xh_inv_def xh_links_def xh_keys_def rows_ok_def dll_def)
  moreover have "mem_ok t 0" using mm f node_bytes_small [of t] sz by (simp add: mem_ok_def)
  ultimately show "holds t [] 0" using k f by (intro holdsI [of _ "[]" "\<lambda>_. []" "[]"]) (simp_all add: ents_def)
  show "keycmp_fcn t = cmp" "max_nodes t = 0" "mc_cap (mc t) = cap" "datasize t = ds" "anr_flag t = anr"
    "anrfree t = anrf" "usrfree t = usrf" "released t = []" "keysize t = ks"
    using f mm by simp_all
qed

section \<open>Sequences of operations\<close>

datatype ('k, 'd) xop = XAdd 'k 'd | XFind 'k | XRemove 'k

datatype 'd xout = Res xhash_result | Dat "'d option"

fun xhash_step :: "('k, 'd) xop \<Rightarrow> ('k, 'd) xhash \<Rightarrow> (('k, 'd) xhash \<times> 'd xout) option" where
  "xhash_step (XAdd k d) t = map_option (\<lambda>(t, r). (t, Res r)) (xhash_add t k (Some d))"
| "xhash_step (XFind k) t = map_option (\<lambda>(t, d). (t, Dat d)) (xhash_find t k)"
| "xhash_step (XRemove k) t = map_option (\<lambda>(t, r). (t, Res r)) (xhash_remove t k)"

fun xhash_run :: "('k, 'd) xop list \<Rightarrow> ('k, 'd) xhash \<Rightarrow> (('k, 'd) xhash \<times> 'd xout list) option" where
  "xhash_run [] t = Some (t, [])"
| "xhash_run (x # xs) t =
     (case xhash_step x t of
        None \<Rightarrow> None
      | Some (t1, out) \<Rightarrow>
          (case xhash_run xs t1 of None \<Rightarrow> None | Some (t2, outs) \<Rightarrow> Some (t2, out # outs)))"

text \<open>The same operations on a dictionary, given as a function.\<close>

fun dict_step :: "('k \<Rightarrow> 'k \<Rightarrow> bool) \<Rightarrow> ('k, 'd) xop \<Rightarrow> ('k \<Rightarrow> 'd option) \<Rightarrow> ('k \<Rightarrow> 'd option) \<times> 'd xout" where
  "dict_step cmp (XAdd k d) m =
     (case m k of
        None \<Rightarrow> (\<lambda>k'. if cmp k k' then Some d else m k', Res XHASH_OK)
      | Some _ \<Rightarrow> (m, Res XHASH_INTABLE))"
| "dict_step cmp (XFind k) m = (m, Dat (m k))"
| "dict_step cmp (XRemove k) m =
     (\<lambda>k'. if cmp k k' then None else m k', Res (if m k = None then XHASH_ERR else XHASH_OK))"

fun dict_run :: "('k \<Rightarrow> 'k \<Rightarrow> bool) \<Rightarrow> ('k, 'd) xop list \<Rightarrow> ('k \<Rightarrow> 'd option) \<Rightarrow> 'd xout list" where
  "dict_run cmp [] m = []"
| "dict_run cmp (x # xs) m = (case dict_step cmp x m of (m1, out) \<Rightarrow> out # dict_run cmp xs m1)"

text \<open>The dictionary that a list of entries stands for; all entries carry data.\<close>

definition dict :: "('k \<Rightarrow> 'k \<Rightarrow> bool) \<Rightarrow> ('k \<times> 'd option) list \<Rightarrow> 'k \<Rightarrow> 'd option" where
  "dict cmp es k = (case e_find cmp k es of None \<Rightarrow> None | Some (_, d) \<Rightarrow> d)"

definition full :: "('k \<times> 'd option) list \<Rightarrow> bool" where
  "full es \<longleftrightarrow> (\<forall>e \<in> set es. snd e \<noteq> None)"

lemma dict_Nil: "dict cmp [] = (\<lambda>_. None)"
  by (simp add: dict_def e_find_def fun_eq_iff)

lemma full_Nil: "full []"
  by (simp add: full_def)

lemma e_find_remove:
  assumes "key_ops cmp hash"
  shows "e_find cmp k' (e_remove cmp k es) = (if cmp k k' then None else e_find cmp k' es)"
proof (induction es)
  case (Cons e es)
  have 1: "cmp (fst e) k \<Longrightarrow> cmp (fst e) k' \<Longrightarrow> cmp k k'" and 2: "cmp k k' \<Longrightarrow> cmp (fst e) k' \<Longrightarrow> cmp (fst e) k"
    using key_ops.cmp_sym [OF assms] key_ops.cmp_trans [OF assms] by blast+
  show ?case using Cons.IH 1 2 by (auto simp: e_find_def e_remove_def)
qed (simp add: e_find_def e_remove_def)

lemma e_find_touch:
  assumes k: "key_ops cmp hash"
  shows "e_find cmp k' (e_touch cmp k es) = e_find cmp k' es"
proof (cases "e_find cmp k es")
  case (Some e)
  then have e: "cmp (fst e) k" by (auto simp: e_find_def find_Some_iff)
  show ?thesis
  proof (cases "cmp k k'")
    case True
    have "(\<lambda>x. cmp (fst x) k') = (\<lambda>x. cmp (fst x) k)"
      using True key_ops.cmp_sym [OF k] key_ops.cmp_trans [OF k] by blast
    then have "e_find cmp k' = (e_find cmp k :: _ \<Rightarrow> ('a \<times> 'b) option)" and "cmp (fst e) k'"
      using e by (auto simp: e_find_def fun_eq_iff)
    then show ?thesis using Some e by (simp add: e_touch_def) (simp add: e_find_def)
  next
    case False
    then have "\<not> cmp (fst e) k'" using e key_ops.cmp_sym [OF k] key_ops.cmp_trans [OF k] by blast
    then show ?thesis using Some False e_find_remove [OF k, of k' k es] by (simp add: e_touch_def e_find_def)
  qed
qed (simp add: e_touch_def)

lemma full_find: "full es \<Longrightarrow> e_find cmp k es = Some e \<Longrightarrow> snd e \<noteq> None"
  unfolding full_def e_find_def by (metis find_Some_iff nth_mem)

lemma full_remove: "full es \<Longrightarrow> full (e_remove cmp k es)"
  by (simp add: e_remove_def full_def)

lemma full_touch: "full es \<Longrightarrow> full (e_touch cmp k es)"
  using full_find [of es cmp k] full_remove [of es cmp k]
  by (auto simp: e_touch_def full_def split: option.split)

lemma dict_full: "full es \<Longrightarrow> dict cmp es k = None \<longleftrightarrow> e_find cmp k es = None"
  using full_find [of es cmp k] by (auto simp: dict_def split: option.splits prod.splits)

text \<open>A table without limits: no cap on its memory and none on its nodes, with data pointers.\<close>

definition unlimited :: "('k, 'd) xhash \<Rightarrow> bool" where
  "unlimited t \<longleftrightarrow> max_nodes t = 0 \<and> mc_cap (mc t) = 0"

lemma unlimited_alloc: "unlimited t \<Longrightarrow> can_alloc t"
  by (simp add: unlimited_def can_alloc_def sfmemcap_alloc_def Let_def)

lemma unlimited_setup: "same_setup t t' \<Longrightarrow> unlimited t \<Longrightarrow> unlimited t'"
  by (simp add: same_setup_def unlimited_def)

lemma step_dict:
  assumes h: "holds t es f" and c: "keycmp_fcn t = cmp" and u: "unlimited t" and full: "full es"
    and d: "m = dict cmp es"
  shows "\<exists>t' es' f'. xhash_step x t = Some (t', snd (dict_step cmp x m)) \<and> holds t' es' f' \<and>
    same_setup t t' \<and> full es' \<and> dict cmp es' = fst (dict_step cmp x m)"
proof -
  have k: "key_ops cmp (hash_fcn t)" using h c by (simp add: holds_def)
  have touch: "dict cmp (e_touch cmp j es) = dict cmp es" for j
    by (simp add: dict_def fun_eq_iff e_find_touch [OF k])
  show ?thesis
  proof (cases x)
    case (XFind j)
    from find_holds [OF h c, of j] obtain t' where
      "xhash_find t j = Some (t', dict cmp es j)" "same_setup t t'" "holds t' (e_touch cmp j es) f"
      by (auto simp: dict_def)
    then show ?thesis using XFind d touch [of j] full_touch [OF full, of cmp j]
      by (intro exI [of _ t'] exI [of _ "e_touch cmp j es"] exI [of _ f]) simp
  next
    case (XRemove j)
    have "dict cmp (e_remove cmp j es) = (\<lambda>k'. if cmp j k' then None else dict cmp es k')"
      by (simp add: dict_def fun_eq_iff e_find_remove [OF k])
    moreover from remove_holds [OF h c, of j] obtain t' f' where
      "xhash_remove t j = Some (t', if dict cmp es j = None then XHASH_ERR else XHASH_OK)"
      "same_setup t t'" "holds t' (e_remove cmp j es) f'"
      by (auto simp: dict_full [OF full])
    ultimately show ?thesis using XRemove d full_remove [OF full, of cmp j]
      by (intro exI [of _ t'] exI [of _ "e_remove cmp j es"] exI [of _ f']) simp
  next
    case (XAdd j v)
    note ad = add_holds [OF h c, of j "Some v"]
    show ?thesis
    proof (cases "e_find cmp j es")
      case None
      obtain t' f' where a: "xhash_add t j (Some v) = Some (t', XHASH_OK)" "same_setup t t'"
        "holds t' ((j, Some v) # es) f'"
        using ad unlimited_alloc [OF u] by (auto simp: None)
      have "dict cmp ((j, Some v) # es) = (\<lambda>k'. if cmp j k' then Some v else dict cmp es k')"
        by (simp add: dict_def e_find_def fun_eq_iff)
      moreover have "full ((j, Some v) # es)" using full by (simp add: full_def)
      moreover have "dict cmp es j = None" using None by (simp add: dict_def)
      ultimately show ?thesis using a XAdd d
        by (intro exI [of _ t'] exI [of _ "(j, Some v) # es"] exI [of _ f']) simp
    next
      case (Some e)
      obtain t' where a: "xhash_add t j (Some v) = Some (t', XHASH_INTABLE)" "same_setup t t'"
        "holds t' (e_touch cmp j es) f"
        using ad by (auto simp: Some)
      obtain y where "dict cmp es j = Some y" using Some dict_full [OF full, of cmp j] by auto
      then show ?thesis using a XAdd d touch [of j] full_touch [OF full, of cmp j]
        by (intro exI [of _ t'] exI [of _ "e_touch cmp j es"] exI [of _ f]) simp
    qed
  qed
qed

lemma run_dict:
  assumes "holds t es f" and "keycmp_fcn t = cmp" and "unlimited t" and "full es"
  shows "\<exists>t'. xhash_run xs t = Some (t', dict_run cmp xs (dict cmp es))"
  using assms
proof (induction xs arbitrary: t es f)
  case (Cons x xs)
  from step_dict [OF Cons.prems refl, of x] obtain t' es' f' where
    s: "xhash_step x t = Some (t', snd (dict_step cmp x (dict cmp es)))" "holds t' es' f'" "same_setup t t'"
      "full es'" "dict cmp es' = fst (dict_step cmp x (dict cmp es))" by blast
  have "keycmp_fcn t' = cmp" using s(3) Cons.prems(2) by (simp add: same_setup_def)
  from Cons.IH [OF s(2) this unlimited_setup [OF s(3) Cons.prems(3)] s(4)] obtain t'' where
    "xhash_run xs t' = Some (t'', dict_run cmp xs (dict cmp es'))" by blast
  then show ?case using s(1,5) by (simp add: split_beta)
qed simp


text \<open>A small table of 32 bit keys, for the witnesses.\<close>

definition xh_base :: "(u32, u32) xhash" where
  "xh_base = \<lparr>hash_fcn = (\<lambda>k. k), keycmp_fcn = (=), keysize = 0, datasize = 0, zero_data = 0,
     tbl = (\<lambda>_. None), nrows = 0, xcount = 0, crow = 0, cnode = None, splay = 0, max_nodes = 0,
     mc = sfmemcap_init 0, overhead_bytes = 0, overhead_blocks = 0, find_fail = 0, find_success = 0,
     ghead = None, gtail = None, fhead = None, ftail = None, gnode = None, recycle_nodes = False,
     anr_tries = 0, anr_count = 0, anr_flag = False, anrfree = None, usrfree = False,
     gnext = (\<lambda>_. None), gprev = (\<lambda>_. None), rnext = (\<lambda>_. None), rprev = (\<lambda>_. None),
     rindex = (\<lambda>_. 0), nkey = (\<lambda>_. 0), ndata = (\<lambda>_. None), fresh = 0, released = []\<rparr>"

definition xh_example :: "(u32, u32) xhash" where
  "xh_example = the (xhash_new xh_base (\<lambda>k. k) (=) 3 4 0 0 True None True True)"

lemma xh_example_new:
  "xhash_new xh_base (\<lambda>k. k) (=) 3 4 0 0 True None True True = Some xh_example"
  by (simp add: xh_example_def xhash_new_def Let_def sfmemcap_alloc_def sfmemcap_init_def)

interpretation word_keys: key_ops "(=) :: u32 \<Rightarrow> u32 \<Rightarrow> bool" "\<lambda>k. k"
  by unfold_locales auto

lemma word_key_ops: "key_ops ((=) :: u32 \<Rightarrow> u32 \<Rightarrow> bool) (\<lambda>k. k)"
  by unfold_locales

lemma example_sizes: "sizes_ok 4 0"
  by (simp add: sizes_ok_def)


section \<open>Least recently used\<close>

text \<open>The operations on a list of at most \<open>m\<close> entries, the most recently used one first.\<close>

fun lru_step ::
    "('k \<Rightarrow> 'k \<Rightarrow> bool) \<Rightarrow> nat \<Rightarrow> ('k, 'd) xop \<Rightarrow> ('k \<times> 'd option) list \<Rightarrow> ('k \<times> 'd option) list \<times> 'd xout" where
  "lru_step cmp m (XAdd k d) es =
     (case e_find cmp k es of
        Some _ \<Rightarrow> (e_touch cmp k es, Res XHASH_INTABLE)
      | None \<Rightarrow> ((k, Some d) # (if length es < m then es else butlast es), Res XHASH_OK))"
| "lru_step cmp m (XFind k) es = (e_touch cmp k es, Dat (dict cmp es k))"
| "lru_step cmp m (XRemove k) es =
     (e_remove cmp k es, Res (if e_find cmp k es = None then XHASH_ERR else XHASH_OK))"

fun lru_run :: "('k \<Rightarrow> 'k \<Rightarrow> bool) \<Rightarrow> nat \<Rightarrow> ('k, 'd) xop list \<Rightarrow> ('k \<times> 'd option) list \<Rightarrow> 'd xout list" where
  "lru_run cmp m [] es = []"
| "lru_run cmp m (x # xs) es = (case lru_step cmp m x es of (es1, out) \<Rightarrow> out # lru_run cmp m xs es1)"

definition lru_table :: "('k, 'd) xhash \<Rightarrow> u32 \<Rightarrow> bool" where
  "lru_table t m \<longleftrightarrow> max_nodes t = m \<and> mc_cap (mc t) = 0 \<and> anr_flag t \<and> anrfree t = None"

lemma lru_table_setup: "same_setup t t' \<Longrightarrow> lru_table t m \<Longrightarrow> lru_table t' m"
  by (simp add: same_setup_def lru_table_def)

lemma length_touch: "length (e_touch cmp k es) \<le> length es"
proof (cases "e_find cmp k es")
  case (Some e)
  then have "e \<in> set es" "cmp (fst e) k" unfolding e_find_def by (metis find_Some_iff nth_mem)+
  then have "length (filter (\<lambda>e. \<not> cmp (fst e) k) es) < length es" by (intro length_filter_less) auto
  then show ?thesis using Some by (simp add: e_touch_def e_remove_def)
qed (simp add: e_touch_def)

lemma evict_last: "es \<noteq> [] \<Longrightarrow> e_evict True None es = Some (butlast es)"
  by (cases es rule: rev_cases) (simp_all add: e_evict_def split_beta)

lemma lru_alloc:
  assumes h: "holds t es f" and l: "lru_table t m" and m: "m \<noteq> 0" "length es \<le> unat m"
  shows "can_alloc t \<longleftrightarrow> length es < unat m"
proof -
  have "unat m < 2 ^ LENGTH(32)" by (rule unsigned_less)
  then have "length es < 2 ^ 32" using m(2) by simp
  then have "unat (of_nat (length es) :: u32) = length es"
    by (simp add: unat_of_nat take_bit_nat_eq_self)
  then show ?thesis
    using holds_count [OF h] l m(1)
    by (simp add: can_alloc_def lru_table_def sfmemcap_alloc_def Let_def word_less_nat_alt)
qed

lemma step_lru:
  assumes h: "holds t es f" and c: "keycmp_fcn t = cmp" and l: "lru_table t m" and m: "m \<noteq> 0"
    and b: "length es + f \<le> unat m"
  shows "\<exists>t' f'. xhash_step x t = Some (t', snd (lru_step cmp (unat m) x es)) \<and>
    holds t' (fst (lru_step cmp (unat m) x es)) f' \<and> same_setup t t' \<and>
    length (fst (lru_step cmp (unat m) x es)) + f' \<le> unat m"
proof (cases x)
  case (XFind j)
  from find_holds [OF h c, of j] show ?thesis
    using XFind b length_touch [of cmp j es] by (auto simp: dict_def intro!: exI [of _ f])
next
  case (XRemove j)
  from remove_holds [OF h c, of j] obtain t' f' where
    r: "xhash_remove t j = Some (t', if e_find cmp j es = None then XHASH_ERR else XHASH_OK)"
      "same_setup t t'" "holds t' (e_remove cmp j es) f'"
      "length (e_remove cmp j es) + f' \<le> length es + f" by blast
  then show ?thesis using XRemove b by (intro exI [of _ t'] exI [of _ f']) auto
next
  case (XAdd j v)
  note ad = add_holds [OF h c, of j "Some v"]
  show ?thesis
  proof (cases "e_find cmp j es")
    case (Some e)
    then show ?thesis using ad XAdd b length_touch [of cmp j es] by (auto intro!: exI [of _ f])
  next
    case None
    have al: "can_alloc t \<longleftrightarrow> length es < unat m" using lru_alloc [OF h l m] b by simp
    have ev: "e_evict (anr_flag t) (anrfree t) es = Some (butlast es)" if "\<not> length es < unat m"
    proof -
      have "es \<noteq> []" using that m by (auto simp: unat_eq_0)
      then show ?thesis using l evict_last [of es] by (simp add: lru_table_def)
    qed
    have f0: "f = 0" if "\<not> length es < unat m" using that b by simp
    let ?es = "if length es < unat m then es else butlast es"
    have "\<exists>t'. xhash_add t j (Some v) = Some (t', XHASH_OK) \<and> same_setup t t' \<and>
        holds t' ((j, Some v) # ?es) (f - 1)"
      using ad None al ev f0 by (cases "length es < unat m") auto
    moreover have "length ((j, Some v) # ?es) + (f - 1) \<le> unat m"
      using b m by (cases "length es < unat m") (auto simp: unat_eq_0 Suc_le_eq unat_gt_0 f0)
    ultimately show ?thesis using XAdd None by (auto intro!: exI [of _ "f - 1"])
  qed
qed

lemma run_lru:
  assumes "holds t es f" and "keycmp_fcn t = cmp" and "lru_table t m" and "m \<noteq> 0" and "length es + f \<le> unat m"
  shows "\<exists>t'. xhash_run xs t = Some (t', lru_run cmp (unat m) xs es)"
  using assms
proof (induction xs arbitrary: t es f)
  case (Cons x xs)
  from step_lru [OF Cons.prems, of x] obtain t' f' where
    s: "xhash_step x t = Some (t', snd (lru_step cmp (unat m) x es))"
      "holds t' (fst (lru_step cmp (unat m) x es)) f'" "same_setup t t'"
      "length (fst (lru_step cmp (unat m) x es)) + f' \<le> unat m" by blast
  have "keycmp_fcn t' = cmp" using s(3) Cons.prems(2) by (simp add: same_setup_def)
  from Cons.IH [OF s(2) this lru_table_setup [OF s(3) Cons.prems(3)] Cons.prems(4) s(4)] show ?case
    using s(1) by (auto simp: split_beta)
qed simp



section \<open>Deletion\<close>

definition note_released :: "('k, 'd) xhash \<Rightarrow> nat list \<Rightarrow> ('k \<times> 'd option) list" where
  "note_released t xs = (if usrfree t then ents t xs else [])"

lemma delete_row_chain:
  "chain (rnext t) pv p xs None \<Longrightarrow>
   delete_row t (first_or xs None) =
     Some (t\<lparr>released := released t @ note_released t xs,
             mc := (sfmemcap_free (node_bytes t) ^^ length xs) (mc t)\<rparr>)"
proof (induction xs arbitrary: t p)
  case Nil
  then show ?case by (simp add: delete_row.simps [of t None] note_released_def ents_def)
next
  case (Cons n xs)
  have "chain (rnext (delete_node t n)) pv (Some n) xs None" and "rnext t n = first_or xs None"
    using Cons.prems by (simp_all add: delete_node_def Let_def)
  moreover have "node_bytes (delete_node t n) = node_bytes t" by (simp add: delete_node_def Let_def node_bytes_def)
  ultimately show ?case using Cons.IH [of "delete_node t n" "Some n"]
    by (simp add: delete_row.simps [of t "Some n"] delete_node_def Let_def note_released_def ents_def
        node_bytes_def funpow_swap1)
qed

lemma delete_rows_chain:
  assumes "\<forall>i \<in> set is. dll (rnext t) (rprev t) (tbl t i) (R i)"
  shows "delete_rows t is =
    Some (t\<lparr>released := released t @ note_released t (concat (map R is)),
            mc := (sfmemcap_free (node_bytes t) ^^ length (concat (map R is))) (mc t)\<rparr>)"
  using assms
proof (induction "is" arbitrary: t)
  case Nil
  then show ?case by (simp add: note_released_def ents_def)
next
  case (Cons i "is")
  let ?t = "t\<lparr>released := released t @ note_released t (R i),
             mc := (sfmemcap_free (node_bytes t) ^^ length (R i)) (mc t)\<rparr>"
  have "delete_row t (tbl t i) = Some ?t"
    using Cons.prems delete_row_chain [of t "rprev t" None "R i"] by (simp add: dll_def)
  moreover have "node_bytes ?t = node_bytes t" by (simp add: node_bytes_def)
  moreover have "note_released ?t xs = note_released t xs" for xs by (simp add: note_released_def ents_def)
  moreover have "note_released t (R i @ concat (map R is)) = note_released t (R i) @ note_released t (concat (map R is))"
    by (simp add: note_released_def ents_def)
  moreover have "(g ^^ (length (R i) + n)) m = (g ^^ n) ((g ^^ length (R i)) m)" for g and n and m :: memcap
    by (subst add.commute) (simp add: funpow_add)
  ultimately show ?case using Cons.IH [of ?t] Cons.prems by simp
qed

lemma delete_free_chain:
  "chain (gnext t) pv p xs None \<Longrightarrow>
   delete_free_list t (first_or xs None) =
     Some (t\<lparr>mc := (sfmemcap_free (node_bytes t) ^^ length xs) (mc t)\<rparr>)"
proof (induction xs arbitrary: t p)
  case Nil
  then show ?case by (simp add: delete_free_list.simps [of t None])
next
  case (Cons n xs)
  let ?t = "t\<lparr>mc := sfmemcap_free (node_bytes t) (mc t)\<rparr>"
  have "node_bytes ?t = node_bytes t" by (simp add: node_bytes_def)
  then show ?case using Cons.IH [of ?t "Some n"] Cons.prems
    by (simp add: delete_free_list.simps [of t "Some n"] funpow_swap1)
qed

lemma free_pow:
  assumes "unat nb + 8 < 2 ^ 32"
  shows "memused ((sfmemcap_free nb ^^ k) m) = memused m - of_nat k * (nb + 8)"
    and "nblocks ((sfmemcap_free nb ^^ k) m) = nblocks m - of_nat k"
proof -
  have "unat (nb + 8) = unat nb + 8" using assms by (subst unat_add_nowrap) simp_all
  then have u: "ucast (ucast (nb + 8) :: u32) = nb + 8"
    using assms by (simp add: word_unat_eq_iff unsigned_ucast_eq unsigned_take_bit_eq take_bit_nat_eq_self)
  show "memused ((sfmemcap_free nb ^^ k) m) = memused m - of_nat k * (nb + 8)"
    by (induction k) (simp_all add: sfmemcap_free_def u algebra_simps)
  show "nblocks ((sfmemcap_free nb ^^ k) m) = nblocks m - of_nat k"
    by (induction k) (simp_all add: sfmemcap_free_def)
qed

lemma rows_mset:
  assumes l: "xh_links t G R F" and k: "xh_keys t G F"
  shows "mset (concat (map R [0..<unat (nrows t)])) = mset G"
proof -
  let ?N = "unat (nrows t)"
  have rows: "rows_ok (rnext t) (rprev t) (tbl t) (rindex t) ?N R" and dG: "distinct G"
    and s: "\<And>i. i < ?N \<Longrightarrow> set (R i) = {n \<in> set G. rindex t n = i}"
    using l by (simp_all add: xh_links_def dll_def)
  have d: "distinct (R i)" if "i < ?N" for i
    using rows that unfolding rows_ok_def dll_def by blast
  have "distinct (concat (map R [0..<n]))" if "n \<le> ?N" for n
    using that
  proof (induction n)
    case (Suc n)
    have "set (R n) \<inter> (\<Union>i \<in> {0..<n}. set (R i)) = {}" using s Suc.prems by auto
    then show ?case using Suc d [of n] by auto
  qed simp
  then have "distinct (concat (map R [0..<?N]))" by simp
  moreover have "set (concat (map R [0..<?N])) = set G"
  proof -
    have "rindex t n < ?N" if "n \<in> set G" for n
      using that k row_of_less by (auto simp: xh_keys_def)
    then show ?thesis using s by auto
  qed
  ultimately show ?thesis using dG set_eq_iff_mset_eq_distinct by blast
qed

lemma delete_holds:
  assumes h: "holds t es f" and n: "nrows t < 2 ^ 28"
  shows "\<exists>t'. xhash_delete t = Some t' \<and> memused (mc t') = 0 \<and> nblocks (mc t') = 0 \<and>
    mset (released t') = mset (released t) + (if usrfree t then mset es else {#})"
proof -
  obtain G R F where i: "xh_inv t G R F" and es: "ents t G = es" and m: "mem_ok t (length G + length F)"
    using h by (auto simp: holds_def)
  have l: "xh_links t G R F" and x: "xh_keys t G F" using i by (auto simp: xh_inv_def)
  let ?C = "concat (map R [0..<unat (nrows t)])" and ?free = "sfmemcap_free (node_bytes t)"
  have C: "mset ?C = mset G" by (rule rows_mset [OF l x])
  then have lC: "length ?C = length G" by (rule mset_eq_length)
  define t1 where "t1 = t\<lparr>released := released t @ note_released t ?C, mc := (?free ^^ length G) (mc t)\<rparr>"
  have r1: "delete_rows t [0..<unat (nrows t)] = Some t1"
    using delete_rows_chain [of "[0..<unat (nrows t)]" t R] l lC by (simp add: t1_def xh_links_def rows_ok_def)
  define t2 where "t2 = t1\<lparr>mc := sfmemcap_free (8 * ucast (nrows t)) (mc t1), tbl := (\<lambda>_. None)\<rparr>"
  have f: "fhead t2 = first_or F None" "chain (gnext t2) (gprev t2) None F None" "node_bytes t2 = node_bytes t"
    using l by (simp_all add: t2_def t1_def node_bytes_def xh_links_def dll_def)
  define m3 where "m3 = (?free ^^ length F) (mc t2)"
  obtain t3 where r3: "xhash_delete_free_list t2 = Some t3" "mc t3 = m3" "released t3 = released t2"
  proof (cases "fhead t2 = None")
    case True
    then have "F = []" using f(1) by (auto simp: first_or_def split: list.splits)
    then show ?thesis using that [of t2] True by (simp add: xhash_delete_free_list_def m3_def)
  next
    case False
    show ?thesis
      by (rule that [of "t2\<lparr>mc := m3, fhead := None, ftail := None\<rparr>"])
        (use False delete_free_chain [OF f(2)] f(1,3) in \<open>auto simp: xhash_delete_free_list_def m3_def\<close>)
  qed
  have r: "xhash_delete t = Some t3" using r1 r3(1) by (simp add: xhash_delete_def t2_def t1_def)
  have sm: "unat (node_bytes t) + 8 < 2 ^ 32" and mu: "memused (mc t) = (8 * ucast (nrows t) + 8) +
      of_nat (length G + length F) * (node_bytes t + 8)" and nb: "nblocks (mc t) = 1 + of_nat (length G + length F)"
    using m by (auto simp: mem_ok_def)
  have ut: "ucast (ucast (8 * ucast (nrows t) + 8 :: u64) :: u32) = (8 * ucast (nrows t) + 8 :: u64)"
  proof -
    let ?r = "ucast (nrows t) :: u64"
    have u: "unat (nrows t) < 268435456" using n by (simp add: word_less_nat_alt)
    then have "take_bit 64 (unat (nrows t)) = unat (nrows t)" by (intro take_bit_nat_eq_self) simp
    then have r: "unat ?r < 268435456" using u by (simp add: unsigned_ucast_eq unsigned_take_bit_eq)
    have e: "unat (8 * ?r) = 8 * unat ?r" using r by (subst unat_mult_nowrap) simp_all
    have "unat (8 * ?r + 8) = 8 * unat ?r + 8" using r e by (subst unat_add_nowrap) simp_all
    then have "unat (8 * ?r + 8) < 2 ^ 32" using r by simp
    then show ?thesis
      by (simp add: word_unat_eq_iff unsigned_ucast_eq unsigned_take_bit_eq take_bit_nat_eq_self)
  qed
  have "memused m3 = 0" unfolding m3_def free_pow(1) [OF sm]
    by (simp add: t2_def t1_def sfmemcap_free_def ut free_pow(1) [OF sm] mu) (simp add: algebra_simps)
  moreover have "nblocks m3 = 0" unfolding m3_def free_pow(2) [OF sm]
    by (simp add: t2_def t1_def sfmemcap_free_def free_pow(2) [OF sm] nb)
  moreover have "mset (released t3) = mset (released t) + (if usrfree t then mset es else {#})"
    using C es by (auto simp: r3(3) t2_def t1_def note_released_def ents_def)
  ultimately show ?thesis using r r3(2) by auto
qed

lemma run_holds:
  assumes "holds t es f" and "keycmp_fcn t = cmp"
  shows "\<exists>t' outs es' f'. xhash_run xs t = Some (t', outs) \<and> holds t' es' f' \<and> same_setup t t'"
  using assms
proof (induction xs arbitrary: t es f)
  case (Cons x xs)
  have "\<exists>t' out es' f'. xhash_step x t = Some (t', out) \<and> holds t' es' f' \<and> same_setup t t'"
  proof (cases x)
    case (XAdd k d)
    from add_holds [OF Cons.prems, of k "Some d"] obtain t' res where
      "xhash_add t k (Some d) = Some (t', res)" "same_setup t t'" "\<exists>es' f'. holds t' es' f'"
      by (auto split: option.splits if_splits)
    then show ?thesis using XAdd by auto
  next
    case (XFind k)
    then show ?thesis using find_holds [OF Cons.prems, of k] by auto
  next
    case (XRemove k)
    then show ?thesis using remove_holds [OF Cons.prems, of k] by auto
  qed
  then obtain t' out es' f' where s: "xhash_step x t = Some (t', out)" "holds t' es' f'" "same_setup t t'" by blast
  have "keycmp_fcn t' = cmp" using s(3) Cons.prems(2) by (simp add: same_setup_def)
  from Cons.IH [OF s(2) this] show ?case using s same_setup_trans [OF s(3)] by fastforce
qed auto

text \<open>
  C17: no memory is lost.  After any sequence of operations on a table with at most 2^27 rows, with
  or without caps, recovery and recycling, deleting the table returns every block that was
  allocated, and the user's release function has been called for every entry that was still there.
\<close>

theorem xhash_delete_no_leak:
  assumes "xhash_new h hash cmp nr ks ds cap anr anrf usrf rec = Some t" and "0 < nr" and "nr \<le> 2 ^ 27"
    and "key_ops cmp hash" and "sizes_ok ks ds"
  shows "\<exists>t' outs t'' es f. xhash_run ops (xhash_set_max_nodes t m) = Some (t', outs) \<and> holds t' es f \<and>
    xhash_delete t' = Some t'' \<and> memused (mc t'') = 0 \<and> nblocks (mc t'') = 0 \<and>
    mset (released t'') = mset (released t') + (if usrf then mset es else {#})"
proof -
  have r: "nr \<le> 2 ^ 31" using assms(3) by (rule order_trans) simp
  note n = xhash_new_holds [OF assms(1,2) r assms(4,5)]
  obtain e where e: "nrows t = 2 ^ e" "2 ^ e < 2 * nr"
    using xhash_new_nrows(1) [OF assms(1,2) r] by blast
  have "(2 :: int) ^ e < 2 ^ 28" using e(2) assms(3) by simp
  then have "e < 28" by (rule power_less_imp_less_exp [rotated]) simp
  then have p: "(2 :: nat) ^ e < 2 ^ 28" by (rule power_strict_increasing) simp
  then have "unat (of_nat (2 ^ e) :: u32) = 2 ^ e"
    by (simp only: unat_of_nat) (rule mod_less, simp)
  then have "unat (2 ^ e :: u32) = 2 ^ e" by simp
  then have nr: "nrows t < 2 ^ 28" using p unfolding e(1) by (simp add: word_less_nat_alt)
  have h: "holds (xhash_set_max_nodes t m) [] 0" "keycmp_fcn (xhash_set_max_nodes t m) = cmp"
    using n by (simp_all add: xhash_set_max_nodes_def)
  from run_holds [OF h, of ops] obtain t' outs es f where
    t': "xhash_run ops (xhash_set_max_nodes t m) = Some (t', outs)" "holds t' es f"
      "same_setup (xhash_set_max_nodes t m) t'" by blast
  then have "nrows t' < 2 ^ 28" "usrfree t' = usrf"
    using nr n by (simp_all add: same_setup_def xhash_set_max_nodes_def)
  with delete_holds [OF t'(2)] t'(1,2) show ?thesis by blast
qed

theorem xhash_delete_no_leak_witness:
  "xhash_new xh_base (\<lambda>k. k) (=) 3 4 0 0 True None True True = Some xh_example \<and>
   key_ops ((=) :: u32 \<Rightarrow> u32 \<Rightarrow> bool) (\<lambda>k. k) \<and> sizes_ok 4 0 \<and>
   (\<exists>t' outs t''. xhash_run [XAdd 1 10, XAdd 5 50, XRemove 1] (xhash_set_max_nodes xh_example 8) = Some (t', outs) \<and>
     xhash_delete t' = Some t'' \<and> memused (mc t'') = 0)"
  using xhash_delete_no_leak [OF xh_example_new _ _ word_key_ops example_sizes,
      of "[XAdd 1 10, XAdd 5 50, XRemove 1]" 8]
    xh_example_new word_key_ops example_sizes
  by fastforce

end
