(* ===== verification/Thresholds.thy ===== *)
theory Thresholds
  imports XHash_Run
begin

text \<open>
  Event thresholds: which events of a rule are logged, per address and time window.  From
  \<^verbatim>\<open>filters/sfthd.cc\<close> and \<^verbatim>\<open>filters/sfthd.h\<close>, on the hash table of \<^verbatim>\<open>hash/xhash.cc\<close>.
\<close>

section \<open>Data\<close>

datatype thd_type = THD_TYPE_LIMIT | THD_TYPE_THRESHOLD | THD_TYPE_BOTH | THD_TYPE_SUPPRESS | THD_TYPE_DETECT

datatype thd_tracking = THD_TRK_NONE | THD_TRK_SRC | THD_TRK_DST

definition THD_NO_THRESHOLD :: int where "THD_NO_THRESHOLD = - 1"
definition THD_MAX_GENID :: u32 where "THD_MAX_GENID = 8129"

text \<open>What is kept per address; times are seconds.\<close>

record thd_ip_node =
  ip_count :: u32
  ip_prev :: u32
  ip_tstart :: int
  ip_tlast :: int

text \<open>A threshold object.  The set of addresses that it suppresses is given by its membership test.\<close>

record 'ip thd_node =
  thd_id :: int
  thd_gen_id :: u32
  thd_sig_id :: u32
  thd_track :: thd_tracking
  thd_kind :: thd_type
  thd_priority :: int
  thd_count :: int
  thd_seconds :: u32
  thd_filtered :: u64
  thd_ip_address :: "('ip \<Rightarrow> bool) option"

type_synonym 'ip thd_key = "int \<times> u32 \<times> 'ip"
type_synonym 'ip thd_gkey = "u32 \<times> u32 \<times> u32 \<times> 'ip"

section \<open>Creating the tables\<close>

text \<open>
  \<open>h\<close> is the storage of the table.  The keys are compared as memory, which is equality since the
  padding is cleared; \<open>hash\<close> is the table's hash function.
\<close>

definition sfthd_new_hash ::
    "('k, thd_ip_node) xhash \<Rightarrow> ('k \<Rightarrow> u32) \<Rightarrow> u32 \<Rightarrow> nat \<Rightarrow> nat \<Rightarrow> ('k, thd_ip_node) xhash option" where
  "sfthd_new_hash h hash nbytes key data =
     (let size = key + data;
          nbytes' = (if unat nbytes < size then of_nat size else nbytes) :: u32;
          rows = int (unat nbytes' div size)
      in xhash_new h hash (=) rows (int key) (int data) (ucast nbytes') True None False True)"

section \<open>Testing an event\<close>

definition sfthd_test_suppress :: "'ip thd_node \<Rightarrow> 'ip \<Rightarrow> int \<times> 'ip thd_node" where
  "sfthd_test_suppress node ip =
     (if (case thd_ip_address node of None \<Rightarrow> True | Some var \<Rightarrow> var ip)
      then (- 1, node\<lparr>thd_filtered := thd_filtered node + 1\<rparr>)
      else (1, node))"

definition filtered_result :: "'ip thd_node \<Rightarrow> thd_ip_node \<Rightarrow> int \<times> 'ip thd_node \<times> thd_ip_node" where
  "filtered_result node e = (- 2, node\<lparr>thd_filtered := thd_filtered node + 1\<rparr>, e)"

text \<open>The time since the start of the window, as the unsigned 32 bit value it is compared as.\<close>

definition elapsed :: "int \<Rightarrow> int \<Rightarrow> u32" where
  "elapsed curtime since = word_of_int (curtime - since)"

definition sfthd_test_non_suppress ::
    "'ip thd_node \<Rightarrow> thd_ip_node \<Rightarrow> int \<Rightarrow> int \<times> 'ip thd_node \<times> thd_ip_node" where
  "sfthd_test_non_suppress node e curtime =
     (let dt = elapsed curtime (ip_tstart e) in
      case thd_kind node of
        THD_TYPE_DETECT \<Rightarrow>
          (let e1 = (if thd_seconds node \<le> dt
                     then e\<lparr>ip_tstart := curtime,
                            ip_prev := (if thd_seconds node < elapsed curtime (ip_tlast e) then 0
                                        else ip_count e - 1),
                            ip_count := 1\<rparr>
                     else e);
               e2 = e1\<lparr>ip_tlast := curtime\<rparr>
           in if thd_count node < sint (ip_count e2) \<or> thd_count node < sint (ip_prev e2)
              then (0, node, e2) else filtered_result node e2)
      | THD_TYPE_LIMIT \<Rightarrow>
          (let e1 = (if thd_seconds node \<le> dt then e\<lparr>ip_tstart := curtime, ip_count := 1\<rparr> else e)
           in if sint (ip_count e1) \<le> thd_count node then (0, node, e1) else filtered_result node e1)
      | THD_TYPE_THRESHOLD \<Rightarrow>
          (let e1 = (if thd_seconds node \<le> dt then e\<lparr>ip_tstart := curtime, ip_count := 1\<rparr> else e)
           in if thd_count node \<le> sint (ip_count e1)
              then (0, node, e1\<lparr>ip_count := 0, ip_tstart := curtime\<rparr>) else filtered_result node e1)
      | THD_TYPE_BOTH \<Rightarrow>
          (if thd_seconds node \<le> dt
           then filtered_result node (e\<lparr>ip_tstart := curtime, ip_count := 1\<rparr>)
           else if thd_count node \<le> sint (ip_count e)
           then (if thd_count node < sint (ip_count e) then filtered_result node e else (0, node, e))
           else filtered_result node e)
      | THD_TYPE_SUPPRESS \<Rightarrow> (0, node, e))"

text \<open>
  The common part of \<open>sfthd_test_local\<close> and \<open>sfthd_test_global\<close> after the key was set up: a new
  address is added with count 1 and tested on a copy; for a known one the count in the table goes
  up and the test works on it in place.  The result is the table, the object with its counter of
  filtered events, and the status; \<open>None\<close> is a table operation that does not return.
\<close>

definition thd_test_key ::
    "('k, thd_ip_node) xhash \<Rightarrow> 'ip thd_node \<Rightarrow> 'k \<Rightarrow> int \<Rightarrow>
      (('k, thd_ip_node) xhash \<times> 'ip thd_node \<times> int) option" where
  "thd_test_key t node key curtime =
     (let data = \<lparr>ip_count = 1, ip_prev = 0, ip_tstart = curtime, ip_tlast = curtime\<rparr>
      in case xhash_add t key (Some data) of
           None \<Rightarrow> None
         | Some (t1, XHASH_INTABLE) \<Rightarrow>
             (case cnode t1 of
                None \<Rightarrow> None
              | Some n \<Rightarrow>
                  (case ndata t1 n of
                     None \<Rightarrow> None
                   | Some e \<Rightarrow>
                       (case sfthd_test_non_suppress node (e\<lparr>ip_count := ip_count e + 1\<rparr>) curtime of
                          (status, node', e') \<Rightarrow>
                            Some (t1\<lparr>ndata := (ndata t1)(n := Some e')\<rparr>, node', status))))
         | Some (t1, XHASH_OK) \<Rightarrow>
             (case sfthd_test_non_suppress node data curtime of
                (status, node', _) \<Rightarrow> Some (t1, node', status))
         | Some (t1, _) \<Rightarrow> Some (t1, node, 1))"

definition thd_ip :: "'ip thd_node \<Rightarrow> 'ip \<Rightarrow> 'ip \<Rightarrow> 'ip" where
  "thd_ip node sip dip = (if thd_track node = THD_TRK_SRC then sip else dip)"

definition sfthd_test_local ::
    "u32 \<Rightarrow> ('ip thd_key, thd_ip_node) xhash \<Rightarrow> 'ip thd_node \<Rightarrow> 'ip \<Rightarrow> 'ip \<Rightarrow> int \<Rightarrow>
      (('ip thd_key, thd_ip_node) xhash \<times> 'ip thd_node \<times> int) option" where
  "sfthd_test_local policy_id t node sip dip curtime =
     (if thd_count node = THD_NO_THRESHOLD then Some (t, node, 0)
      else if thd_kind node = THD_TYPE_SUPPRESS
      then (case sfthd_test_suppress node (thd_ip node sip dip) of (status, node') \<Rightarrow> Some (t, node', status))
      else thd_test_key t node (thd_id node, policy_id, thd_ip node sip dip) curtime)"

definition sfthd_test_global ::
    "u32 \<Rightarrow> ('ip thd_gkey, thd_ip_node) xhash \<Rightarrow> 'ip thd_node \<Rightarrow> u32 \<Rightarrow> 'ip \<Rightarrow> 'ip \<Rightarrow> int \<Rightarrow>
      (('ip thd_gkey, thd_ip_node) xhash \<times> 'ip thd_node \<times> int) option" where
  "sfthd_test_global policy_id t node sig_id sip dip curtime =
     (if thd_count node = THD_NO_THRESHOLD then Some (t, node, 0)
      else if thd_kind node = THD_TYPE_SUPPRESS
      then (case sfthd_test_suppress node (thd_ip node sip dip) of (status, node') \<Rightarrow> Some (t, node', status))
      else thd_test_key t node (thd_gen_id node, sig_id, policy_id, thd_ip node sip dip) curtime)"

definition sfthd_test_rule ::
    "u32 \<Rightarrow> ('ip thd_key, thd_ip_node) xhash option \<Rightarrow> 'ip thd_node option \<Rightarrow> 'ip \<Rightarrow> 'ip \<Rightarrow> int \<Rightarrow>
      (('ip thd_key, thd_ip_node) xhash option \<times> 'ip thd_node option \<times> int) option" where
  "sfthd_test_rule policy_id rule_hash node sip dip curtime =
     (case (rule_hash, node) of
        (Some t, Some nd) \<Rightarrow>
          map_option (\<lambda>(t', nd', status). (Some t', Some nd', if status < - 1 then 1 else status))
            (sfthd_test_local policy_id t nd sip dip curtime)
      | _ \<Rightarrow> Some (rule_hash, node, 0))"

text \<open>
  The whole test of an event: the objects for its generator and signature in the order of their
  list, then the global object of the generator.  \<open>locals\<close> and \<open>global\<close> are what the lookups of
  the objects give; a global test without its table is an error, \<open>None\<close>.
\<close>

fun local_loop ::
    "u32 \<Rightarrow> ('ip thd_key, thd_ip_node) xhash \<Rightarrow> 'ip thd_node list \<Rightarrow> 'ip \<Rightarrow> 'ip \<Rightarrow> int \<Rightarrow>
      (('ip thd_key, thd_ip_node) xhash \<times> 'ip thd_node list \<times> int option) option" where
  "local_loop policy_id t [] sip dip curtime = Some (t, [], None)"
| "local_loop policy_id t (node # nodes) sip dip curtime =
     (case sfthd_test_local policy_id t node sip dip curtime of
        None \<Rightarrow> None
      | Some (t1, node1, status) \<Rightarrow>
          if status < 0 then Some (t1, node1 # nodes, Some (if status < - 1 then 1 else - 1))
          else if status = 0 then Some (t1, node1 # nodes, Some 0)
          else map_option (\<lambda>(t2, nodes2, r). (t2, node1 # nodes2, r))
                 (local_loop policy_id t1 nodes sip dip curtime))"

record 'ip thd_state =
  thd_objs_count :: int
  ip_nodes :: "('ip thd_key, thd_ip_node) xhash"
  ip_gnodes :: "('ip thd_gkey, thd_ip_node) xhash option"
  thd_locals :: "u32 \<Rightarrow> u32 \<Rightarrow> u32 \<Rightarrow> 'ip thd_node list"
  thd_globals :: "u32 \<Rightarrow> u32 \<Rightarrow> 'ip thd_node option"

definition thd_global_test ::
    "u32 \<Rightarrow> 'ip thd_state \<Rightarrow> u32 \<Rightarrow> u32 \<Rightarrow> 'ip \<Rightarrow> 'ip \<Rightarrow> int \<Rightarrow> ('ip thd_state \<times> int) option" where
  "thd_global_test policy_id s gen_id sig_id sip dip curtime =
     (case thd_globals s policy_id gen_id of
        None \<Rightarrow> Some (s, 0)
      | Some g \<Rightarrow>
          (case ip_gnodes s of
             None \<Rightarrow> None
           | Some t \<Rightarrow>
               map_option (\<lambda>(t', g', status).
                   (s\<lparr>ip_gnodes := Some t',
                      thd_globals := (thd_globals s)(policy_id := (thd_globals s policy_id)(gen_id := Some g'))\<rparr>,
                    if status < 0 then (if status < - 1 then 1 else - 1) else 0))
                 (sfthd_test_global policy_id t g sig_id sip dip curtime)))"

definition sfthd_test_threshold ::
    "u32 \<Rightarrow> 'ip thd_state \<Rightarrow> u32 \<Rightarrow> u32 \<Rightarrow> 'ip \<Rightarrow> 'ip \<Rightarrow> int \<Rightarrow> ('ip thd_state \<times> int) option" where
  "sfthd_test_threshold policy_id s gen_id sig_id sip dip curtime =
     (if THD_MAX_GENID \<le> gen_id then Some (s, 0)
      else
        case local_loop policy_id (ip_nodes s) (thd_locals s gen_id policy_id sig_id) sip dip curtime of
          None \<Rightarrow> None
        | Some (t, nodes, r) \<Rightarrow>
            let s1 = s\<lparr>ip_nodes := t,
                       thd_locals := (thd_locals s)(gen_id := (thd_locals s gen_id)
                         (policy_id := (thd_locals s gen_id policy_id)(sig_id := nodes)))\<rparr>
            in case r of
                 Some status \<Rightarrow> Some (s1, status)
               | None \<Rightarrow> thd_global_test policy_id s1 gen_id sig_id sip dip curtime)"

section \<open>Creating threshold objects\<close>

definition THD_PRIORITY_SUPPRESS :: int where "THD_PRIORITY_SUPPRESS = 1000000"
definition THD_TOO_MANY_THDOBJ :: int where "THD_TOO_MANY_THDOBJ = - 15"

text \<open>The walk over the list of objects: before the first one of lower priority, or at the end.\<close>

fun insert_node :: "'ip thd_node \<Rightarrow> 'ip thd_node list \<Rightarrow> 'ip thd_node list" where
  "insert_node node [] = [node]"
| "insert_node node (n # ns) =
     (if thd_priority n < thd_priority node then node # n # ns else n # insert_node node ns)"

definition sfthd_create_threshold_local ::
    "u32 \<Rightarrow> 'ip thd_state \<Rightarrow> 'ip thd_node \<Rightarrow> 'ip thd_state \<times> int" where
  "sfthd_create_threshold_local policy_id s config =
     (if THD_MAX_GENID \<le> thd_gen_id config then (s, - 1)
      else
        let nodes = thd_locals s (thd_gen_id config) policy_id (thd_sig_id config)
        in if nodes \<noteq> [] \<and> thd_kind (last nodes) \<noteq> THD_TYPE_SUPPRESS \<and> thd_kind config \<noteq> THD_TYPE_SUPPRESS
           then (s, THD_TOO_MANY_THDOBJ)
           else
             let prio = (if thd_kind config = THD_TYPE_SUPPRESS then THD_PRIORITY_SUPPRESS
                         else if THD_PRIORITY_SUPPRESS \<le> thd_priority config then THD_PRIORITY_SUPPRESS - 1
                         else thd_priority config);
                 node = config\<lparr>thd_priority := prio, thd_filtered := 0\<rparr>;
                 gs = thd_locals s (thd_gen_id config)
             in (s\<lparr>thd_locals := (thd_locals s)(thd_gen_id config := gs(policy_id :=
                     (gs policy_id)(thd_sig_id config := insert_node node nodes)))\<rparr>, 0))"

text \<open>
  A global object; one for generator 0 is shared by all generators without one.  Objects are
  identified by their \<open>thd_id\<close>, which is unique, where the code compares pointers.  The array has
  no entry for a generator beyond its size; \<open>None\<close> is an access outside of it.
\<close>

definition sfthd_create_threshold_global ::
    "u32 \<Rightarrow> 'ip thd_state \<Rightarrow> 'ip thd_node \<Rightarrow> ('ip thd_state \<times> int) option" where
  "sfthd_create_threshold_global policy_id s config =
     (let gs = thd_globals s policy_id; g = thd_gen_id config
      in if THD_MAX_GENID \<le> g then None
         else if g = 0 \<and> gs g \<noteq> None then Some (s, THD_TOO_MANY_THDOBJ)
         else if map_option thd_id (gs g) \<noteq> map_option thd_id (gs 0) \<and> gs g \<noteq> None
         then Some (s, THD_TOO_MANY_THDOBJ)
         else
           let node = config\<lparr>thd_filtered := 0\<rparr>;
               gs' = (if g = 0 then (\<lambda>i. if i < THD_MAX_GENID \<and> gs i = None then Some node else gs i)
                      else gs(g := Some node))
           in Some (s\<lparr>thd_globals := (thd_globals s)(policy_id := gs')\<rparr>, 0))"

definition sfthd_create_threshold ::
    "u32 \<Rightarrow> 'ip thd_state \<Rightarrow> u32 \<Rightarrow> u32 \<Rightarrow> thd_tracking \<Rightarrow> thd_type \<Rightarrow> int \<Rightarrow> int \<Rightarrow> u32 \<Rightarrow>
      ('ip \<Rightarrow> bool) option \<Rightarrow> ('ip thd_state \<times> int) option" where
  "sfthd_create_threshold policy_id s gen_id sig_id track kind priority cnt seconds ip_address =
     (let s1 = s\<lparr>thd_objs_count := thd_objs_count s + 1\<rparr>;
          node = \<lparr>thd_id = thd_objs_count s1, thd_gen_id = gen_id, thd_sig_id = sig_id, thd_track = track,
                  thd_kind = kind, thd_priority = priority, thd_count = cnt, thd_seconds = seconds,
                  thd_filtered = 0, thd_ip_address = ip_address\<rparr>
      in if sig_id = 0 then sfthd_create_threshold_global policy_id s1 node
         else if gen_id = 0 then Some (s1, - 1)
         else Some (sfthd_create_threshold_local policy_id s1 node))"

section \<open>One address\<close>

text \<open>
  What an event does to the entry of its address (\<open>None\<close> if there is none), and the statuses of a
  sequence of events.
\<close>

definition thd_step ::
    "'ip thd_node \<Rightarrow> thd_ip_node option \<Rightarrow> int \<Rightarrow> int \<times> 'ip thd_node \<times> thd_ip_node" where
  "thd_step node entry curtime =
     (case entry of
        None \<Rightarrow>
          (let data = \<lparr>ip_count = 1, ip_prev = 0, ip_tstart = curtime, ip_tlast = curtime\<rparr>
           in case sfthd_test_non_suppress node data curtime of (status, node', _) \<Rightarrow> (status, node', data))
      | Some e \<Rightarrow> sfthd_test_non_suppress node (e\<lparr>ip_count := ip_count e + 1\<rparr>) curtime)"

fun thd_events :: "'ip thd_node \<Rightarrow> thd_ip_node option \<Rightarrow> int list \<Rightarrow> int list" where
  "thd_events node entry [] = []"
| "thd_events node entry (t # ts) =
     (case thd_step node entry t of (status, node', e) \<Rightarrow> status # thd_events node' (Some e) ts)"

text \<open>The events of a window that are logged, by their position.\<close>

definition window_logs :: "thd_type \<Rightarrow> int \<Rightarrow> nat \<Rightarrow> bool" where
  "window_logs kind c i =
     (case kind of
        THD_TYPE_LIMIT \<Rightarrow> int i < c
      | THD_TYPE_THRESHOLD \<Rightarrow> (int i + 1) mod c = 0
      | THD_TYPE_BOTH \<Rightarrow> int i + 1 = c
      | THD_TYPE_DETECT \<Rightarrow> c \<le> int i
      | THD_TYPE_SUPPRESS \<Rightarrow> True)"

definition window_inv :: "'ip thd_node \<Rightarrow> int \<Rightarrow> nat \<Rightarrow> thd_ip_node \<Rightarrow> bool" where
  "window_inv node t0 i e \<longleftrightarrow>
     (case thd_kind node of
        THD_TYPE_THRESHOLD \<Rightarrow>
          t0 \<le> ip_tstart e \<and>
          (if thd_count node = 1 then ip_count e = 0 \<or> ip_count e = 1
           else int (unat (ip_count e)) = int i mod thd_count node)
      | THD_TYPE_DETECT \<Rightarrow> ip_tstart e = t0 \<and> unat (ip_count e) = i \<and> ip_prev e = 0
      | _ \<Rightarrow> ip_tstart e = t0 \<and> unat (ip_count e) = i)"

lemma elapsed_inside: "0 \<le> t - s \<Longrightarrow> t - s < uint sec \<Longrightarrow> \<not> sec \<le> elapsed t s"
proof -
  assume a: "0 \<le> t - s" "t - s < uint sec"
  have "uint sec < 2 ^ 32" using uint_lt2p [of sec] by simp
  then have "uint (elapsed t s) = t - s"
    using a unfolding elapsed_def uint_word_of_int by (subst mod_pos_pos_trivial) simp_all
  then show ?thesis using a by (simp add: word_le_def)
qed

lemma elapsed_after: "uint sec \<le> t - s \<Longrightarrow> t - s < 2 ^ 32 \<Longrightarrow> sec \<le> elapsed t s"
proof -
  assume a: "uint sec \<le> t - s" "t - s < 2 ^ 32"
  have "0 \<le> t - s" using a uint_nonnegative [of sec] by linarith
  then have "uint (elapsed t s) = t - s"
    using a unfolding elapsed_def uint_word_of_int by (subst mod_pos_pos_trivial) simp_all
  then show ?thesis using a by (simp add: word_le_def)
qed

lemma count_next:
  assumes "unat (x :: u32) < 2 ^ 31 - 1"
  shows "unat (x + 1) = unat x + 1" and "sint (x + 1) = int (unat x) + 1"
proof -
  show u: "unat (x + 1) = unat x + 1" using assms by (subst unat_add_nowrap) simp_all
  then show "sint (x + 1) = int (unat x) + 1" using assms by (subst sint_small) simp_all
qed

text \<open>The objects differ in their counter of filtered events only.\<close>

definition same_object :: "'ip thd_node \<Rightarrow> 'ip thd_node \<Rightarrow> bool" where
  "same_object node node' \<longleftrightarrow> (\<exists>n. node' = node\<lparr>thd_filtered := n\<rparr>)"

lemma same_object_fields:
  "same_object node node' \<Longrightarrow> thd_kind node' = thd_kind node \<and> thd_count node' = thd_count node \<and>
     thd_seconds node' = thd_seconds node"
  by (auto simp: same_object_def)

lemma same_object_simps [simp]:
  "same_object node node" "same_object node (node\<lparr>thd_filtered := n\<rparr>)"
  by (auto simp: same_object_def intro: exI [of _ "thd_filtered node"])

lemma window_inv_object: "same_object node node' \<Longrightarrow> window_inv node' t0 i e = window_inv node t0 i e"
  by (cases "thd_kind node") (auto simp: same_object_def window_inv_def)

lemma window_step:
  assumes inv: "window_inv node t0 i e" and t: "ip_tstart e \<le> t" "t0 \<le> ip_tstart e" "t < t0 + uint (thd_seconds node)"
    and kind: "thd_kind node \<noteq> THD_TYPE_SUPPRESS" and c: "1 \<le> thd_count node" "thd_count node < 2 ^ 31"
    and i: "1 \<le> i" "i < 2 ^ 31 - 1"
  shows "\<exists>node' e'. thd_step node (Some e) t =
      (if window_logs (thd_kind node) (thd_count node) i then 0 else - 2, node', e') \<and>
    same_object node node' \<and> window_inv node t0 (i + 1) e' \<and> ip_tstart e' \<le> t \<and> t0 \<le> ip_tstart e'"
proof -
  have dt: "\<not> thd_seconds node \<le> elapsed t (ip_tstart e)" using t by (intro elapsed_inside) linarith+
  show ?thesis
  proof (cases "thd_kind node")
    case THD_TYPE_LIMIT
    then have n: "unat (ip_count e) = i" using inv by (simp add: window_inv_def)
    note k = count_next [of "ip_count e", unfolded n, OF i(2)]
    show ?thesis using THD_TYPE_LIMIT inv t dt k
      by (auto simp: thd_step_def sfthd_test_non_suppress_def Let_def filtered_result_def window_inv_def window_logs_def)
  next
    case THD_TYPE_THRESHOLD
    let ?c = "thd_count node"
    have m: "int i mod ?c < ?c" "0 \<le> int i mod ?c" using c(1) by simp_all
    have n: "int (unat (ip_count e)) = int i mod ?c \<or> ?c = 1 \<and> (unat (ip_count e) = 0 \<or> unat (ip_count e) = 1)"
      using inv THD_TYPE_THRESHOLD by (auto simp: window_inv_def split: if_splits)
    have c': "?c \<le> 2147483647" using c(2) by simp
    have "unat (ip_count e) < 2147483647" using n m c' by linarith
    then have lt: "unat (ip_count e) < 2 ^ 31 - 1" by simp
    note k = count_next [OF lt]
    show ?thesis
    proof (cases "?c = 1")
      case True
      then show ?thesis using THD_TYPE_THRESHOLD inv t dt k
        by (auto simp: thd_step_def sfthd_test_non_suppress_def Let_def window_inv_def window_logs_def)
    next
      case False
      then have n': "int (unat (ip_count e)) = int i mod ?c" using n by simp
      have w: "(int i + 1) mod ?c = (if ?c \<le> int i mod ?c + 1 then 0 else int i mod ?c + 1)"
        using m c(1) by (smt (verit) mod_add_left_eq mod_self mod_pos_pos_trivial)
      have k': "int (unat (ip_count e + 1)) = int i mod ?c + 1" unfolding k(1) using n' by simp
      have w': "(1 + int i) mod ?c = (int i + 1) mod ?c" by (simp add: add.commute)
      have d: "?c dvd int i + 1 \<longleftrightarrow> ?c \<le> int i mod ?c + 1" using w m by (auto simp: dvd_eq_mod_eq_0 split: if_splits)
      show ?thesis using THD_TYPE_THRESHOLD inv t dt k k' n' w w' d False m
        by (auto simp: thd_step_def sfthd_test_non_suppress_def Let_def filtered_result_def window_inv_def window_logs_def)
    qed
  next
    case THD_TYPE_BOTH
    then have n: "unat (ip_count e) = i" using inv by (simp add: window_inv_def)
    note k = count_next [of "ip_count e", unfolded n, OF i(2)]
    show ?thesis using THD_TYPE_BOTH inv t dt k
      by (auto simp: thd_step_def sfthd_test_non_suppress_def Let_def filtered_result_def window_inv_def window_logs_def)
  next
    case THD_TYPE_DETECT
    then have n: "unat (ip_count e) = i" using inv by (simp add: window_inv_def)
    note k = count_next [of "ip_count e", unfolded n, OF i(2)]
    show ?thesis using THD_TYPE_DETECT inv t dt k c
      by (auto simp: thd_step_def sfthd_test_non_suppress_def Let_def filtered_result_def window_inv_def window_logs_def)
  qed (use kind in simp)
qed

lemma window_events:
  assumes "window_inv node t0 i e" and "ip_tstart e \<le> t1" and "t0 \<le> ip_tstart e"
    and "sorted (t1 # ts)" and "list_all (\<lambda>t. t < t0 + uint (thd_seconds node)) ts"
    and "thd_kind node \<noteq> THD_TYPE_SUPPRESS" and "1 \<le> thd_count node" and "thd_count node < 2 ^ 31"
    and "1 \<le> i" and "i + length ts < 2 ^ 31"
  shows "thd_events node (Some e) ts =
    map (\<lambda>j. if window_logs (thd_kind node) (thd_count node) j then 0 else - 2) [i..<i + length ts]"
  using assms
proof (induction ts arbitrary: node e i t1)
  case (Cons t ts)
  have t: "ip_tstart e \<le> t" "t < t0 + uint (thd_seconds node)" "i < 2 ^ 31 - 1"
    using Cons.prems(2,4,5,10) by simp_all
  obtain node' e' where s: "thd_step node (Some e) t =
      (if window_logs (thd_kind node) (thd_count node) i then 0 else - 2, node', e')"
    and o: "same_object node node'" and v: "window_inv node t0 (i + 1) e'" "ip_tstart e' \<le> t" "t0 \<le> ip_tstart e'"
    using window_step [OF Cons.prems(1) t(1) Cons.prems(3) t(2) Cons.prems(6-9) t(3)] by blast
  note f = same_object_fields [OF o]
  have "thd_events node' (Some e') ts =
      map (\<lambda>j. if window_logs (thd_kind node) (thd_count node) j then 0 else - 2) [i + 1..<i + 1 + length ts]"
    using Cons.IH [of node' "i + 1" e' t] v window_inv_object [OF o] f Cons.prems by simp
  moreover have "[i..<i + length (t # ts)] = i # [i + 1..<i + 1 + length ts]"
    by (subst upt_conv_Cons) (simp_all del: upt_Suc)
  ultimately show ?case by (simp only: thd_events.simps s prod.case list.map)
qed simp

text \<open>The first event of a window: the address is new, or its window is over.\<close>

definition window_starts :: "'ip thd_node \<Rightarrow> thd_ip_node option \<Rightarrow> int \<Rightarrow> bool" where
  "window_starts node entry t =
     (case entry of
        None \<Rightarrow> True
      | Some e \<Rightarrow>
          (thd_kind node = THD_TYPE_LIMIT \<or> thd_kind node = THD_TYPE_THRESHOLD) \<and>
          uint (thd_seconds node) \<le> t - ip_tstart e \<and> t - ip_tstart e < 2 ^ 32)"

lemma window_first:
  assumes "window_starts node entry t" and "0 < thd_seconds node"
    and "thd_kind node \<noteq> THD_TYPE_SUPPRESS" and "1 \<le> thd_count node"
  shows "\<exists>node' e'. thd_step node entry t =
      (if window_logs (thd_kind node) (thd_count node) 0 then 0 else - 2, node', e') \<and>
    same_object node node' \<and> window_inv node t 1 e' \<and> ip_tstart e' = t"
proof -
  have z: "\<not> thd_seconds node \<le> elapsed t t" using assms(2) by (simp add: elapsed_def not_le)
  have one: "1 mod thd_count node = (if thd_count node = 1 then 0 else 1)"
    using assms(4) by (simp add: mod_pos_pos_trivial)
  show ?thesis
  proof (cases entry)
    case None
    then show ?thesis
      using z assms(3,4) one
      by (cases "thd_kind node")
        (auto simp: thd_step_def sfthd_test_non_suppress_def Let_def filtered_result_def window_inv_def window_logs_def)
  next
    case (Some e)
    then have "thd_seconds node \<le> elapsed t (ip_tstart e)"
      using assms(1) by (intro elapsed_after) (simp_all add: window_starts_def)
    then show ?thesis
      using Some assms(1,3,4) one
      by (auto simp: thd_step_def sfthd_test_non_suppress_def Let_def filtered_result_def window_inv_def
          window_logs_def window_starts_def)
  qed
qed

text \<open>
  C18: the events of one address in one time window are logged as the type of the threshold says:
  a limit logs the first \<open>count\<close> of them, a threshold every \<open>count\<close>-th one, both together only the
  \<open>count\<close>-th one, and a detection filter those after the first \<open>count\<close>; the others are filtered.
  The window starts with the first event of the address or, for limits and thresholds, with the
  first event after the previous window.
\<close>

theorem threshold_window:
  assumes "window_starts node entry t0" and "0 < thd_seconds node" and "thd_kind node \<noteq> THD_TYPE_SUPPRESS"
    and "1 \<le> thd_count node" and "thd_count node < 2 ^ 31"
    and "sorted (t0 # ts)" and "list_all (\<lambda>t. t < t0 + uint (thd_seconds node)) ts" and "length ts < 2 ^ 31 - 1"
  shows "thd_events node entry (t0 # ts) =
    map (\<lambda>i. if window_logs (thd_kind node) (thd_count node) i then 0 else - 2) [0..<Suc (length ts)]"
proof -
  obtain node' e' where s: "thd_step node entry t0 =
      (if window_logs (thd_kind node) (thd_count node) 0 then 0 else - 2, node', e')"
    and o: "same_object node node'" and v: "window_inv node t0 1 e'" "ip_tstart e' = t0"
    using window_first [OF assms(1-4)] by blast
  note f = same_object_fields [OF o]
  have "thd_events node' (Some e') ts =
      map (\<lambda>j. if window_logs (thd_kind node) (thd_count node) j then 0 else - 2) [1..<1 + length ts]"
    using window_events [of node' t0 1 e' t0 ts] v window_inv_object [OF o] f assms by simp
  moreover have "[0..<Suc (length ts)] = 0 # [1..<1 + length ts]"
    by (subst upt_conv_Cons) (simp_all del: upt_Suc)
  ultimately show ?thesis by (simp only: thd_events.simps s prod.case list.map)
qed

definition thd_example :: "u32 thd_node" where
  "thd_example =
     \<lparr>thd_id = 1, thd_gen_id = 1, thd_sig_id = 1000, thd_track = THD_TRK_SRC, thd_kind = THD_TYPE_LIMIT,
      thd_priority = 0, thd_count = 2, thd_seconds = 60, thd_filtered = 0, thd_ip_address = None\<rparr>"

theorem threshold_window_witness:
  "window_starts thd_example None 100 \<and> 0 < thd_seconds thd_example \<and> sorted [100, 110, 110, 159 :: int] \<and>
   thd_events thd_example None [100, 110, 110, 159] = [0, 0, - 2, - 2]"
  using threshold_window [of thd_example None 100 "[110, 110, 159]"]
  by (simp add: window_starts_def thd_example_def window_logs_def upt_rec)

section \<open>The table of addresses\<close>

text \<open>Adding a key that is there leaves its node, now in front, ready for an update in place.\<close>

lemma add_found_update:
  assumes h: "holds t es f" and c: "keycmp_fcn t = cmp" and e: "e_find cmp k es = Some (k0, d0)"
  obtains t' n where "xhash_add t k d = Some (t', XHASH_INTABLE)" "cnode t' = Some n" "ndata t' n = d0"
    "\<And>d'. same_setup t (t'\<lparr>ndata := (ndata t')(n := d')\<rparr>)"
    "\<And>d'. holds (t'\<lparr>ndata := (ndata t')(n := d')\<rparr>) ((k0, d') # e_remove cmp k es) f"
proof -
  obtain G R F where i: "xh_inv t G R F" and es: "ents t G = es" and F: "length F = f"
    and m: "mem_ok t (length G + length F)" and k: "key_ops (keycmp_fcn t) (hash_fcn t)" and s: "0 < splay t"
    using h by (auto simp: holds_def)
  obtain n where n: "find (is_key t k) G = Some n" "nkey t n = k0" "ndata t n = d0"
    using e e_find_ents [of t k G] es c by (cases "find (is_key t k) G") auto
  let ?G = "filter (\<lambda>m. \<not> is_key t k m) G"
  obtain t1 R' where fr: "xhash_find_node_row t k = Some (t1, Some n, row_of t k)"
    and i': "xh_inv t1 (n # ?G) R' F" and c': "conf t1 = conf t"
    using find_node_row_spec [OF i k s, of k] n(1) by auto
  have d: "distinct G" using i by (simp add: xh_inv_def xh_links_def dll_def)
  have nG: "n \<in> set G" using n(1) by (auto simp: find_Some_iff)
  have len: "length (n # ?G) = length G"
    using nG length_pos_if_in_set [OF nG]
    unfolding remove1_unique [OF d find_is_key_row(2) [OF i k] n(1), symmetric] by (simp add: length_remove1)
  note cf = conf_fields [OF c']
  have "n \<notin> set ?G" using n(1) by (auto simp: find_Some_iff)
  let ?t2 = "t1\<lparr>cnode := Some n\<rparr>"
  have add: "xhash_add t k d = Some (?t2, XHASH_INTABLE)"
    using fr by (simp add: xhash_add_def xhash_add_ex_def)
  have hold: "holds (?t2\<lparr>ndata := (ndata ?t2)(n := d')\<rparr>) ((k0, d') # e_remove cmp k es) f" for d'
  proof (rule holdsI)
    show "xh_inv (?t2\<lparr>ndata := (ndata ?t2)(n := d')\<rparr>) (n # ?G) R' F"
      using i' by (simp add: xh_inv_def xh_links_def xh_keys_def row_of_def)
    show "ents (?t2\<lparr>ndata := (ndata ?t2)(n := d')\<rparr>) (n # ?G) = (k0, d') # e_remove cmp k es"
      using e_remove_ents [of t k G] es c \<open>n \<notin> set ?G\<close> n(2) cf(1,2) by (auto simp: ents_def)
    show "mem_ok (?t2\<lparr>ndata := (ndata ?t2)(n := d')\<rparr>) (length (n # ?G) + length F)"
    proof -
      have "mem_ok t1 (length (n # ?G) + length F)" using m mem_ok_conf [OF c'] len by simp
      then show ?thesis by (simp add: mem_ok_def node_bytes_def)
    qed
  qed (use F k s cf(6,7,11) in simp_all)
  show thesis
    by (rule that [OF add _ _ _ hold])
      (use n(3) cf(2) same_setup_conf [OF c'] in \<open>simp_all add: same_setup_def\<close>)
qed

definition new_ip_node :: "int \<Rightarrow> thd_ip_node" where
  "new_ip_node t = \<lparr>ip_count = 1, ip_prev = 0, ip_tstart = t, ip_tlast = t\<rparr>"

lemma thd_test_key_refines:
  assumes h: "holds t es f" and c: "keycmp_fcn t = (=)" and fl: "full es"
    and a: "anr_flag t" "anrfree t = None"
  shows "\<exists>t' node' st es' f'. thd_test_key t node key curtime = Some (t', node', st) \<and>
    same_setup t t' \<and> holds t' es' f' \<and> full es' \<and>
    (es = [] \<and> es' = [] \<and> st = 1 \<or>
     (\<exists>e' rest. thd_step node (dict (=) es key) curtime = (st, node', e') \<and> es' = (key, Some e') # rest \<and>
       (rest = e_remove (=) key es \<or> dict (=) es key = None \<and> rest = butlast es)))"
proof (cases "e_find (=) key es")
  case (Some kd)
  obtain k0 d0 where kd: "kd = (k0, d0)" by (cases kd)
  have "fst kd = key" using Some by (auto simp: e_find_def find_Some_iff)
  then have "k0 = key" using kd by simp
  obtain e where d0: "d0 = Some e" using full_find [OF fl, of "(=)" key] Some kd by auto
  obtain t' n where t': "xhash_add t key (Some (new_ip_node curtime)) = Some (t', XHASH_INTABLE)"
    "cnode t' = Some n" "ndata t' n = d0"
    "\<And>d'. same_setup t (t'\<lparr>ndata := (ndata t')(n := d')\<rparr>)"
    "\<And>d'. holds (t'\<lparr>ndata := (ndata t')(n := d')\<rparr>) ((k0, d') # e_remove (=) key es) f"
    using add_found_update [OF h c Some [unfolded kd]] by blast
  obtain st node' e' where st: "sfthd_test_non_suppress node (e\<lparr>ip_count := ip_count e + 1\<rparr>) curtime = (st, node', e')"
    by (cases "sfthd_test_non_suppress node (e\<lparr>ip_count := ip_count e + 1\<rparr>) curtime")
  have "thd_test_key t node key curtime = Some (t'\<lparr>ndata := (ndata t')(n := Some e')\<rparr>, node', st)"
    using t'(1-3) d0 st by (simp add: thd_test_key_def Let_def new_ip_node_def)
  moreover have "full ((key, Some e') # e_remove (=) key es)" using fl by (auto simp: full_def e_remove_def)
  moreover have "thd_step node (dict (=) es key) curtime = (st, node', e')"
    using Some kd d0 st by (simp add: thd_step_def dict_def)
  ultimately show ?thesis using t'(4,5) [of "Some e'"] \<open>k0 = key\<close> by blast
next
  case None
  then have dn: "dict (=) es key = None" by (simp add: dict_def)
  have rm: "e_remove (=) key es = es"
    using None by (auto simp: e_remove_def e_find_def find_None_iff filter_id_conv)
  from add_holds [OF h c, of key "Some (new_ip_node curtime)"] None obtain t' res where
    r: "xhash_add t key (Some (new_ip_node curtime)) = Some (t', res)" "same_setup t t'"
    and cs: "if f = 0 \<and> \<not> can_alloc t \<and> e_evict (anr_flag t) (anrfree t) es = None
      then res = XHASH_NOMEM \<and> holds t' es f
      else res = XHASH_OK \<and> (\<exists>es' f' d'. holds t' ((key, d') # es') f' \<and> d' = Some (new_ip_node curtime) \<and> f' = f - 1 \<and>
        (if 0 < f \<or> can_alloc t then es' = es else e_evict (anr_flag t) (anrfree t) es = Some es'))"
    by (simp only: option.case option.distinct simp_thms) blast
  show ?thesis
  proof (cases "f = 0 \<and> \<not> can_alloc t \<and> e_evict (anr_flag t) (anrfree t) es = None")
    case True
    then have "es = []" using a evict_last [of es] by (cases es) auto
    moreover have "thd_test_key t node key curtime = Some (t', node, 1)"
      using r True cs by (simp add: thd_test_key_def Let_def new_ip_node_def)
    ultimately show ?thesis using r True cs fl by auto
  next
    case False
    then obtain es' f' where ok: "res = XHASH_OK" "holds t' ((key, Some (new_ip_node curtime)) # es') f'"
      "if 0 < f \<or> can_alloc t then es' = es else e_evict (anr_flag t) (anrfree t) es = Some es'"
      using cs by auto
    have es': "es' = es \<or> es' = butlast es"
      using ok(3) a evict_last [of es] False by (cases "es = []") (auto simp: e_evict_def split: if_splits)
    then have "full ((key, Some (new_ip_node curtime)) # es')"
      using fl by (auto simp: full_def dest: in_set_butlastD)
    moreover obtain st node' e1 where st: "sfthd_test_non_suppress node (new_ip_node curtime) curtime = (st, node', e1)"
      by (cases "sfthd_test_non_suppress node (new_ip_node curtime) curtime")
    moreover have "thd_test_key t node key curtime = Some (t', node', st)"
      using r ok(1) st by (simp add: thd_test_key_def Let_def new_ip_node_def)
    moreover have "thd_step node (dict (=) es key) curtime = (st, node', new_ip_node curtime)"
      using dn st by (simp add: thd_step_def Let_def new_ip_node_def)
    ultimately show ?thesis
      using r(2) ok(2) es' rm dn
      by (intro exI [of _ t'] exI [of _ node'] exI [of _ st] exI [of _ f']
          exI [of _ "(key, Some (new_ip_node curtime)) # es'"]) simp
  qed
qed


definition thd_base :: "(u32 thd_key, thd_ip_node) xhash" where
  "thd_base = \<lparr>hash_fcn = (\<lambda>k. 0), keycmp_fcn = (=), keysize = 0, datasize = 0, zero_data = new_ip_node 0,
     tbl = (\<lambda>_. None), nrows = 0, xcount = 0, crow = 0, cnode = None, splay = 0, max_nodes = 0,
     mc = sfmemcap_init 0, overhead_bytes = 0, overhead_blocks = 0, find_fail = 0, find_success = 0,
     ghead = None, gtail = None, fhead = None, ftail = None, gnode = None, recycle_nodes = False,
     anr_tries = 0, anr_count = 0, anr_flag = False, anrfree = None, usrfree = False,
     gnext = (\<lambda>_. None), gprev = (\<lambda>_. None), rnext = (\<lambda>_. None), rprev = (\<lambda>_. None),
     rindex = (\<lambda>_. 0), nkey = (\<lambda>_. (0, 0, 0)), ndata = (\<lambda>_. None), fresh = 0, released = []\<rparr>"

text \<open>A table for the keys of 28 and the data of 24 bytes, with 1000 bytes of memory.\<close>

definition thd_table :: "(u32 thd_key, thd_ip_node) xhash" where
  "thd_table = the (sfthd_new_hash thd_base (\<lambda>(i, p, a). a) 1000 28 24)"

lemma thd_table_new: "sfthd_new_hash thd_base (\<lambda>(i, p, a). a) 1000 28 24 = Some thd_table"
  by (simp add: thd_table_def sfthd_new_hash_def Let_def xhash_new_def sfmemcap_alloc_def sfmemcap_init_def
      xhash_nearest_powerof2_def)

interpretation thd_keys: key_ops "(=) :: u32 thd_key \<Rightarrow> u32 thd_key \<Rightarrow> bool" "\<lambda>(i, p, a). a"
  by unfold_locales auto

lemma thd_table_holds:
  "holds thd_table [] 0" "keycmp_fcn thd_table = (=)" "anr_flag thd_table" "anrfree thd_table = None"
proof -
  have n: "xhash_new thd_base (\<lambda>(i, p, a). a) (=) 19 28 24 1000 True None False True = Some thd_table"
    using thd_table_new by (simp add: sfthd_new_hash_def Let_def)
  have k: "key_ops ((=) :: u32 thd_key \<Rightarrow> u32 thd_key \<Rightarrow> bool) (\<lambda>(i, p, a). a)" by unfold_locales
  have s: "sizes_ok 28 24" by (simp add: sizes_ok_def)
  note h = xhash_new_holds [OF n _ _ k s, simplified]
  show "holds thd_table [] 0" "keycmp_fcn thd_table = (=)" "anr_flag thd_table" "anrfree thd_table = None"
    using h by simp_all
qed


section \<open>The lists of objects\<close>

text \<open>
  The invariant: suppressions with the highest priority in front, then at most one other object
  with a lower one.
\<close>

definition thd_list_ok :: "'ip thd_node list \<Rightarrow> bool" where
  "thd_list_ok xs \<longleftrightarrow>
     (\<exists>ss rest. xs = ss @ rest \<and> length rest \<le> 1 \<and>
        list_all (\<lambda>n. thd_kind n = THD_TYPE_SUPPRESS \<and> thd_priority n = THD_PRIORITY_SUPPRESS) ss \<and>
        list_all (\<lambda>n. thd_kind n \<noteq> THD_TYPE_SUPPRESS \<and> thd_priority n < THD_PRIORITY_SUPPRESS) rest)"

definition thd_lists_ok :: "'ip thd_state \<Rightarrow> bool" where
  "thd_lists_ok s \<longleftrightarrow> (\<forall>g p i. thd_list_ok (thd_locals s g p i))"

lemma insert_behind:
  "list_all (\<lambda>n. thd_priority node \<le> thd_priority n) ss \<Longrightarrow> insert_node node (ss @ rest) = ss @ insert_node node rest"
  by (induction ss) auto

lemma insert_node_set: "set (insert_node node xs) = insert node (set xs)"
  by (induction xs) auto

lemma insert_suppress:
  assumes "thd_list_ok xs" and "thd_kind node = THD_TYPE_SUPPRESS" and "thd_priority node = THD_PRIORITY_SUPPRESS"
  shows "thd_list_ok (insert_node node xs)"
proof -
  obtain ss rest where x: "xs = ss @ rest" "length rest \<le> 1"
    "list_all (\<lambda>n. thd_kind n = THD_TYPE_SUPPRESS \<and> thd_priority n = THD_PRIORITY_SUPPRESS) ss"
    "list_all (\<lambda>n. thd_kind n \<noteq> THD_TYPE_SUPPRESS \<and> thd_priority n < THD_PRIORITY_SUPPRESS) rest"
    using assms(1) by (auto simp: thd_list_ok_def)
  have "insert_node node xs = ss @ insert_node node rest"
    unfolding x(1) using x(3) assms(3) by (intro insert_behind) (auto simp: list_all_iff)
  also have "insert_node node rest = [node] @ rest" using x(2,4) assms(3) by (cases rest) auto
  finally show ?thesis
    using x assms(2,3) unfolding thd_list_ok_def
    by (intro exI [of _ "ss @ [node]"] exI [of _ rest]) simp
qed

lemma insert_threshold:
  assumes "thd_list_ok xs" and "thd_kind node \<noteq> THD_TYPE_SUPPRESS" and "thd_priority node < THD_PRIORITY_SUPPRESS"
    and "xs = [] \<or> thd_kind (last xs) = THD_TYPE_SUPPRESS"
  shows "thd_list_ok (insert_node node xs)"
proof -
  obtain ss rest where x: "xs = ss @ rest" "length rest \<le> 1"
    "list_all (\<lambda>n. thd_kind n = THD_TYPE_SUPPRESS \<and> thd_priority n = THD_PRIORITY_SUPPRESS) ss"
    "list_all (\<lambda>n. thd_kind n \<noteq> THD_TYPE_SUPPRESS \<and> thd_priority n < THD_PRIORITY_SUPPRESS) rest"
    using assms(1) by (auto simp: thd_list_ok_def)
  have "rest = []" using x(1,2,4) assms(4) by (cases rest) auto
  then have "insert_node node xs = ss @ [node]"
    using insert_behind [of node ss "[]"] x(1,3) assms(3) by (auto simp: list_all_iff)
  then show ?thesis
    using x assms(2,3) unfolding thd_list_ok_def by (intro exI [of _ ss] exI [of _ "[node]"]) simp
qed

lemma last_suppress:
  "thd_list_ok xs \<Longrightarrow> (xs = [] \<or> thd_kind (last xs) = THD_TYPE_SUPPRESS) \<longleftrightarrow>
     list_all (\<lambda>n. thd_kind n = THD_TYPE_SUPPRESS) xs"
proof -
  assume "thd_list_ok xs"
  then obtain ss rest where x: "xs = ss @ rest" "length rest \<le> 1"
    "list_all (\<lambda>n. thd_kind n = THD_TYPE_SUPPRESS \<and> thd_priority n = THD_PRIORITY_SUPPRESS) ss"
    "list_all (\<lambda>n. thd_kind n \<noteq> THD_TYPE_SUPPRESS \<and> thd_priority n < THD_PRIORITY_SUPPRESS) rest"
    by (auto simp: thd_list_ok_def)
  show ?thesis
  proof (cases rest)
    case Nil
    then show ?thesis using x by (cases ss rule: rev_cases) (auto simp: list_all_iff)
  next
    case (Cons n ns)
    then show ?thesis using x by (cases ns) (auto simp: list_all_iff)
  qed
qed

lemma create_local:
  assumes ok: "thd_lists_ok s" and c: "sfthd_create_threshold_local policy_id s config = (s', r)"
  defines "nodes \<equiv> thd_locals s (thd_gen_id config) policy_id (thd_sig_id config)"
  shows "thd_lists_ok s'"
    and "r = 0 \<longleftrightarrow> thd_gen_id config < THD_MAX_GENID \<and>
      (thd_kind config = THD_TYPE_SUPPRESS \<or> list_all (\<lambda>n. thd_kind n = THD_TYPE_SUPPRESS) nodes)"
    and "r = 0 \<Longrightarrow> \<exists>prio. config\<lparr>thd_priority := prio, thd_filtered := 0\<rparr> \<in>
      set (thd_locals s' (thd_gen_id config) policy_id (thd_sig_id config))"
proof -
  have lok: "thd_list_ok nodes" using ok by (simp add: thd_lists_ok_def nodes_def)
  note ls = last_suppress [OF lok]
  define prio where "prio = (if thd_kind config = THD_TYPE_SUPPRESS then THD_PRIORITY_SUPPRESS
      else if THD_PRIORITY_SUPPRESS \<le> thd_priority config then THD_PRIORITY_SUPPRESS - 1
      else thd_priority config)"
  define node where "node = config\<lparr>thd_priority := prio, thd_filtered := 0\<rparr>"
  have "thd_lists_ok s' \<and>
    (r = 0 \<longleftrightarrow> thd_gen_id config < THD_MAX_GENID \<and>
      (thd_kind config = THD_TYPE_SUPPRESS \<or> list_all (\<lambda>n. thd_kind n = THD_TYPE_SUPPRESS) nodes)) \<and>
    (r = 0 \<longrightarrow> node \<in> set (thd_locals s' (thd_gen_id config) policy_id (thd_sig_id config)))"
  proof (cases "thd_gen_id config < THD_MAX_GENID \<and>
      (thd_kind config = THD_TYPE_SUPPRESS \<or> list_all (\<lambda>n. thd_kind n = THD_TYPE_SUPPRESS) nodes)")
    case True
    let ?gs = "thd_locals s (thd_gen_id config)"
    have s': "r = 0" "s' = s\<lparr>thd_locals := (thd_locals s)(thd_gen_id config := ?gs(policy_id :=
        (?gs policy_id)(thd_sig_id config := insert_node node nodes)))\<rparr>"
      using c True ls
      by (auto simp: sfthd_create_threshold_local_def Let_def nodes_def [symmetric] prio_def [symmetric]
          node_def [symmetric] not_less [symmetric] split: if_splits)
    have "thd_list_ok (insert_node node nodes)"
    proof (cases "thd_kind config = THD_TYPE_SUPPRESS")
      case True
      then show ?thesis by (intro insert_suppress [OF lok]) (simp_all add: node_def prio_def)
    next
      case False
      then show ?thesis
        using ls \<open>thd_gen_id config < THD_MAX_GENID \<and> _\<close>
        by (intro insert_threshold [OF lok]) (auto simp: node_def prio_def)
    qed
    then have "thd_lists_ok s'" using ok by (simp add: s'(2) thd_lists_ok_def)
    then show ?thesis using True s' by (simp add: insert_node_set)
  next
    case False
    then have "s' = s \<and> r \<noteq> 0"
      using c ls
      by (auto simp: sfthd_create_threshold_local_def Let_def nodes_def [symmetric] not_less [symmetric]
          THD_TOO_MANY_THDOBJ_def split: if_splits)
    then show ?thesis using ok False by simp
  qed
  then show "thd_lists_ok s'"
    and "r = 0 \<longleftrightarrow> thd_gen_id config < THD_MAX_GENID \<and>
      (thd_kind config = THD_TYPE_SUPPRESS \<or> list_all (\<lambda>n. thd_kind n = THD_TYPE_SUPPRESS) nodes)"
    and "r = 0 \<Longrightarrow> \<exists>prio. config\<lparr>thd_priority := prio, thd_filtered := 0\<rparr> \<in>
      set (thd_locals s' (thd_gen_id config) policy_id (thd_sig_id config))"
    by (auto simp: node_def)
qed


definition thd_state_example :: "u32 thd_state" where
  "thd_state_example = \<lparr>thd_objs_count = 0, ip_nodes = thd_table, ip_gnodes = None,
     thd_locals = (\<lambda>_ _ _. []), thd_globals = (\<lambda>_ _. None)\<rparr>"


end
