(* ===== verification/Option_Tree.thy ===== *)
theory Option_Tree
  imports XHash_Run Byte_Math Hashfcn
begin

unbundle bit_operations_syntax

text \<open>
  Detection options and option trees.  Equal options and equal trees are stored once, in hash
  tables keyed by their contents; the tree of a rule has one path, the options of the rule in
  order.  From \<^verbatim>\<open>detection/detection_options.cc\<close>, \<^verbatim>\<open>detection/detection_options.h\<close>,
  \<^verbatim>\<open>detection/rule_option_types.h\<close> and the tree construction of \<^verbatim>\<open>detection/fp_create.cc\<close>.
\<close>

section \<open>Trees\<close>

datatype option_type =
    RULE_OPTION_TYPE_LEAF_NODE
  | RULE_OPTION_TYPE_BUFFER_SET
  | RULE_OPTION_TYPE_BUFFER_USE
  | RULE_OPTION_TYPE_CONTENT
  | RULE_OPTION_TYPE_FLOWBIT
  | RULE_OPTION_TYPE_OTHER

text \<open>
  A node of an option tree: its type, the address of its option (of the rule, for a leaf) and its
  children.  The array with one null entry that a new node starts with is the empty list.
\<close>

datatype tree_node = Node (node_type: option_type) (option_data: u64) (children: "tree_node list")

type_synonym tree_root = "tree_node list"

text \<open>The hash and the comparison under which equal trees are shared.\<close>

fun tree_hash :: "tree_node \<Rightarrow> u32" and tree_hash_loop :: "tree_node list \<Rightarrow> abc \<Rightarrow> abc" where
  "tree_hash (Node t a ns) = snd (snd (finalize (tree_hash_loop ns (0, 0, 0))))"
| "tree_hash_loop [] s = s"
| "tree_hash_loop (n # ns) s =
     (case s of (a, b, c) \<Rightarrow>
       let ptr = option_data n;
           a = a + ucast (drop_bit 32 ptr);
           b = b + ucast (ptr AND 0xFFFFFFFF);
           c = c + tree_hash n
       in case mix (a, b, c) of (a, b, c) \<Rightarrow>
            tree_hash_loop ns (mix (a + of_nat (length (children n)), b, c)))"

fun tree_compare :: "tree_node \<Rightarrow> tree_node \<Rightarrow> bool"
  and tree_compare_loop :: "tree_node list \<Rightarrow> tree_node list \<Rightarrow> bool" where
  "tree_compare (Node t a ns) (Node t' a' ns') =
     (a = a' \<and> length ns = length ns' \<and> tree_compare_loop ns ns')"
| "tree_compare_loop (n # ns) (m # ms) = (tree_compare n m \<and> tree_compare_loop ns ms)"
| "tree_compare_loop ns ms = True"

section \<open>The tables of options and of trees\<close>

text \<open>
  Both tables are searched for an equal entry first; if there is none the new one is added.  The
  caller gets the entry that was there, or \<open>None\<close> (a null pointer) if its own was added.
\<close>

definition find_or_add ::
    "('k, 'd) xhash \<Rightarrow> 'k \<Rightarrow> 'd \<Rightarrow> (('k, 'd) xhash \<times> 'd option) option" where
  "find_or_add t k d =
     (case xhash_find t k of
        None \<Rightarrow> None
      | Some (t1, Some p) \<Rightarrow> Some (t1, Some p)
      | Some (t1, None) \<Rightarrow> map_option (\<lambda>(t2, r). (t2, None)) (xhash_add t1 k (Some d)))"

definition HASH_RULE_OPTIONS :: int where "HASH_RULE_OPTIONS = 16384"
definition HASH_RULE_TREE :: int where "HASH_RULE_TREE = 8192"

text \<open>The size of a key: an enumeration, padding and a pointer.\<close>

definition sizeof_option_key :: int where "sizeof_option_key = 16"

text \<open>
  An option key is a type and an option; \<open>eq\<close> and \<open>hash\<close> are the virtual operations of the
  options.  A leaf is equal to nothing.
\<close>

type_synonym 'o option_key = "option_type \<times> 'o"

definition detection_option_hash_func :: "('o \<Rightarrow> u32) \<Rightarrow> 'o option_key \<Rightarrow> u32" where
  "detection_option_hash_func hash k =
     (if fst k \<noteq> RULE_OPTION_TYPE_LEAF_NODE then hash (snd k) else 0)"

definition detection_option_key_compare_func ::
    "('o \<Rightarrow> 'o \<Rightarrow> bool) \<Rightarrow> 'o option_key \<Rightarrow> 'o option_key \<Rightarrow> bool" where
  "detection_option_key_compare_func eq k1 k2 =
     (if fst k1 \<noteq> fst k2 then False
      else if fst k1 \<noteq> RULE_OPTION_TYPE_LEAF_NODE then eq (snd k1) (snd k2) else False)"

definition DetectionHashTableNew ::
    "('o option_key, 'o) xhash \<Rightarrow> ('o \<Rightarrow> 'o \<Rightarrow> bool) \<Rightarrow> ('o \<Rightarrow> u32) \<Rightarrow> ('o option_key, 'o) xhash option" where
  "DetectionHashTableNew h eq hash =
     xhash_new h (detection_option_hash_func hash) (detection_option_key_compare_func eq)
       HASH_RULE_OPTIONS sizeof_option_key 0 0 False None True True"

text \<open>
  The table is created at the first use.  \<open>h\<close> is the storage that the table is created in, and
  \<open>None\<close> a fatal error or an operation that does not return.
\<close>

definition add_detection_option ::
    "('o option_key, 'o) xhash \<Rightarrow> ('o \<Rightarrow> 'o \<Rightarrow> bool) \<Rightarrow> ('o \<Rightarrow> u32) \<Rightarrow> ('o option_key, 'o) xhash option \<Rightarrow>
      option_type \<Rightarrow> 'o \<Rightarrow> (('o option_key, 'o) xhash option \<times> 'o option) option" where
  "add_detection_option h eq hash table ty data =
     (case (case table of None \<Rightarrow> DetectionHashTableNew h eq hash | Some t \<Rightarrow> Some t) of
        None \<Rightarrow> None
      | Some t \<Rightarrow> map_option (\<lambda>(t', p). (Some t', p)) (find_or_add t (ty, data) data))"

type_synonym tree_table = "(tree_node, tree_node) xhash"

definition DetectionTreeHashTableNew :: "tree_table \<Rightarrow> tree_table option" where
  "DetectionTreeHashTableNew h =
     xhash_new h tree_hash tree_compare HASH_RULE_TREE sizeof_option_key 0 0 False None True True"

definition add_detection_option_tree ::
    "tree_table \<Rightarrow> tree_table option \<Rightarrow> tree_node \<Rightarrow> (tree_table option \<times> tree_node option) option" where
  "add_detection_option_tree h table n =
     (case (case table of None \<Rightarrow> DetectionTreeHashTableNew h | Some t \<Rightarrow> Some t) of
        None \<Rightarrow> None
      | Some t \<Rightarrow> map_option (\<lambda>(t', p). (Some t', p)) (find_or_add t n n))"

section \<open>Building the tree of a rule\<close>

text \<open>
  A rule: its address and its options.  An option that has a pattern carries the \<open>fp_only\<close> field
  of the pattern's data.  \<open>sigs\<close> gives the signature (gid, sid, rev) of the rule at an address.
\<close>

record opt_fp_list =
  opt_type :: option_type
  ips_opt :: u64
  pmd_fp_only :: "int option"

record opt_tree_node =
  otn_addr :: u64
  opt_func :: "opt_fp_list list"

type_synonym sig_info = "u64 \<Rightarrow> u32 \<times> u32 \<times> u32"

definition is_fast_pattern_only :: "opt_fp_list \<Rightarrow> bool" where
  "is_fast_pattern_only ofl = (case pmd_fp_only ofl of None \<Rightarrow> False | Some v \<Rightarrow> 0 < v)"

definition new_sig :: "sig_info \<Rightarrow> tree_node list \<Rightarrow> opt_tree_node \<Rightarrow> bool" where
  "new_sig sigs nodes otn =
     list_all (\<lambda>child. node_type child \<noteq> RULE_OPTION_TYPE_LEAF_NODE \<or>
       sigs (option_data child) \<noteq> sigs (otn_addr otn)) nodes"

text \<open>
  The loop over the options with the children of the current node: it descends into the first
  child for the same option and adds a child where there is none, and ends with a leaf for the
  rule unless nothing was added and the leaf is there.
\<close>

fun create_tree_loop ::
    "sig_info \<Rightarrow> opt_tree_node \<Rightarrow> opt_fp_list list \<Rightarrow> bool \<Rightarrow> tree_node list \<Rightarrow> tree_node list" where
  "create_tree_loop sigs otn [] need_leaf nodes =
     (if need_leaf \<or> new_sig sigs nodes otn
      then nodes @ [Node RULE_OPTION_TYPE_LEAF_NODE (otn_addr otn) []] else nodes)"
| "create_tree_loop sigs otn (opt_fp # opt_fps) need_leaf nodes =
     (if opt_type opt_fp = RULE_OPTION_TYPE_LEAF_NODE then create_tree_loop sigs otn opt_fps need_leaf nodes
      else if is_fast_pattern_only opt_fp then create_tree_loop sigs otn opt_fps need_leaf nodes
      else
        let before = takeWhile (\<lambda>child. option_data child \<noteq> ips_opt opt_fp) nodes
        in case drop (length before) nodes of
             child # after \<Rightarrow>
               before @ Node (node_type child) (option_data child)
                 (create_tree_loop sigs otn opt_fps need_leaf (children child)) # after
           | [] \<Rightarrow>
               nodes @ [Node (opt_type opt_fp) (ips_opt opt_fp)
                 (create_tree_loop sigs otn opt_fps True [])])"

definition otn_create_tree :: "sig_info \<Rightarrow> opt_tree_node \<Rightarrow> tree_root option \<Rightarrow> tree_root" where
  "otn_create_tree sigs otn existing_tree =
     (let root = (case existing_tree of None \<Rightarrow> [] | Some r \<Rightarrow> r)
      in create_tree_loop sigs otn (opt_func otn) (root = []) root)"

text \<open>Replacing the subtrees of the root by the stored ones.\<close>

fun finalize_loop ::
    "tree_table \<Rightarrow> tree_table option \<Rightarrow> tree_node list \<Rightarrow> (tree_table option \<times> tree_node list) option" where
  "finalize_loop h table [] = Some (table, [])"
| "finalize_loop h table (node # nodes) =
     (case add_detection_option_tree h table node of
        None \<Rightarrow> None
      | Some (table', dup_node) \<Rightarrow>
          map_option (\<lambda>(table'', nodes'). (table'', (case dup_node of Some d \<Rightarrow> d | None \<Rightarrow> node) # nodes'))
            (finalize_loop h table' nodes))"

text \<open>
  \<open>finalize_detection_option_tree\<close> after the null test of \<open>pmx_create_tree\<close>, which is called with
  a rule to add it and without one to finish the tree.
\<close>

definition pmx_create_tree ::
    "sig_info \<Rightarrow> tree_table \<Rightarrow> tree_table option \<Rightarrow> opt_tree_node option \<Rightarrow> tree_root option \<Rightarrow>
      (tree_table option \<times> tree_root option) option" where
  "pmx_create_tree sigs h table rule existing_tree =
     (case rule of
        None \<Rightarrow>
          (case existing_tree of
             None \<Rightarrow> Some (table, None)
           | Some root \<Rightarrow> map_option (\<lambda>(table', root'). (table', Some root')) (finalize_loop h table root))
      | Some otn \<Rightarrow> Some (table, Some (otn_create_tree sigs otn existing_tree)))"

section \<open>Keys\<close>

lemma find_snoc:
  "find P (xs @ [x]) = (case find P xs of Some y \<Rightarrow> Some y | None \<Rightarrow> if P x then Some x else None)"
  by (induction xs) auto

text \<open>The comparison ignores the types of the nodes: it compares trees without them.\<close>

fun retype :: "(u64 \<Rightarrow> option_type) \<Rightarrow> tree_node \<Rightarrow> tree_node" where
  "retype ty (Node t a ns) = Node (ty a) a (map (retype ty) ns)"

abbreviation untyped :: "tree_node \<Rightarrow> tree_node" where
  "untyped \<equiv> retype (\<lambda>_. RULE_OPTION_TYPE_LEAF_NODE)"

lemma retype_retype [simp]: "retype ty (retype ty' n) = retype ty n"
  by (induction n) simp

lemma tree_compare_untyped:
  "tree_compare n m \<longleftrightarrow> untyped n = untyped m"
  "length ns = length ms \<Longrightarrow> tree_compare_loop ns ms \<longleftrightarrow> map untyped ns = map untyped ms"
  by (induction n m and ns ms rule: tree_compare_tree_compare_loop.induct)
    (auto dest: map_eq_imp_length_eq)

lemma retype_fields [simp]:
  "option_data (retype ty n) = option_data n" "length (children (retype ty n)) = length (children n)"
  by (cases n, simp)+

lemma tree_hash_loop_cong:
  "(\<And>n. n \<in> set ns \<Longrightarrow> tree_hash (retype ty n) = tree_hash n) \<Longrightarrow>
   tree_hash_loop (map (retype ty) ns) s = tree_hash_loop ns s"
  by (induction ns arbitrary: s) (simp_all add: Let_def split_beta)

lemma tree_hash_retype: "tree_hash (retype ty n) = tree_hash n"
  by (induction n) (simp add: tree_hash_loop_cong)

lemma tree_compare_hash:
  assumes "tree_compare x y"
  shows "tree_hash x = tree_hash y"
proof -
  have "tree_hash (untyped x) = tree_hash (untyped y)" using assms by (simp only: tree_compare_untyped(1))
  then show ?thesis by (simp only: tree_hash_retype)
qed

interpretation tree_keys: key_ops tree_compare tree_hash
proof unfold_locales
  fix x y z
  show "tree_hash x = tree_hash y" if "tree_compare x y" using that by (rule tree_compare_hash)
  show "tree_compare y x" if "tree_compare x y"
    using that unfolding tree_compare_untyped(1) by (rule sym)
  show "tree_compare x z" if "tree_compare x y" "tree_compare y z"
    using that unfolding tree_compare_untyped(1) by (rule trans)
qed

lemma option_key_compare:
  "detection_option_key_compare_func eq k1 k2 \<longleftrightarrow>
     fst k1 = fst k2 \<and> fst k1 \<noteq> RULE_OPTION_TYPE_LEAF_NODE \<and> eq (snd k1) (snd k2)"
  by (simp add: detection_option_key_compare_func_def)

lemma option_key_ops:
  assumes "hashed_option eq hash"
  shows "key_ops (detection_option_key_compare_func eq) (detection_option_hash_func hash)"
proof unfold_locales
  fix x y z
  show "detection_option_key_compare_func eq y x" if "detection_option_key_compare_func eq x y"
    using that hashed_option.eq_sym [OF assms, of "snd x" "snd y"] by (auto simp: option_key_compare)
  show "detection_option_key_compare_func eq x z"
    if "detection_option_key_compare_func eq x y" "detection_option_key_compare_func eq y z"
    using that hashed_option.eq_trans [OF assms, of "snd x" "snd y" "snd z"] by (auto simp: option_key_compare)
  show "detection_option_hash_func hash x = detection_option_hash_func hash y"
    if "detection_option_key_compare_func eq x y"
    using that hashed_option.eq_hash [OF assms, of "snd x" "snd y"]
    by (simp add: option_key_compare detection_option_hash_func_def)
qed

section \<open>Storing equal things once\<close>

text \<open>
  What a table that is only searched and added to stands for: a map from keys to entries.
\<close>

definition table_map :: "('k \<Rightarrow> 'k \<Rightarrow> bool) \<Rightarrow> ('k, 'd) xhash \<Rightarrow> ('k \<Rightarrow> 'd option) \<Rightarrow> bool" where
  "table_map cmp t m \<longleftrightarrow>
     (\<exists>es f. holds t es f \<and> keycmp_fcn t = cmp \<and> unlimited t \<and> full es \<and> m = dict cmp es)"

definition map_add_key ::
    "('k \<Rightarrow> 'k \<Rightarrow> bool) \<Rightarrow> 'k \<Rightarrow> 'd \<Rightarrow> ('k \<Rightarrow> 'd option) \<Rightarrow> 'k \<Rightarrow> 'd option" where
  "map_add_key cmp k d m = (if m k = None then \<lambda>k'. if cmp k k' then Some d else m k' else m)"

lemma find_or_add_map:
  assumes "table_map cmp t m"
  obtains t' where "find_or_add t k d = Some (t', m k)" "table_map cmp t' (map_add_key cmp k d m)"
proof -
  obtain es f where h: "holds t es f" and c: "keycmp_fcn t = cmp" and u: "unlimited t"
    and fl: "full es" and m: "m = dict cmp es"
    using assms by (auto simp: table_map_def)
  from step_dict [OF h c u fl m, of "XFind k"] obtain t1 es1 f1 where
    1: "xhash_find t k = Some (t1, m k)" "holds t1 es1 f1" "same_setup t t1" "full es1" "m = dict cmp es1"
    by (auto split: option.splits)
  have c1: "keycmp_fcn t1 = cmp" and u1: "unlimited t1"
    using 1(3) c unlimited_setup [OF 1(3) u] by (simp_all add: same_setup_def)
  show thesis
  proof (cases "m k")
    case (Some p)
    then have "find_or_add t k d = Some (t1, m k)" using 1(1) by (simp add: find_or_add_def)
    moreover have "table_map cmp t1 (map_add_key cmp k d m)"
      using 1 c1 u1 Some by (auto simp: table_map_def map_add_key_def)
    ultimately show thesis by (rule that)
  next
    case None
    from step_dict [OF 1(2) c1 u1 1(4,5), of "XAdd k d"] None obtain t2 es2 f2 where
      2: "xhash_step (XAdd k d) t1 = Some (t2, Res XHASH_OK)" "holds t2 es2 f2" "same_setup t1 t2"
        "full es2" "dict cmp es2 = (\<lambda>k'. if cmp k k' then Some d else m k')"
      by auto
    have "keycmp_fcn t2 = cmp" and "unlimited t2"
      using 2(3) c1 unlimited_setup [OF 2(3) u1] by (simp_all add: same_setup_def)
    then have "table_map cmp t2 (map_add_key cmp k d m)"
      using 2 None by (auto simp: table_map_def map_add_key_def)
    moreover have "find_or_add t k d = Some (t2, m k)"
      using 1(1) 2(1) None by (auto simp: find_or_add_def split: option.splits)
    ultimately show thesis by (intro that)
  qed
qed

lemma new_table_map:
  assumes "key_ops cmp hash" and "0 < nr" and "nr \<le> 2 ^ 31" and "sizes_ok ks ds"
  obtains t where "xhash_new h hash cmp nr ks ds 0 anr anrf usrf rec = Some t" "table_map cmp t (\<lambda>_. None)"
proof -
  obtain t where t: "xhash_new h hash cmp nr ks ds 0 anr anrf usrf rec = Some t"
    by (simp add: xhash_new_def Let_def sfmemcap_alloc_def sfmemcap_init_def)
  note n = xhash_new_holds [OF t assms(2,3,1,4)]
  have "unlimited t" using n by (simp add: unlimited_def)
  then have "table_map cmp t (\<lambda>_. None)"
    using n(1,2) unfolding table_map_def
    by (intro exI [of _ "[]"] exI [of _ 0]) (simp add: full_Nil dict_Nil)
  with t show thesis by (rule that)
qed

text \<open>A table that is created at its first use.\<close>

definition lazy_map :: "('k \<Rightarrow> 'k \<Rightarrow> bool) \<Rightarrow> ('k, 'd) xhash option \<Rightarrow> ('k \<Rightarrow> 'd option) \<Rightarrow> bool" where
  "lazy_map cmp table m = (case table of None \<Rightarrow> m = (\<lambda>_. None) | Some t \<Rightarrow> table_map cmp t m)"

lemma option_sizes: "sizes_ok sizeof_option_key 0"
  by (simp add: sizes_ok_def sizeof_option_key_def)

lemma add_detection_option_tree_map:
  assumes "lazy_map tree_compare table m"
  obtains t' where "add_detection_option_tree h table n = Some (Some t', m n)"
    "lazy_map tree_compare (Some t') (map_add_key tree_compare n n m)"
proof -
  obtain t where t: "(case table of None \<Rightarrow> DetectionTreeHashTableNew h | Some t \<Rightarrow> Some t) = Some t"
    and tm: "table_map tree_compare t m"
  proof (cases table)
    case None
    have "0 < HASH_RULE_TREE" "HASH_RULE_TREE \<le> 2 ^ 31" by (simp_all add: HASH_RULE_TREE_def)
    from new_table_map [OF tree_keys.key_ops_axioms this option_sizes, of h False None True True]
    obtain t where "DetectionTreeHashTableNew h = Some t" "table_map tree_compare t (\<lambda>_. None)"
      unfolding DetectionTreeHashTableNew_def by blast
    then show thesis using that None assms by (simp add: lazy_map_def)
  next
    case (Some t)
    then show thesis using that assms by (simp add: lazy_map_def)
  qed
  from find_or_add_map [OF tm, of n n] obtain t' where
    "find_or_add t n n = Some (t', m n)" "table_map tree_compare t' (map_add_key tree_compare n n m)" .
  then show thesis using that t by (simp add: add_detection_option_tree_def lazy_map_def)
qed

lemma add_detection_option_map:
  assumes "hashed_option eq hash" and "lazy_map (detection_option_key_compare_func eq) table m"
  obtains t' where "add_detection_option h eq hash table ty d = Some (Some t', m (ty, d))"
    "lazy_map (detection_option_key_compare_func eq) (Some t')
       (map_add_key (detection_option_key_compare_func eq) (ty, d) d m)"
proof -
  let ?cmp = "detection_option_key_compare_func eq"
  obtain t where t: "(case table of None \<Rightarrow> DetectionHashTableNew h eq hash | Some t \<Rightarrow> Some t) = Some t"
    and tm: "table_map ?cmp t m"
  proof (cases table)
    case None
    have "0 < HASH_RULE_OPTIONS" "HASH_RULE_OPTIONS \<le> 2 ^ 31" by (simp_all add: HASH_RULE_OPTIONS_def)
    from new_table_map [OF option_key_ops [OF assms(1)] this option_sizes, of h False None True True]
    obtain t where "DetectionHashTableNew h eq hash = Some t" "table_map ?cmp t (\<lambda>_. None)"
      unfolding DetectionHashTableNew_def by blast
    then show thesis using that None assms by (simp add: lazy_map_def)
  next
    case (Some t)
    then show thesis using that assms by (simp add: lazy_map_def)
  qed
  from find_or_add_map [OF tm, of "(ty, d)" d] obtain t' where
    "find_or_add t (ty, d) d = Some (t', m (ty, d))" "table_map ?cmp t' (map_add_key ?cmp (ty, d) d m)" .
  then show thesis using that t by (simp add: add_detection_option_def lazy_map_def)
qed

text \<open>
  Adding a sequence of options: each is answered with the stored option that it equals, if there
  is one.  The reference keeps the list of the options that were stored.
\<close>

fun add_options ::
    "('o option_key, 'o) xhash \<Rightarrow> ('o \<Rightarrow> 'o \<Rightarrow> bool) \<Rightarrow> ('o \<Rightarrow> u32) \<Rightarrow> ('o option_key, 'o) xhash option \<Rightarrow>
      'o option_key list \<Rightarrow> 'o option list option" where
  "add_options h eq hash table [] = Some []"
| "add_options h eq hash table ((ty, d) # ks) =
     (case add_detection_option h eq hash table ty d of
        None \<Rightarrow> None
      | Some (table', p) \<Rightarrow> map_option ((#) p) (add_options h eq hash table' ks))"

fun intern :: "('o \<Rightarrow> 'o \<Rightarrow> bool) \<Rightarrow> 'o option_key list \<Rightarrow> 'o option_key list \<Rightarrow> 'o option list" where
  "intern eq stored [] = []"
| "intern eq stored (k # ks) =
     (case find (\<lambda>s. fst s = fst k \<and> eq (snd s) (snd k)) stored of
        Some s \<Rightarrow> Some (snd s) # intern eq stored ks
      | None \<Rightarrow> None # intern eq (stored @ [k]) ks)"

lemma add_options_intern:
  assumes ho: "hashed_option eq hash"
    and "lazy_map (detection_option_key_compare_func eq) table
      (\<lambda>k. map_option snd (find (\<lambda>s. detection_option_key_compare_func eq s k) stored))"
    and "list_all (\<lambda>k. fst k \<noteq> RULE_OPTION_TYPE_LEAF_NODE) ks"
  shows "add_options h eq hash table ks = Some (intern eq stored ks)"
  using assms(2,3)
proof (induction ks arbitrary: table stored)
  case (Cons k ks)
  let ?cmp = "detection_option_key_compare_func eq"
  let ?m = "\<lambda>xs k. map_option snd (find (\<lambda>s. ?cmp s k) xs)"
  obtain ty d where k: "k = (ty, d)" by (cases k)
  have ty: "ty \<noteq> RULE_OPTION_TYPE_LEAF_NODE" using Cons.prems(2) k by simp
  obtain t' where a: "add_detection_option h eq hash table ty d = Some (Some t', ?m stored (ty, d))"
    and l: "lazy_map ?cmp (Some t') (map_add_key ?cmp (ty, d) d (?m stored))"
    by (rule add_detection_option_map [OF ho Cons.prems(1)])
  have f: "find (\<lambda>s. fst s = fst k \<and> eq (snd s) (snd k)) stored = find (\<lambda>s. ?cmp s k) stored"
    using ty k by (intro find_cong) (auto simp: option_key_compare)
  have rest: "list_all (\<lambda>k. fst k \<noteq> RULE_OPTION_TYPE_LEAF_NODE) ks" using Cons.prems(2) by simp
  show ?case
  proof (cases "find (\<lambda>s. ?cmp s k) stored")
    case (Some s)
    then have "map_add_key ?cmp (ty, d) d (?m stored) = ?m stored" using k by (simp add: map_add_key_def)
    then show ?thesis using Cons.IH [of "Some t'" stored] l rest a k f Some by simp
  next
    case None
    have key: "key_ops ?cmp (detection_option_hash_func hash)" by (rule option_key_ops [OF ho])
    have "?m (stored @ [k]) k' = map_add_key ?cmp (ty, d) d (?m stored) k'" for k'
    proof (cases "?cmp k k'")
      case True
      then have "(\<lambda>s. ?cmp s k') = (\<lambda>s. ?cmp s k)"
        using key_ops.cmp_trans [OF key] key_ops.cmp_sym [OF key] by blast
      moreover have "?cmp k k" using True key_ops.cmp_trans [OF key] key_ops.cmp_sym [OF key] by blast
      ultimately show ?thesis using None True k by (simp add: find_snoc map_add_key_def)
    next
      case False
      then show ?thesis using None k by (auto simp: find_snoc map_add_key_def split: option.splits)
    qed
    then have "lazy_map ?cmp (Some t') (?m (stored @ [k]))" using l by (simp add: fun_eq_iff)
    then show ?thesis using Cons.IH [of "Some t'" "stored @ [k]"] rest a k f None by simp
  qed
qed simp

text \<open>
  C8: the option table stores equal options once.  For options whose equality is an equivalence
  that their hash respects, adding any sequence of options to a table that does not exist yet
  always returns, and every option is answered with the first stored option of its type that it
  equals, or with none if it is the first of its kind.
\<close>

theorem detection_options_interned:
  assumes "hashed_option eq hash" and "list_all (\<lambda>k. fst k \<noteq> RULE_OPTION_TYPE_LEAF_NODE) ks"
  shows "add_options h eq hash None ks = Some (intern eq [] ks)"
  by (rule add_options_intern [OF assms(1) _ assms(2)]) (simp add: lazy_map_def)

text \<open>Two byte tests that differ in the value they compare with.\<close>

definition bt_option_example :: "u32 \<Rightarrow> ips_option \<times> byte_test_data" where
  "bt_option_example v =
     (\<lparr>opt_name = [98, 116], opt_buffer = [112]\<rparr>, bt_field_example\<lparr>bt_cmp_value := v\<rparr>)"

lemma bt_option_example_eq: "byte_test_eq (bt_option_example v) (bt_option_example w) \<longleftrightarrow> v = w"
  by (simp add: byte_test_eq_iff bt_option_example_def) (auto dest: arg_cong [of _ _ bt_cmp_value])

theorem detection_options_interned_witness:
  "hashed_option byte_test_eq byte_test_hash \<and>
   (\<forall>h. add_options h byte_test_eq byte_test_hash None
      [(RULE_OPTION_TYPE_OTHER, bt_option_example 1), (RULE_OPTION_TYPE_OTHER, bt_option_example 2),
       (RULE_OPTION_TYPE_OTHER, bt_option_example 1)] = Some [None, None, Some (bt_option_example 1)])"
  using detection_options_interned [OF byte_test.hashed_option_axioms,
      of "[(RULE_OPTION_TYPE_OTHER, bt_option_example 1), (RULE_OPTION_TYPE_OTHER, bt_option_example 2),
       (RULE_OPTION_TYPE_OTHER, bt_option_example 1)]"] byte_test.hashed_option_axioms
  by (simp add: bt_option_example_eq)

section \<open>Trees of consistent types\<close>

text \<open>
  The type of a node is that of the option at its address.  Then trees that compare equal are
  equal, and replacing a tree by a stored one changes nothing.
\<close>

definition typed :: "(u64 \<Rightarrow> option_type) \<Rightarrow> tree_node \<Rightarrow> bool" where
  "typed ty n \<longleftrightarrow> retype ty n = n"

lemma typed_Node: "typed ty (Node t a ns) \<longleftrightarrow> t = ty a \<and> list_all (typed ty) ns"
  by (auto simp: typed_def list_all_iff map_idI map_eq_conv [where g = "\<lambda>x. x", simplified])

lemma typed_equal:
  assumes "tree_compare n m" and "typed ty n" and "typed ty m"
  shows "n = m"
proof -
  have "retype ty (untyped n) = retype ty (untyped m)" using assms(1) by (simp only: tree_compare_untyped(1))
  then show ?thesis using assms(2,3) by (simp only: retype_retype typed_def)
qed

text \<open>The trees in the table: each is found under the trees that it equals.\<close>

definition trees_stored :: "(u64 \<Rightarrow> option_type) \<Rightarrow> tree_table option \<Rightarrow> bool" where
  "trees_stored ty table \<longleftrightarrow>
     (\<exists>m. lazy_map tree_compare table m \<and> (\<forall>k d. m k = Some d \<longrightarrow> tree_compare d k \<and> typed ty d))"

lemma trees_stored_None: "trees_stored ty None"
  by (simp add: trees_stored_def lazy_map_def)

lemma add_tree_stored:
  assumes "trees_stored ty table" and "typed ty n"
  obtains table' p where "add_detection_option_tree h table n = Some (table', p)" "trees_stored ty table'"
    "p = None \<or> p = Some n"
proof -
  obtain m where m: "lazy_map tree_compare table m" "\<And>k d. m k = Some d \<Longrightarrow> tree_compare d k \<and> typed ty d"
    using assms(1) by (auto simp: trees_stored_def)
  obtain t' where a: "add_detection_option_tree h table n = Some (Some t', m n)"
    and l: "lazy_map tree_compare (Some t') (map_add_key tree_compare n n m)"
    by (rule add_detection_option_tree_map [OF m(1)])
  have "tree_compare d k \<and> typed ty d" if "map_add_key tree_compare n n m k = Some d" for k d
    using that m(2) [of k d] assms(2) by (auto simp: map_add_key_def split: if_splits)
  then have "trees_stored ty (Some t')" using l unfolding trees_stored_def by blast
  moreover have "m n = None \<or> m n = Some n"
    using m(2) [of n] typed_equal [OF _ _ assms(2)] by (cases "m n") blast+
  ultimately show thesis using a that by blast
qed

lemma finalize_loop_stored:
  assumes "trees_stored ty table" and "list_all (typed ty) ns"
  obtains table' where "finalize_loop h table ns = Some (table', ns)" "trees_stored ty table'"
  using assms
proof (induction ns arbitrary: table thesis)
  case (Cons n ns)
  obtain table1 p where 1: "add_detection_option_tree h table n = Some (table1, p)" "trees_stored ty table1"
    "p = None \<or> p = Some n"
    by (rule add_tree_stored [OF Cons.prems(2), of n h]) (use Cons.prems(3) in simp_all)
  obtain table2 where 2: "finalize_loop h table1 ns = Some (table2, ns)" "trees_stored ty table2"
    using Cons.IH [OF _ 1(2)] Cons.prems(3) by auto
  show ?case using Cons.prems(1) [OF _ 2(2)] 1 2(1) by auto
qed simp

section \<open>The paths of a tree\<close>

text \<open>
  The options of content type along each path from a node to a leaf; for a rule, its contents in
  order without those that only serve the pattern matcher (\<open>contents_of\<close>).
\<close>

fun node_paths :: "tree_node \<Rightarrow> u64 list list" and kid_paths :: "tree_node list \<Rightarrow> u64 list list" where
  "node_paths (Node t a ns) =
     (if t = RULE_OPTION_TYPE_LEAF_NODE then [[]]
      else let ps = (if ns = [] then [[]] else kid_paths ns)
           in if t = RULE_OPTION_TYPE_CONTENT then map ((#) a) ps else ps)"
| "kid_paths [] = []"
| "kid_paths (n # ns) = node_paths n @ kid_paths ns"

definition in_tree :: "opt_fp_list \<Rightarrow> bool" where
  "in_tree fp \<longleftrightarrow> opt_type fp \<noteq> RULE_OPTION_TYPE_LEAF_NODE \<and> \<not> is_fast_pattern_only fp"

definition contents_of :: "opt_fp_list list \<Rightarrow> u64 list" where
  "contents_of fps =
     map ips_opt (filter (\<lambda>fp. in_tree fp \<and> opt_type fp = RULE_OPTION_TYPE_CONTENT) fps)"

lemma paths_nonempty: "node_paths n \<noteq> []" "ns \<noteq> [] \<Longrightarrow> kid_paths ns \<noteq> []"
  by (induction n and ns rule: node_paths_kid_paths.induct) (auto simp: Let_def)

lemma kid_paths_append [simp]: "kid_paths (xs @ ys) = kid_paths xs @ kid_paths ys"
  by (induction xs) simp_all

lemma kid_paths_leaf:
  "n \<in> set ns \<Longrightarrow> node_type n = RULE_OPTION_TYPE_LEAF_NODE \<Longrightarrow> [] \<in> set (kid_paths ns)"
  by (induction ns) (auto simp: Let_def, case_tac n, simp)

text \<open>The invariant of a tree: every node that is not a leaf has children, and the types are right.\<close>

fun closed_node :: "tree_node \<Rightarrow> bool" where
  "closed_node (Node t a ns) \<longleftrightarrow>
     (t = RULE_OPTION_TYPE_LEAF_NODE \<or> ns \<noteq> []) \<and> list_all closed_node ns"

definition tree_ok :: "(u64 \<Rightarrow> option_type) \<Rightarrow> tree_node list \<Rightarrow> bool" where
  "tree_ok ty ns \<longleftrightarrow> list_all (typed ty) ns \<and> list_all closed_node ns"

lemma tree_ok_simps [simp]:
  "tree_ok ty []"
  "tree_ok ty (xs @ ys) \<longleftrightarrow> tree_ok ty xs \<and> tree_ok ty ys"
  "tree_ok ty (Node t a ns # xs) \<longleftrightarrow>
     t = ty a \<and> (t = RULE_OPTION_TYPE_LEAF_NODE \<or> ns \<noteq> []) \<and> tree_ok ty ns \<and> tree_ok ty xs"
  by (auto simp: tree_ok_def typed_Node)

definition rule_ok :: "(u64 \<Rightarrow> option_type) \<Rightarrow> opt_tree_node \<Rightarrow> bool" where
  "rule_ok ty otn \<longleftrightarrow>
     ty (otn_addr otn) = RULE_OPTION_TYPE_LEAF_NODE \<and>
     list_all (\<lambda>fp. opt_type fp = ty (ips_opt fp)) (opt_func otn)"

text \<open>Where the loop descends or adds a node.\<close>

lemma create_tree_cases:
  obtains (found) before t after ns where "nodes = before @ Node t (ips_opt fp) ns # after"
    "in_tree fp \<Longrightarrow> create_tree_loop sigs otn (fp # fps) need nodes =
       before @ Node t (ips_opt fp) (create_tree_loop sigs otn fps need ns) # after"
  | (new) "in_tree fp \<Longrightarrow> create_tree_loop sigs otn (fp # fps) need nodes =
       nodes @ [Node (opt_type fp) (ips_opt fp) (create_tree_loop sigs otn fps True [])]"
proof (cases "dropWhile (\<lambda>child. option_data child \<noteq> ips_opt fp) nodes")
  case Nil
  then show thesis
    using new by (simp add: in_tree_def Let_def dropWhile_eq_drop)
next
  case (Cons child after)
  let ?P = "\<lambda>child. option_data child \<noteq> ips_opt fp"
  have d: "option_data child = ips_opt fp" using Cons hd_dropWhile [of ?P nodes] by simp
  have "nodes = takeWhile ?P nodes @ child # after" using Cons takeWhile_dropWhile_id [of ?P nodes] by simp
  moreover have "child = Node (node_type child) (ips_opt fp) (children child)" using d by (cases child) simp
  ultimately show thesis
    using found [of "takeWhile ?P nodes" "node_type child" "children child" after] Cons d
    by (simp add: in_tree_def Let_def dropWhile_eq_drop)
qed

lemma create_tree_skip:
  "\<not> in_tree fp \<Longrightarrow> create_tree_loop sigs otn (fp # fps) need nodes = create_tree_loop sigs otn fps need nodes"
  by (auto simp: in_tree_def)

lemma create_tree_paths:
  assumes "ty (otn_addr otn) = RULE_OPTION_TYPE_LEAF_NODE"
    and "list_all (\<lambda>fp. opt_type fp = ty (ips_opt fp)) fps" and "tree_ok ty nodes" and "need \<or> nodes \<noteq> []"
  shows "tree_ok ty (create_tree_loop sigs otn fps need nodes) \<and>
    create_tree_loop sigs otn fps need nodes \<noteq> [] \<and>
    set (kid_paths (create_tree_loop sigs otn fps need nodes)) =
      insert (contents_of fps) (set (kid_paths nodes))"
  using assms(2-4)
proof (induction fps arbitrary: need nodes)
  case Nil
  show ?case
  proof (cases "need \<or> new_sig sigs nodes otn")
    case False
    then obtain n where "n \<in> set nodes" "node_type n = RULE_OPTION_TYPE_LEAF_NODE"
      by (auto simp: new_sig_def list_all_iff)
    then show ?thesis using False Nil kid_paths_leaf by (auto simp: contents_of_def)
  qed (use Nil assms(1) in \<open>auto simp: contents_of_def\<close>)
next
  case (Cons fp fps)
  have t: "opt_type fp = ty (ips_opt fp)" and r: "list_all (\<lambda>fp. opt_type fp = ty (ips_opt fp)) fps"
    using Cons.prems(1) by simp_all
  show ?case
  proof (cases "in_tree fp")
    case True
    then have nl: "ty (ips_opt fp) \<noteq> RULE_OPTION_TYPE_LEAF_NODE" using t by (simp add: in_tree_def)
    have c: "contents_of (fp # fps) = (if ty (ips_opt fp) = RULE_OPTION_TYPE_CONTENT
        then ips_opt fp # contents_of fps else contents_of fps)"
      using True t by (simp add: contents_of_def)
    show ?thesis
    proof (cases rule: create_tree_cases [where nodes = nodes and fp = fp and sigs = sigs
          and otn = otn and fps = fps and need = need])
      case (found before t' after ns)
      have p: "tree_ok ty ns" "ns \<noteq> []" "t' = ty (ips_opt fp)" using Cons.prems(2) found(1) nl by auto
      note IH = Cons.IH [OF r p(1), of need]
      show ?thesis using IH p nl c Cons.prems(2) unfolding found(2) [OF True] by (auto simp: found(1) Let_def)
    next
      case new
      note IH = Cons.IH [OF r, of "[]" True]
      show ?thesis using IH nl c t Cons.prems(2) unfolding new [OF True] by (auto simp: Let_def)
    qed
  next
    case False
    then show ?thesis
      using Cons.IH [OF r Cons.prems(2,3)] by (simp only: create_tree_skip contents_of_def filter.simps if_False simp_thms)
  qed
qed


text \<open>Two rules with a common first content; the third option only serves the pattern matcher.\<close>

definition rule_example :: "u64 \<Rightarrow> u64 \<Rightarrow> opt_tree_node" where
  "rule_example a c =
     \<lparr>otn_addr = a, opt_func =
        [\<lparr>opt_type = RULE_OPTION_TYPE_CONTENT, ips_opt = 100, pmd_fp_only = Some 0\<rparr>,
         \<lparr>opt_type = RULE_OPTION_TYPE_OTHER, ips_opt = 101, pmd_fp_only = None\<rparr>,
         \<lparr>opt_type = RULE_OPTION_TYPE_CONTENT, ips_opt = 102, pmd_fp_only = Some 1\<rparr>,
         \<lparr>opt_type = RULE_OPTION_TYPE_CONTENT, ips_opt = c, pmd_fp_only = Some 0\<rparr>]\<rparr>"

definition type_example :: "u64 \<Rightarrow> option_type" where
  "type_example a =
     (if a < 100 then RULE_OPTION_TYPE_LEAF_NODE
      else if a = 101 then RULE_OPTION_TYPE_OTHER else RULE_OPTION_TYPE_CONTENT)"

definition tree_example :: tree_root where
  "tree_example = otn_create_tree (\<lambda>a. (1, ucast a, 1)) (rule_example 1 103) None"

lemma tree_example_paths: "kid_paths tree_example = [[100, 103]]" "tree_ok type_example tree_example"
  by (simp_all add: tree_example_def otn_create_tree_def rule_example_def is_fast_pattern_only_def
      type_example_def)


end
