(* ===== verification/Pigasus.thy ===== *)
theory Pigasus
  imports Pcie Content_Option Option_Tree
begin

unbundle bit_operations_syntax

text \<open>
  The software side of Pigasus: for each PDU that the FPGA delivers, the rules it names are looked
  up in the port groups and their option trees evaluated on the payload.  From
  \<^verbatim>\<open>pigasus/pigasus.cc\<close>, with the rule lookup of \<^verbatim>\<open>search_engines/hyperscan.h\<close>, the port
  groups of \<^verbatim>\<open>detection/pcrm.cc\<close> and \<^verbatim>\<open>ports/port_group.h\<close>, and the option trees of
  \<^verbatim>\<open>detection/detection_options.h\<close> and \<^verbatim>\<open>detection_options.cc\<close>.
\<close>

section \<open>Evaluating option trees\<close>

text \<open>
  The options of type \<open>RULE_OPTION_TYPE_CONTENT\<close>: contents, and the options of
  \<^verbatim>\<open>ips_pcre.cc\<close> and \<^verbatim>\<open>ips_regex.cc\<close>, which call external libraries and are given by their
  evaluation function.  \<open>opt_eval\<close> is the virtual call \<open>opt->eval\<close>; \<open>None\<close> is a search that does
  not return.
\<close>

datatype ips_object =
    ContentObject content_data
  | LibraryObject "var_values \<Rightarrow> cursor \<Rightarrow> (eval_status \<times> cursor) option"

type_synonym option_store = "u64 \<Rightarrow> ips_object"

fun opt_eval :: "ips_object \<Rightarrow> var_values \<Rightarrow> cursor \<Rightarrow> (eval_status \<times> cursor) option" where
  "opt_eval (ContentObject cd) vals c = CheckANDPatternMatch cd vals c"
| "opt_eval (LibraryObject ev) vals c = ev vals c"

text \<open>
  The cursor is passed by value: each call works on a copy, whose loop offset is reset.  Only
  options of the content type are evaluated.
\<close>

fun eval_node :: "option_store \<Rightarrow> var_values \<Rightarrow> tree_node \<Rightarrow> cursor \<Rightarrow> eval_status option"
  and eval_children :: "option_store \<Rightarrow> var_values \<Rightarrow> tree_node list \<Rightarrow> cursor \<Rightarrow> eval_status option"
where
  "eval_node opts vals (Node t a ns) cur =
     (let c = cursor_copy cur
      in if t = RULE_OPTION_TYPE_LEAF_NODE then Some MATCH
         else if t = RULE_OPTION_TYPE_CONTENT then
           (case opt_eval (opts a) vals c of
              None \<Rightarrow> None
            | Some (st, c') \<Rightarrow> if st \<noteq> MATCH then Some st else eval_children opts vals ns c')
         else eval_children opts vals ns c)"
| "eval_children opts vals [] c = Some MATCH"
| "eval_children opts vals (n # ns) c =
     (case eval_node opts vals n c of
        None \<Rightarrow> None
      | Some st \<Rightarrow> if st \<noteq> MATCH then Some st else eval_children opts vals ns c)"

definition eval_tree ::
    "option_store \<Rightarrow> var_values \<Rightarrow> tree_root \<Rightarrow> cursor \<Rightarrow> eval_status option" where
  "eval_tree opts vals root cur = eval_children opts vals root (cursor_copy cur)"

section \<open>The pattern matcher's rule map\<close>

text \<open>
  A pattern of the matcher, with the rule it belongs to (reached through \<open>user\<close>) and the option
  tree that is built for it (\<open>user_tree\<close>, null until then).
\<close>

record hs_pattern =
  negate :: bool
  pat_rule :: opt_tree_node
  user_tree :: "tree_root option"

record hyperscan_mpse =
  pvector :: "hs_pattern list"
  compressed_sid_id_map :: "u32 \<rightharpoonup> nat"
  compressed_sid_id_map_outdated :: bool

definition add_pattern :: "bool \<Rightarrow> opt_tree_node \<Rightarrow> hyperscan_mpse \<Rightarrow> hyperscan_mpse" where
  "add_pattern neg otn so =
     so\<lparr>pvector := pvector so @ [\<lparr>negate = neg, pat_rule = otn, user_tree = None\<rparr>],
        compressed_sid_id_map_outdated := True\<rparr>"

text \<open>
  Building the trees of the patterns: a negated pattern has none.  The list of negated patterns
  (\<open>user_list\<close>) is not kept, the evaluation does not use it.
\<close>

fun user_ctor ::
    "sig_info \<Rightarrow> tree_table \<Rightarrow> tree_table option \<Rightarrow> hs_pattern list \<Rightarrow>
      (tree_table option \<times> hs_pattern list) option" where
  "user_ctor sigs h table [] = Some (table, [])"
| "user_ctor sigs h table (p # ps) =
     (case (if negate p then Some (table, user_tree p)
            else pmx_create_tree sigs h table (Some (pat_rule p)) (user_tree p)) of
        None \<Rightarrow> None
      | Some (table1, tree1) \<Rightarrow>
          (case pmx_create_tree sigs h table1 None tree1 of
             None \<Rightarrow> None
           | Some (table2, tree2) \<Rightarrow>
               map_option (\<lambda>(table', ps'). (table', p\<lparr>user_tree := tree2\<rparr> # ps'))
                 (user_ctor sigs h table2 ps)))"

text \<open>
  \<open>SnortConfig::sid_compressed_sid_map\<close> is the argument \<open>csid\<close>; the signature id of a pattern is
  that of its rule.
\<close>

definition pat_sid :: "sig_info \<Rightarrow> hs_pattern \<Rightarrow> u32" where
  "pat_sid sigs p = fst (snd (sigs (otn_addr (pat_rule p))))"

fun sid_map_loop ::
    "sig_info \<Rightarrow> (u32 \<rightharpoonup> u32) \<Rightarrow> nat \<Rightarrow> hs_pattern list \<Rightarrow> (u32 \<rightharpoonup> nat) \<Rightarrow> (u32 \<rightharpoonup> nat)" where
  "sid_map_loop sigs csid i [] m = m"
| "sid_map_loop sigs csid i (p # ps) m =
     sid_map_loop sigs csid (i + 1) ps
       (case csid (pat_sid sigs p) of Some c \<Rightarrow> m(c \<mapsto> i) | None \<Rightarrow> m)"

definition update_compressed_sid_id_map ::
    "sig_info \<Rightarrow> (u32 \<rightharpoonup> u32) \<Rightarrow> hyperscan_mpse \<Rightarrow> hyperscan_mpse" where
  "update_compressed_sid_id_map sigs csid so =
     so\<lparr>compressed_sid_id_map := sid_map_loop sigs csid 0 (pvector so) Map.empty,
        compressed_sid_id_map_outdated := False\<rparr>"

definition get_pattern_from_compressed_sid :: "u32 \<Rightarrow> hyperscan_mpse \<Rightarrow> hs_pattern option" where
  "get_pattern_from_compressed_sid c so =
     (case compressed_sid_id_map so c of None \<Rightarrow> None | Some i \<Rightarrow> Some (pvector so ! i))"

section \<open>Port groups\<close>

datatype pm_type = PM_TYPE_PKT | PM_TYPE_ALT | PM_TYPE_KEY | PM_TYPE_HEADER | PM_TYPE_BODY | PM_TYPE_FILE

record port_group =
  mpse :: "pm_type \<Rightarrow> hyperscan_mpse option"
  rule_count :: u32

definition ANYPORT :: int where "ANYPORT = - 1"
definition MAX_PORTS :: int where "MAX_PORTS = 65536"

record port_rule_map =
  prmSrcPort :: "int \<Rightarrow> port_group option"
  prmDstPort :: "int \<Rightarrow> port_group option"
  prmGeneric :: "port_group option"

text \<open>
  The groups for a port pair: source, destination, generic.  The configured \<open>split_any_any\<close> is
  an argument; \<open>None\<close> is the return value 0.
\<close>

type_synonym group_triple = "port_group option \<times> port_group option \<times> port_group option"

definition prmFindRuleGroup ::
    "bool \<Rightarrow> port_rule_map option \<Rightarrow> int \<Rightarrow> int \<Rightarrow> group_triple option" where
  "prmFindRuleGroup split prm dport sport =
     (case prm of
        None \<Rightarrow> None
      | Some p \<Rightarrow>
          let dst = (if dport \<noteq> ANYPORT \<and> dport < MAX_PORTS then prmDstPort p dport else None);
              src = (if sport \<noteq> ANYPORT \<and> sport < MAX_PORTS then prmSrcPort p sport else None);
              gen = (case prmGeneric p of
                       Some g \<Rightarrow> if 0 < rule_count g \<and> (split \<or> src = None \<and> dst = None)
                                 then Some g else None
                     | None \<Rightarrow> None)
          in if src \<noteq> None \<or> dst \<noteq> None \<or> gen \<noteq> None then Some (src, dst, gen) else None)"

definition prmFindRuleGroupIp ::
    "bool \<Rightarrow> port_rule_map option \<Rightarrow> int \<Rightarrow> (port_group option \<times> port_group option) option" where
  "prmFindRuleGroupIp split prm ip_proto =
     map_option (\<lambda>(src, ip_group, gen). (ip_group, gen)) (prmFindRuleGroup split prm ip_proto ANYPORT)"

definition prmFindRuleGroupIcmp ::
    "bool \<Rightarrow> port_rule_map option \<Rightarrow> int \<Rightarrow> (port_group option \<times> port_group option) option" where
  "prmFindRuleGroupIcmp split prm type =
     map_option (\<lambda>(src, type_group, gen). (type_group, gen)) (prmFindRuleGroup split prm type ANYPORT)"

definition prmFindRuleGroupTcp ::
    "bool \<Rightarrow> port_rule_map option \<Rightarrow> int \<Rightarrow> int \<Rightarrow> group_triple option" where
  "prmFindRuleGroupTcp split prm dport sport = prmFindRuleGroup split prm dport sport"

definition prmFindRuleGroupUdp ::
    "bool \<Rightarrow> port_rule_map option \<Rightarrow> int \<Rightarrow> int \<Rightarrow> group_triple option" where
  "prmFindRuleGroupUdp split prm dport sport = prmFindRuleGroup split prm dport sport"

section \<open>Evaluating a PDU\<close>

text \<open>
  What the evaluation reads of the configuration: the option store, the rule variables of the
  thread (which the evaluation never writes), the TCP port groups and \<open>split_any_any\<close>.
\<close>

record pigasus_conf =
  conf_opts :: option_store
  conf_vals :: var_values
  conf_prm :: "port_rule_map option"
  conf_split :: bool

text \<open>
  The loop over the rules of the PDU.  The null pointers that a group without a packet matcher and
  a negated pattern have are dereferenced; \<open>None\<close> stands for that and for a search that does not
  return.
\<close>

fun payload_loop ::
    "pigasus_conf \<Rightarrow> hyperscan_mpse \<Rightarrow> cursor \<Rightarrow> u16 list \<Rightarrow> eval_status \<Rightarrow> eval_status option" where
  "payload_loop cfg so c [] st = Some st"
| "payload_loop cfg so c (sid # sids) st =
     (case get_pattern_from_compressed_sid (ucast sid) so of
        None \<Rightarrow> payload_loop cfg so c sids st
      | Some patt \<Rightarrow>
          (case user_tree patt of
             None \<Rightarrow> None
           | Some root \<Rightarrow>
               (case eval_tree (conf_opts cfg) (conf_vals cfg) root c of
                  None \<Rightarrow> None
                | Some st' \<Rightarrow> if st' \<noteq> NO_MATCH then Some st' else payload_loop cfg so c sids st')))"

text \<open>The global cursor after \<open>cursor.set\<close>, which sets all of its fields.\<close>

definition pkt_cursor :: "bytes \<Rightarrow> cursor" where
  "pkt_cursor data =
     cursor_set ''pkt_data'' data (of_nat (length data))
       \<lparr>cur_name = ''pkt_data'', cur_data = [], cur_sz = 0, cur_pos = 0, cur_delta = 0\<rparr>"

definition process_pdu_payload ::
    "pigasus_conf \<Rightarrow> port_group \<Rightarrow> bytes \<Rightarrow> u16 list \<Rightarrow> eval_status option" where
  "process_pdu_payload cfg g data rule_sids =
     (case mpse g PM_TYPE_PKT of
        None \<Rightarrow> (if rule_sids = [] then Some NO_MATCH else None)
      | Some so \<Rightarrow> payload_loop cfg so (pkt_cursor data) rule_sids NO_MATCH)"

definition process_pdu_ports ::
    "pigasus_conf \<Rightarrow> bytes \<Rightarrow> u16 \<Rightarrow> u16 \<Rightarrow> u16 list \<Rightarrow> eval_status option" where
  "process_pdu_ports cfg data s_port d_port rule_sids =
     (case prmFindRuleGroupTcp (conf_split cfg) (conf_prm cfg) (uint d_port) (uint s_port) of
        None \<Rightarrow> Some NO_MATCH
      | Some (src, dst, any) \<Rightarrow>
          let try = (\<lambda>g k. case g of
                       None \<Rightarrow> k NO_MATCH
                     | Some g \<Rightarrow> (case process_pdu_payload cfg g data rule_sids of
                                    None \<Rightarrow> None
                                  | Some st \<Rightarrow> if st \<noteq> NO_MATCH then Some st else k st))
          in try dst (\<lambda>_. try src (\<lambda>_. try any Some)))"

text \<open>
  The rule identifiers of the PDU without zeros and repetitions.  The loop counter is 16 bits
  wide and is compared with a 32 bit bound; \<open>None\<close> is a loop that does not end.
\<close>

partial_function (option) collect_sids ::
    "(nat \<Rightarrow> u16) \<Rightarrow> u32 \<Rightarrow> u16 \<Rightarrow> u16 list \<Rightarrow> u16 list option" where
  "collect_sids raw_sids bound i acc =
     (if ucast i < bound then
        collect_sids raw_sids bound (i + 1)
          (if raw_sids (unat i) \<noteq> 0 \<and> raw_sids (unat i) \<notin> set acc
           then acc @ [raw_sids (unat i)] else acc)
      else Some acc)"

declare collect_sids.simps [code]

record pigasus_state =
  match_cntr :: u64
  no_match_cntr :: u64

definition sid_bound :: "block_s \<Rightarrow> u32" where
  "sid_bound block = num_rule_id block * of_nat NB_RULES_IN_LINE"

definition pdu_bytes :: "mem \<Rightarrow> block_s \<Rightarrow> bytes" where
  "pdu_bytes m block = map (payload_byte m block) [0..<unat (pdu_size block)]"

definition process_pdu ::
    "pigasus_conf \<Rightarrow> mem \<Rightarrow> block_s \<Rightarrow> pigasus_state \<Rightarrow> pigasus_state option" where
  "process_pdu cfg m block s =
     (case collect_sids (raw_sid m block) (sid_bound block) 0 [] of
        None \<Rightarrow> None
      | Some sids \<Rightarrow>
          (case process_pdu_ports cfg (pdu_bytes m block) (src_port block) (dst_port block) sids of
             None \<Rightarrow> None
           | Some NO_MATCH \<Rightarrow> Some (s\<lparr>no_match_cntr := no_match_cntr s + 1\<rparr>)
           | Some MATCH \<Rightarrow> Some (s\<lparr>match_cntr := match_cntr s + 1\<rparr>)
           | Some _ \<Rightarrow> Some s))"

section \<open>Initialisation\<close>

definition init_rule_id_map :: "sig_info \<Rightarrow> (u32 \<rightharpoonup> u32) \<Rightarrow> port_group option \<Rightarrow> port_group option" where
  "init_rule_id_map sigs csid g =
     (case g of
        None \<Rightarrow> None
      | Some g \<Rightarrow> Some (g\<lparr>mpse := (\<lambda>t. map_option (update_compressed_sid_id_map sigs csid) (mpse g t))\<rparr>))"

definition pigasus_init :: "sig_info \<Rightarrow> (u32 \<rightharpoonup> u32) \<Rightarrow> port_rule_map \<Rightarrow> port_rule_map" where
  "pigasus_init sigs csid prm =
     prm\<lparr>prmDstPort := (\<lambda>p. if 0 \<le> p \<and> p < MAX_PORTS then init_rule_id_map sigs csid (prmDstPort prm p)
                            else prmDstPort prm p),
         prmSrcPort := (\<lambda>p. if 0 \<le> p \<and> p < MAX_PORTS then init_rule_id_map sigs csid (prmSrcPort prm p)
                            else prmSrcPort prm p),
         prmGeneric := init_rule_id_map sigs csid (prmGeneric prm)\<rparr>"

section \<open>The main loop\<close>

text \<open>
  The packet callback that is handed to \<open>dma_run\<close>, on the counters; a PDU whose evaluation does
  not return leaves \<open>None\<close> for ever.
\<close>

definition pigasus_proc :: "pigasus_conf \<Rightarrow> pigasus_state option proc_packet_f" where
  "pigasus_proc cfg m block s = (case s of None \<Rightarrow> None | Some st \<Rightarrow> process_pdu cfg m block st)"

text \<open>
  \<open>pigasus_loop\<close> with the results of its system calls as arguments.  Its result is the pair of
  counters that it prints.  The status of \<open>dma_run\<close> is ignored; an access outside the mapped region
  is kept as an error.
\<close>

datatype loop_error = No_Kernel_Module | No_Cmd_Mode | Out_Of_Bounds | Cmd_Mode_Stays

record loop_env =
  env_dev :: dev_result
  env_cmd_on_fails :: bool
  env_cmd_off_fails :: bool
  env_core_id :: int
  env_ioctl_fails :: bool
  env_mmap :: "mem option"
  env_uio_mmap_fails :: bool

definition pigasus_loop ::
    "pigasus_conf \<Rightarrow> loop_env \<Rightarrow> block_s \<Rightarrow> pigasus_state \<Rightarrow> (mem \<Rightarrow> mem) list \<Rightarrow>
      loop_error + pigasus_state option" where
  "pigasus_loop cfg env block st polls =
     (if dev_ret (env_dev env) \<noteq> 0 then Inl No_Kernel_Module
      else if env_cmd_on_fails env then Inl No_Cmd_Mode
      else
        let r = dma_run (pigasus_proc cfg) (env_core_id env) (env_ioctl_fails env) (env_mmap env)
                  (env_uio_mmap_fails env) block (Some st) polls
        in case r of
             Inl Copy_Out_Of_Bounds \<Rightarrow> Inl Out_Of_Bounds
           | Inl _ \<Rightarrow> (if env_cmd_off_fails env then Inl Cmd_Mode_Stays else Inr (Some st))
           | Inr s \<Rightarrow> (if env_cmd_off_fails env then Inl Cmd_Mode_Stays else Inr (user s)))"

section \<open>What a tree decides\<close>

text \<open>What it means that the options of a path match one after the other.\<close>

fun path_match :: "option_store \<Rightarrow> var_values \<Rightarrow> u64 list \<Rightarrow> cursor \<Rightarrow> bool" where
  "path_match opts vals [] c = True"
| "path_match opts vals (a # as) c =
     (case opt_eval (opts a) vals (cursor_copy c) of
        None \<Rightarrow> False
      | Some (st, c') \<Rightarrow> st = MATCH \<and> path_match opts vals as c')"

lemma cursor_copy_idem [simp]: "cursor_copy (cursor_copy c) = cursor_copy c"
  by (simp add: cursor_copy_def)

lemma path_match_copy [simp]: "path_match opts vals p (cursor_copy c) = path_match opts vals p c"
  by (cases p) auto

lemma list_all_Cons_paths:
  assumes "ps \<noteq> []"
  shows "list_all (\<lambda>p. path_match opts vals p c) (map ((#) a) ps) \<longleftrightarrow>
    (\<exists>c'. opt_eval (opts a) vals (cursor_copy c) = Some (MATCH, c') \<and>
      list_all (\<lambda>p. path_match opts vals p c') ps)"
  using assms by (cases ps) (auto simp: list_all_iff split: option.splits)

lemma eval_node_paths:
  "eval_node opts vals n c = Some MATCH \<longleftrightarrow> list_all (\<lambda>p. path_match opts vals p c) (node_paths n)"
  "eval_children opts vals ns c = Some MATCH \<longleftrightarrow> list_all (\<lambda>p. path_match opts vals p c) (kid_paths ns)"
proof (induction opts vals n c and opts vals ns c rule: eval_node_eval_children.induct)
  case (1 opts vals t a ns cur)
  have ps: "(if ns = [] then [[]] else kid_paths ns) \<noteq> []"
    using paths_nonempty(2) by simp
  have kids: "list_all (\<lambda>p. path_match opts vals p c) (if ns = [] then [[]] else kid_paths ns) \<longleftrightarrow>
      list_all (\<lambda>p. path_match opts vals p c) (kid_paths ns)" for c
    by simp
  show ?case
  proof (cases "t = RULE_OPTION_TYPE_CONTENT")
    case True
    then show ?thesis
      using 1(1) [OF refl] by (auto simp: Let_def list_all_Cons_paths [OF ps] kids split: option.splits)
  next
    case False
    then show ?thesis using 1(2) [OF refl] by (simp add: Let_def kids)
  qed
qed (auto split: option.splits)

text \<open>
  C10: a rule's option tree matches exactly when along every path from the root to a leaf the
  content options match one after the other, each from where its predecessor left the cursor.
  Options of any other type are passed over, and the branches are conjunctive: one rule of the
  tree that fails makes the tree fail.
\<close>

theorem eval_tree_paths:
  "eval_tree opts vals root cur = Some MATCH \<longleftrightarrow>
     list_all (\<lambda>p. path_match opts vals p cur) (kid_paths root)"
  by (simp add: eval_tree_def eval_node_paths)

section \<open>Every option returns a verdict\<close>

text \<open>
  A store of options that always answer: contents as the parser builds them, with window operands
  below 2^30, and library options that return a verdict and leave the buffer as it is.
\<close>

definition verdict :: "eval_status \<Rightarrow> bool" where
  "verdict st \<longleftrightarrow> st = MATCH \<or> st = NO_MATCH"

definition object_ok :: "var_values \<Rightarrow> ips_object \<Rightarrow> bool" where
  "object_ok vals ob =
     (case ob of
        ContentObject cd \<Rightarrow>
          content_wf cd \<and> \<bar>var_or_int vals (cd_offset_var cd) (pm_offset (pmd cd))\<bar> < 2 ^ 30 \<and>
          \<bar>var_or_int vals (cd_depth_var cd) (pm_depth (pmd cd))\<bar> < 2 ^ 30
      | LibraryObject ev \<Rightarrow>
          (\<forall>c. cursor_ok c \<longrightarrow>
             (\<exists>st c'. ev vals c = Some (st, c') \<and> verdict st \<and> cursor_ok c' \<and> cur_data c' = cur_data c)))"

definition store_ok :: "option_store \<Rightarrow> var_values \<Rightarrow> bool" where
  "store_ok opts vals \<longleftrightarrow> (\<forall>a. object_ok vals (opts a))"

definition buffer_ok :: "cursor \<Rightarrow> bool" where
  "buffer_ok c \<longleftrightarrow> cursor_ok c \<and> length (cur_data c) < 2 ^ 30"

lemma buffer_ok_copy [simp]: "buffer_ok c \<Longrightarrow> buffer_ok (cursor_copy c)"
  by (simp add: buffer_ok_def cursor_copy_ok) (simp add: cursor_copy_def)

lemma content_returns:
  assumes "content_wf cd" and "window_ok cd vals c"
  shows "\<exists>st c'. CheckANDPatternMatch cd vals c = Some (st, c') \<and> verdict st \<and> cursor_ok c' \<and>
    cur_data c' = cur_data c"
proof (cases rule: uniSearchReal_cases [OF assms])
  case (1 at)
  then show ?thesis
    using content_moved_ok(3) [OF assms 1(2)]
    by (simp add: CheckANDPatternMatch_def Let_def verdict_def content_moved_def)
next
  case (2 r)
  then show ?thesis
    using assms(2) by (simp add: CheckANDPatternMatch_def Let_def verdict_def window_ok_def)
qed

lemma opt_eval_returns:
  assumes "store_ok opts vals" and "buffer_ok c"
  obtains st c' where "opt_eval (opts a) vals c = Some (st, c')" "verdict st" "buffer_ok c'"
proof (cases "opts a")
  case (ContentObject cd)
  then have "content_wf cd" "window_ok cd vals c"
    using assms by (auto simp: store_ok_def object_ok_def window_ok_def buffer_ok_def dest: spec [of _ a])
  from content_returns [OF this] show thesis
    using that ContentObject assms(2) by (auto simp: buffer_ok_def)
next
  case (LibraryObject ev)
  then have "object_ok vals (LibraryObject ev)" using assms(1) by (metis store_ok_def)
  then show thesis
    using that LibraryObject assms(2) by (fastforce simp: object_ok_def buffer_ok_def)
qed

lemma eval_node_returns:
  "store_ok opts vals \<Longrightarrow> buffer_ok c \<Longrightarrow> \<exists>st. eval_node opts vals n c = Some st \<and> verdict st"
  "store_ok opts vals \<Longrightarrow> buffer_ok c \<Longrightarrow> \<exists>st. eval_children opts vals ns c = Some st \<and> verdict st"
proof (induction opts vals n c and opts vals ns c rule: eval_node_eval_children.induct)
  case (1 opts vals t a ns cur)
  have b: "buffer_ok (cursor_copy cur)" using 1(4) by simp
  obtain st c' where e: "opt_eval (opts a) vals (cursor_copy cur) = Some (st, c')" "verdict st" "buffer_ok c'"
    by (rule opt_eval_returns [OF 1(3) b])
  show ?case
    using 1(1) [OF refl _ _ e(1) refl _ 1(3) e(3)] 1(2) [OF refl _ _ 1(3) b] e(1,2)
    by (auto simp: Let_def verdict_def)
next
  case (3 opts vals n ns c)
  then show ?case by (force simp: verdict_def)
qed (simp add: verdict_def)

lemma eval_tree_returns:
  assumes "store_ok opts vals" and "buffer_ok c"
  obtains "eval_tree opts vals root c = Some MATCH" | "eval_tree opts vals root c = Some NO_MATCH"
  using eval_node_returns(2) [OF assms(1), of "cursor_copy c" root] assms(2)
  by (auto simp: eval_tree_def verdict_def)

section \<open>The rule map\<close>

lemma sid_map_loop_find:
  "map_option ((!) (qs @ ps)) (sid_map_loop sigs csid (length qs) ps m c) =
   (case find (\<lambda>p. csid (pat_sid sigs p) = Some c) (rev ps) of
      Some p \<Rightarrow> Some p | None \<Rightarrow> map_option ((!) (qs @ ps)) (m c))"
proof (induction ps arbitrary: qs m)
  case (Cons p ps)
  show ?case
  proof (cases "csid (pat_sid sigs p)")
    case None
    then show ?thesis using Cons [of "qs @ [p]" m] by (simp add: find_snoc split: option.splits)
  next
    case (Some d)
    define m' where "m' = m(d \<mapsto> length qs)"
    have "m' c = (if d = c then Some (length qs) else m c)" by (simp add: m'_def)
    then show ?thesis
      using Cons [of "qs @ [p]" m'] Some
      by (simp add: find_snoc m'_def [symmetric] split: option.splits if_splits)
  qed
qed simp

text \<open>
  C12: after the initialisation of a port group, the rule that a compressed identifier names is
  looked up, in each of its matchers, as the last pattern that was added for a rule with that
  identifier, and there is none exactly when no pattern belongs to such a rule.
\<close>

theorem sid_lookup:
  "map_option (get_pattern_from_compressed_sid c) (mpse (the (init_rule_id_map sigs csid (Some g))) t) =
   map_option (\<lambda>so. find (\<lambda>p. csid (pat_sid sigs p) = Some c) (rev (pvector so))) (mpse g t)"
proof (cases "mpse g t")
  case (Some so)
  then show ?thesis
    using sid_map_loop_find [of "[]" "pvector so" sigs csid Map.empty c]
    by (simp add: init_rule_id_map_def get_pattern_from_compressed_sid_def
        update_compressed_sid_id_map_def map_option_case split: option.splits)
qed (simp add: init_rule_id_map_def)

section \<open>Collecting the rule identifiers\<close>

definition add_sid :: "u16 \<Rightarrow> u16 list \<Rightarrow> u16 list" where
  "add_sid x acc = (if x \<noteq> 0 \<and> x \<notin> set acc then acc @ [x] else acc)"

lemma collect_sids_unfold:
  "collect_sids raw bound i acc =
     (if ucast i < bound then collect_sids raw bound (i + 1) (add_sid (raw (unat i)) acc) else Some acc)"
  by (subst collect_sids.simps) (simp add: add_sid_def)

lemma add_sid_fold:
  "distinct acc \<Longrightarrow> distinct (fold add_sid xs acc)"
  "set (fold add_sid xs acc) = set acc \<union> (set xs - {0})"
  by (induction xs arbitrary: acc) (auto simp: add_sid_def)

lemma unat_ucast_u16: "unat (ucast (i :: u16) :: u32) = unat i"
proof -
  have "unat i < 2 ^ 16" using unsigned_less [of i] by simp
  then show ?thesis by (simp add: unsigned_ucast_eq unsigned_take_bit_eq take_bit_nat_eq_self)
qed

lemma collect_sids_returns:
  assumes "unat bound \<le> 65535" and "unat i \<le> unat bound"
  shows "collect_sids raw bound i acc = Some (fold add_sid (map raw [unat i..<unat bound]) acc)"
  using assms(2)
proof (induction "unat bound - unat i" arbitrary: i acc)
  case 0
  then have "\<not> ucast i < bound" by (simp add: word_less_nat_alt unat_ucast_u16)
  then show ?case using 0 by (subst collect_sids_unfold) simp
next
  case (Suc n)
  then have l: "unat i < unat bound" by simp
  then have u: "unat (i + 1) = unat i + 1"
    using assms(1) by (subst unat_add_nowrap) simp_all
  have "ucast i < bound" using l by (simp add: word_less_nat_alt unat_ucast_u16)
  then show ?case
    using Suc(1) [of "i + 1" "add_sid (raw (unat i)) acc"] Suc(2) l u
    by (subst collect_sids_unfold) (simp add: upt_conv_Cons)
qed

text \<open>
  With a bound above 65535 the 16 bit counter wraps before it reaches the bound: no number of
  iterations reaches the end.
\<close>

lemma u16_below: "65535 < unat bound \<Longrightarrow> ucast (i :: u16) < (bound :: u32)"
proof -
  assume "65535 < unat bound"
  moreover have "unat i < 2 ^ 16" using unsigned_less [of i] by simp
  ultimately show ?thesis by (simp add: word_less_nat_alt unat_ucast_u16)
qed

lemma collect_sids_diverges:
  assumes "65535 < unat bound"
  shows "collect_sids raw bound i acc = None"
proof -
  have "\<not> 65535 < unat bound" if "collect_sids raw bound i acc = Some r" for r
    using that
    by (rule collect_sids.raw_induct [where P = "\<lambda>_ b _ _ _. \<not> 65535 < unat b", rotated])
      (use u16_below in \<open>auto split: if_splits\<close>)
  with assms show ?thesis by (cases "collect_sids raw bound i acc") auto
qed

text \<open>
  C11: the loop that collects the rule identifiers of a PDU ends exactly when the 32 bit bound,
  32 times the number of identifier lines, is at most 65535, since its counter has only 16 bits;
  it then yields each identifier of the PDU that is not zero, once.
\<close>

theorem collect_sids_ends:
  "(case collect_sids (raw_sid m block) (sid_bound block) 0 [] of
      None \<Rightarrow> 65535 < unat (sid_bound block)
    | Some sids \<Rightarrow>
        unat (sid_bound block) \<le> 65535 \<and> distinct sids \<and>
        set sids = raw_sid m block ` {0..<unat (sid_bound block)} - {0})"
proof (cases "unat (sid_bound block) \<le> 65535")
  case True
  then show ?thesis by (simp add: collect_sids_returns add_sid_fold)
qed (simp add: collect_sids_diverges)

section \<open>The verdict on a PDU\<close>

text \<open>
  The port groups of a PDU in the order in which they are tried, and what it means that a rule of
  a group matches: the PDU names the rule, the group has a pattern for it, and the contents along
  every path of its option tree match the payload.
\<close>

definition selected_groups :: "pigasus_conf \<Rightarrow> block_s \<Rightarrow> port_group list" where
  "selected_groups cfg block =
     (case prmFindRuleGroupTcp (conf_split cfg) (conf_prm cfg)
             (uint (dst_port block)) (uint (src_port block)) of
        None \<Rightarrow> []
      | Some (src, dst, any) \<Rightarrow> List.map_filter id [dst, src, any])"

definition rule_matches :: "sig_info \<Rightarrow> (u32 \<rightharpoonup> u32) \<Rightarrow> pigasus_conf \<Rightarrow> bytes \<Rightarrow> hyperscan_mpse \<Rightarrow> u16 \<Rightarrow> bool" where
  "rule_matches sigs csid cfg data so sid =
     (case find (\<lambda>p. csid (pat_sid sigs p) = Some (ucast sid)) (rev (pvector so)) of
        None \<Rightarrow> False
      | Some p \<Rightarrow> path_match (conf_opts cfg) (conf_vals cfg) (contents_of (opt_func (pat_rule p)))
                    (pkt_cursor data))"

definition group_matches ::
    "sig_info \<Rightarrow> (u32 \<rightharpoonup> u32) \<Rightarrow> pigasus_conf \<Rightarrow> bytes \<Rightarrow> u16 set \<Rightarrow> port_group \<Rightarrow> bool" where
  "group_matches sigs csid cfg data sids g =
     (case mpse g PM_TYPE_PKT of
        None \<Rightarrow> False | Some so \<Rightarrow> \<exists>sid\<in>sids. rule_matches sigs csid cfg data so sid)"

text \<open>A matcher after its trees were built and its rule map was set up.\<close>

definition matcher_ready :: "sig_info \<Rightarrow> (u32 \<rightharpoonup> u32) \<Rightarrow> hyperscan_mpse \<Rightarrow> bool" where
  "matcher_ready sigs csid so \<longleftrightarrow>
     compressed_sid_id_map so = sid_map_loop sigs csid 0 (pvector so) Map.empty \<and>
     list_all (\<lambda>p. user_tree p = Some (otn_create_tree sigs (pat_rule p) None)) (pvector so)"

definition group_ready :: "sig_info \<Rightarrow> (u32 \<rightharpoonup> u32) \<Rightarrow> port_group \<Rightarrow> bool" where
  "group_ready sigs csid g =
     (case mpse g PM_TYPE_PKT of None \<Rightarrow> False | Some so \<Rightarrow> matcher_ready sigs csid so)"

lemma new_tree_path: "kid_paths (otn_create_tree sigs otn None) = [contents_of (opt_func otn)]"
proof -
  have "kid_paths (create_tree_loop sigs otn fps True []) = [contents_of fps] \<and>
      create_tree_loop sigs otn fps True [] \<noteq> []" for fps
    by (induction fps) (auto simp: contents_of_def in_tree_def Let_def)
  then show ?thesis by (simp add: otn_create_tree_def)
qed

lemma user_ctor_ready:
  assumes "trees_stored ty table" and "list_all (\<lambda>p. rule_ok ty (pat_rule p) \<and> \<not> negate p \<and> user_tree p = None) ps"
  obtains table' where "trees_stored ty table'"
    "user_ctor sigs h table ps =
       Some (table', map (\<lambda>p. p\<lparr>user_tree := Some (otn_create_tree sigs (pat_rule p) None)\<rparr>) ps)"
  using assms
proof (induction ps arbitrary: table thesis)
  case (Cons p ps)
  let ?root = "otn_create_tree sigs (pat_rule p) None"
  have r: "rule_ok ty (pat_rule p)" "\<not> negate p" "user_tree p = None" using Cons.prems(3) by simp_all
  have "tree_ok ty ?root"
    using create_tree_paths [of ty "pat_rule p" "opt_func (pat_rule p)" "[]" True] r(1)
    by (simp add: rule_ok_def otn_create_tree_def)
  then have "list_all (typed ty) ?root" by (simp add: tree_ok_def)
  from finalize_loop_stored [OF Cons.prems(2) this, of h] obtain table1 where
    1: "finalize_loop h table ?root = Some (table1, ?root)" "trees_stored ty table1" by blast
  obtain table2 where 2: "trees_stored ty table2" "user_ctor sigs h table1 ps =
      Some (table2, map (\<lambda>p. p\<lparr>user_tree := Some (otn_create_tree sigs (pat_rule p) None)\<rparr>) ps)"
    using Cons.IH [OF _ 1(2)] Cons.prems(3) by auto
  show ?case using Cons.prems(1) [OF 2(1)] 1(1) 2(2) r by (simp add: pmx_create_tree_def)
qed simp

lemma pkt_cursor_ok: "length data < 2 ^ 30 \<Longrightarrow> buffer_ok (pkt_cursor data)"
  by (simp add: buffer_ok_def pkt_cursor_def cursor_ok_def cursor_set_def unat_of_nat
      take_bit_nat_eq_self)

lemma ready_lookup:
  assumes "matcher_ready sigs csid so"
  shows "get_pattern_from_compressed_sid c so =
    find (\<lambda>p. csid (pat_sid sigs p) = Some c) (rev (pvector so))"
  using sid_map_loop_find [of "[]" "pvector so" sigs csid Map.empty c] assms
  by (simp add: matcher_ready_def get_pattern_from_compressed_sid_def map_option_case split: option.splits)

lemma ready_tree:
  assumes "matcher_ready sigs csid so" and "get_pattern_from_compressed_sid c so = Some p"
  shows "user_tree p = Some (otn_create_tree sigs (pat_rule p) None)"
proof -
  have "p \<in> set (pvector so)"
    using assms(2) unfolding ready_lookup [OF assms(1)] by (auto simp: find_Some_iff) (metis length_rev nth_mem set_rev)
  then show ?thesis using assms(1) by (simp add: matcher_ready_def list_all_iff)
qed

lemma payload_loop_verdict:
  assumes "store_ok (conf_opts cfg) (conf_vals cfg)" and "length data < 2 ^ 30"
    and ready: "matcher_ready sigs csid so"
  shows "payload_loop cfg so (pkt_cursor data) sids NO_MATCH =
    Some (if \<exists>sid\<in>set sids. rule_matches sigs csid cfg data so sid then MATCH else NO_MATCH)"
proof (induction sids)
  case (Cons sid sids)
  show ?case
  proof (cases "get_pattern_from_compressed_sid (ucast sid) so")
    case None
    then show ?thesis using Cons ready_lookup [OF ready] by (simp add: rule_matches_def)
  next
    case (Some p)
    let ?root = "otn_create_tree sigs (pat_rule p) None"
    have e: "rule_matches sigs csid cfg data so sid \<longleftrightarrow>
        eval_tree (conf_opts cfg) (conf_vals cfg) ?root (pkt_cursor data) = Some MATCH"
      using Some ready_lookup [OF ready]
      by (simp add: rule_matches_def eval_tree_def eval_node_paths new_tree_path)
    show ?thesis
      using Cons Some e ready_tree [OF ready Some]
      by (cases rule: eval_tree_returns [OF assms(1) pkt_cursor_ok [OF assms(2)], where root = ?root])
        simp_all
  qed
qed simp

lemma process_pdu_payload_verdict:
  assumes "store_ok (conf_opts cfg) (conf_vals cfg)" and "length data < 2 ^ 30"
    and "group_ready sigs csid g"
  shows "process_pdu_payload cfg g data sids =
    Some (if group_matches sigs csid cfg data (set sids) g then MATCH else NO_MATCH)"
  using assms payload_loop_verdict [OF assms(1,2)]
  by (auto simp: process_pdu_payload_def group_matches_def group_ready_def split: option.splits)

lemma process_pdu_ports_verdict:
  assumes "store_ok (conf_opts cfg) (conf_vals cfg)" and "length data < 2 ^ 30"
    and "list_all (group_ready sigs csid) (selected_groups cfg block)"
  shows "process_pdu_ports cfg data (src_port block) (dst_port block) sids =
    Some (if list_ex (group_matches sigs csid cfg data (set sids)) (selected_groups cfg block)
          then MATCH else NO_MATCH)"
proof (cases "prmFindRuleGroupTcp (conf_split cfg) (conf_prm cfg)
    (uint (dst_port block)) (uint (src_port block))")
  case None
  then show ?thesis by (simp add: process_pdu_ports_def selected_groups_def)
next
  case (Some t)
  obtain src dst any where t: "t = (src, dst, any)" by (cases t)
  have "process_pdu_payload cfg g data sids =
      Some (if group_matches sigs csid cfg data (set sids) g then MATCH else NO_MATCH)"
    if "Some g \<in> {src, dst, any}" for g
    using that assms(3) Some t
    by (intro process_pdu_payload_verdict [OF assms(1,2)])
      (auto simp: selected_groups_def map_filter_simps list_all_iff split: option.splits)
  then show ?thesis
    using Some t
    by (auto simp: process_pdu_ports_def selected_groups_def map_filter_simps Let_def split: option.splits)
qed

lemma process_pdu_counts:
  assumes "store_ok (conf_opts cfg) (conf_vals cfg)"
    and "list_all (group_ready sigs csid) (selected_groups cfg block)"
    and "unat (sid_bound block) \<le> 65535" and "unat (pdu_size block) < 2 ^ 30"
  shows "process_pdu cfg m block s =
    Some (if list_ex (group_matches sigs csid cfg (pdu_bytes m block)
                 (raw_sid m block ` {0..<unat (sid_bound block)} - {0})) (selected_groups cfg block)
          then s\<lparr>match_cntr := match_cntr s + 1\<rparr>
          else s\<lparr>no_match_cntr := no_match_cntr s + 1\<rparr>)"
proof -
  obtain sids where c: "collect_sids (raw_sid m block) (sid_bound block) 0 [] = Some sids"
    and "set sids = raw_sid m block ` {0..<unat (sid_bound block)} - {0}"
    using assms(3) by (simp add: collect_sids_returns add_sid_fold)
  moreover have "length (pdu_bytes m block) < 2 ^ 30" using assms(4) by (simp add: pdu_bytes_def)
  note process_pdu_ports_verdict [OF assms(1) this assms(2), of sids]
  ultimately show ?thesis by (simp add: process_pdu_def)
qed

text \<open>
  C6: for a PDU of less than 2^30 bytes with at most 65535 rule identifier slots, a configuration
  whose options answer and whose selected port groups have a packet matcher without negated
  patterns, built and initialised, the evaluation returns and counts exactly one verdict: a match
  exactly when in one of the port groups for its destination port, its source port or any port a
  rule that the PDU names has contents that match the payload one after the other.
\<close>

theorem process_pdu_verdict:
  assumes "store_ok (conf_opts cfg) (conf_vals cfg)"
    and "list_all (group_ready sigs csid) (selected_groups cfg block)"
    and "unat (sid_bound block) \<le> 65535" and "unat (pdu_size block) < 2 ^ 30"
  shows "process_pdu cfg m block s =
    Some (if list_ex (group_matches sigs csid cfg (pdu_bytes m block)
                 (raw_sid m block ` {0..<unat (sid_bound block)} - {0})) (selected_groups cfg block)
          then s\<lparr>match_cntr := match_cntr s + 1\<rparr>
          else s\<lparr>no_match_cntr := no_match_cntr s + 1\<rparr>)"
  using assms by (rule process_pdu_counts)


text \<open>
  A configuration with one rule, of compressed identifier 1, whose only content is the example
  content, for the destination port 80, and a PDU that names it and has the example payload.
\<close>

definition sigs_example :: sig_info where
  "sigs_example a = (1, 1000 + ucast a, 1)"

definition csid_example :: "u32 \<rightharpoonup> u32" where
  "csid_example = [1007 \<mapsto> 1]"

definition pattern_example :: hs_pattern where
  "pattern_example =
     \<lparr>negate = False,
      pat_rule = \<lparr>otn_addr = 7, opt_func =
        [\<lparr>opt_type = RULE_OPTION_TYPE_CONTENT, ips_opt = 100, pmd_fp_only = Some 0\<rparr>]\<rparr>,
      user_tree = None\<rparr>"

definition mpse_example :: hyperscan_mpse where
  "mpse_example =
     \<lparr>pvector = [pattern_example], compressed_sid_id_map = Map.empty, compressed_sid_id_map_outdated = True\<rparr>"

lemma pattern_example_ok:
  "list_all (\<lambda>p. rule_ok type_example (pat_rule p) \<and> \<not> negate p \<and> user_tree p = None) (pvector mpse_example)"
  by (simp add: mpse_example_def pattern_example_def rule_ok_def type_example_def)


definition ready_example :: hyperscan_mpse where
  "ready_example = update_compressed_sid_id_map sigs_example csid_example
     (mpse_example\<lparr>pvector := [pattern_example
       \<lparr>user_tree := Some (otn_create_tree sigs_example (pat_rule pattern_example) None)\<rparr>]\<rparr>)"

definition group_example :: port_group where
  "group_example =
     \<lparr>mpse = (\<lambda>t. if t = PM_TYPE_PKT then Some ready_example else None), rule_count = 1\<rparr>"

definition cfg_example :: pigasus_conf where
  "cfg_example =
     \<lparr>conf_opts = (\<lambda>_. ContentObject content_example), conf_vals = [0, 0, 0],
      conf_prm = Some \<lparr>prmSrcPort = (\<lambda>_. None),
        prmDstPort = (\<lambda>p. if p = 80 then Some group_example else None), prmGeneric = None\<rparr>,
      conf_split = False\<rparr>"

definition block_example :: block_s where
  "block_example =
     \<lparr>pdu_id = 1, dst_port = 80, src_port = 40000, dst_ip = 0, src_ip = 0, protocol = 6,
      num_rule_id = 1, pdu_size = 7, pdu_flit = 3, action = 0, pdu_payload = 16, rule_id = 32\<rparr>"

definition mem_example :: mem where
  "mem_example = (\<lambda>_. 0)(16 := 0x78786261, 17 := 0x00786261, 32 := 1)"

lemma cfg_example_groups:
  "selected_groups cfg_example block_example = [group_example]"
  "list_all (group_ready sigs_example csid_example) [group_example]"
  by (simp_all add: selected_groups_def cfg_example_def block_example_def prmFindRuleGroupTcp_def
      prmFindRuleGroup_def ANYPORT_def MAX_PORTS_def map_filter_simps group_ready_def group_example_def
      ready_example_def matcher_ready_def update_compressed_sid_id_map_def mpse_example_def)

lemma cfg_example_store: "store_ok (conf_opts cfg_example) (conf_vals cfg_example)"
  using content_example_wf
  by (simp add: store_ok_def object_ok_def cfg_example_def window_ok_def)

lemma block_example_pdu:
  "sid_bound block_example = 32" "unat (pdu_size block_example) = 7"
  "pdu_bytes mem_example block_example = [97, 98, 120, 120, 97, 98, 120]"
  "raw_sid mem_example block_example 0 = 1"
  by (simp_all add: sid_bound_def block_example_def pcie_constants pdu_bytes_def payload_byte_def
      mem_example_def upt_rec raw_sid_def)

lemma group_example_matches:
  "1 \<in> sids \<Longrightarrow> group_matches sigs_example csid_example cfg_example [97, 98, 120, 120, 97, 98, 120] sids group_example"
proof -
  assume s: "1 \<in> sids"
  have c: "cursor_copy (pkt_cursor [97, 98, 120, 120, 97, 98, 120]) = content_cursor"
    by (simp add: pkt_cursor_def cursor_set_def content_cursor_def cursor_copy_def)
  have "path_match (conf_opts cfg_example) (conf_vals cfg_example) [100]
      (pkt_cursor [97, 98, 120, 120, 97, 98, 120])"
    using content_example_eval c by (auto simp: cfg_example_def)
  then have "rule_matches sigs_example csid_example cfg_example [97, 98, 120, 120, 97, 98, 120] ready_example 1"
    by (simp add: rule_matches_def ready_example_def update_compressed_sid_id_map_def mpse_example_def
        csid_example_def pat_sid_def sigs_example_def pattern_example_def contents_of_def in_tree_def
        is_fast_pattern_only_def)
  then show ?thesis using s by (auto simp: group_matches_def group_example_def)
qed

theorem process_pdu_verdict_witness:
  "store_ok (conf_opts cfg_example) (conf_vals cfg_example) \<and>
   list_all (group_ready sigs_example csid_example) (selected_groups cfg_example block_example) \<and>
   process_pdu cfg_example mem_example block_example \<lparr>match_cntr = 0, no_match_cntr = 0\<rparr> =
     Some \<lparr>match_cntr = 1, no_match_cntr = 0\<rparr>"
proof -
  have r: "list_all (group_ready sigs_example csid_example) (selected_groups cfg_example block_example)"
    using cfg_example_groups by simp
  have "1 \<in> raw_sid mem_example block_example ` {0..<32} - {0}"
    using block_example_pdu(4) by (auto intro: image_eqI [of _ _ 0])
  note m = group_example_matches [OF this]
  have b: "unat (sid_bound block_example) \<le> 65535" "unat (pdu_size block_example) < 2 ^ 30"
    by (simp_all add: block_example_pdu)
  show ?thesis
    using process_pdu_verdict [OF cfg_example_store r b, of mem_example "\<lparr>match_cntr = 0, no_match_cntr = 0\<rparr>"]
      m r cfg_example_store cfg_example_groups(1) block_example_pdu
    by simp
qed

end
