(* ===== verification/Spec2Isabelle.thy ===== *)
theory Spec2Isabelle
  imports Pcie_Ring Byte_Math Content_Option XHash_Run Thresholds Option_Tree Pigasus
begin

text \<open>
  A verification development for the software of Pigasus, an intrusion detection system in which
  an FPGA reassembles streams and searches them for the patterns of the rules, and a server checks
  the rest of each rule.  The server runs a fork of Snort 3.  Paths below are relative to
  \<^verbatim>\<open>src/pigasus/software/src\<close>.

  \<^bold>\<open>The program.\<close>  The FPGA writes PDUs (a header, a payload, lines of compressed rule identifiers)
  into a ring in host memory.  \<^verbatim>\<open>dma_run\<close> (\<^verbatim>\<open>pigasus/pcie/pcie.cc\<close>) takes them out and hands each to
  \<^verbatim>\<open>process_pdu\<close> (\<^verbatim>\<open>pigasus/pigasus.cc\<close>), which looks the named rules up in the port groups
  (\<^verbatim>\<open>detection/pcrm.cc\<close>) and their matchers (\<^verbatim>\<open>search_engines/hyperscan.h\<close>) and evaluates the option
  tree of each rule on the payload.  The trees are built at start-up (\<^verbatim>\<open>detection/fp_create.cc\<close>) from
  options that are stored once each (\<^verbatim>\<open>detection/detection_options.cc\<close>) in hash tables
  (\<^verbatim>\<open>hash/xhash.cc\<close>); the options read the payload through a cursor (\<^verbatim>\<open>framework/cursor.h\<close>) and
  search it (\<^verbatim>\<open>utils/boyer_moore.cc\<close>) or extract numbers from it (\<^verbatim>\<open>ips_options/extract.cc\<close>).

  \<^bold>\<open>The theories.\<close>
  \<^item> \<^verbatim>\<open>Snort_Prelude\<close>: type synonyms for the machine integers, conversions to C \<open>int\<close>, generic lemmas on
    words, lists and options, and the collections of facts.
  \<^item> \<^verbatim>\<open>Pcie\<close>, \<^verbatim>\<open>Pcie_Ring\<close>: \<^verbatim>\<open>pigasus/pcie/pcie.cc\<close>.  The header record \<open>block_s\<close>, the loop state
    \<open>dma_state\<close>, one definition per function (\<open>fill_block\<close>, \<open>dma_iter\<close>, \<open>dma_run\<close>, \<open>c2f_copy_head\<close>,
    \<open>get_dev_handles\<close>).  The FPGA, the polling of the tail and the iterations are the steps of
    \<open>ring_step\<close>; the invariant \<open>ring_inv\<close> gives that the ring is a FIFO that loses and reorders
    nothing, that no copy leaves the mapped memory, and that waiting for space ends.
  \<^item> \<^verbatim>\<open>Boyer_Moore\<close>: \<^verbatim>\<open>utils/boyer_moore.cc\<close>.  The tables and both searches; the searches find the
    first occurrence.
  \<^item> \<^verbatim>\<open>Cstring\<close>, \<^verbatim>\<open>Extract\<close>: the C string functions that are used and \<^verbatim>\<open>ips_options/extract.cc\<close>; the
    numbers read from the payload are the ones written there, and the rule variables keep their values.
  \<^item> \<^verbatim>\<open>Cursor\<close>: \<^verbatim>\<open>framework/cursor.h\<close>, with the invariant \<open>cursor_ok\<close>.
  \<^item> \<^verbatim>\<open>Hashfcn\<close>: the mixing functions of \<^verbatim>\<open>hash/hashfcn.h\<close> and the hash and equality of options of
    \<^verbatim>\<open>framework/ips_option.cc\<close>.
  \<^item> \<^verbatim>\<open>Byte_Test\<close>, \<^verbatim>\<open>Byte_Jump\<close>, \<^verbatim>\<open>Byte_Math\<close>: the options \<^verbatim>\<open>byte_test\<close>, \<^verbatim>\<open>byte_jump\<close>,
    \<^verbatim>\<open>byte_extract\<close>, \<^verbatim>\<open>byte_math\<close> and \<^verbatim>\<open>isdataat\<close>: parameters, parser callbacks, evaluation, hash and
    equality.  The locale \<open>hashed_option\<close> is what an option table needs of an option; every option is
    an interpretation.
  \<^item> \<^verbatim>\<open>Parse_Utils\<close>, \<^verbatim>\<open>Content_Option\<close>: the syntax of contents (\<^verbatim>\<open>parser/parse_utils.cc\<close>) and
    \<^verbatim>\<open>ips_options/ips_content.cc\<close>; what a content matches, that retrying it ends, and that the parser
    establishes the invariant \<open>content_wf\<close>.  The locale \<open>searcher\<close> is the contract of a search, with
    both Boyer-Moore searches as interpretations.
  \<^item> \<^verbatim>\<open>XHash\<close>, \<^verbatim>\<open>XHash_Spec\<close>, \<^verbatim>\<open>XHash_Run\<close>: \<^verbatim>\<open>hash/xhash.cc\<close> and \<^verbatim>\<open>utils/sfmemcap.cc\<close> on the level of
    the linked nodes: the pointer fields are maps from node addresses.  The invariant \<open>xh_inv\<close>
    relates them to lists, \<open>holds\<close> to entries; the table refines a dictionary, and with automatic
    recovery a cache that evicts the least recently used entry; deleting it frees every block.  The
    locale \<open>key_ops\<close> is what the table needs of its key operations.
  \<^item> \<^verbatim>\<open>Thresholds\<close>: \<^verbatim>\<open>filters/sfthd.cc\<close> on top of the hash table.  The order that creating objects
    keeps, which events of an address are logged in a time window, and that the test on the table of addresses does to each entry what the
    reference step \<open>thd_step\<close> does.
  \<^item> \<^verbatim>\<open>Option_Tree\<close>: the option and tree tables of \<^verbatim>\<open>detection/detection_options.cc\<close> on top of the hash
    table, and the construction of option trees in \<^verbatim>\<open>detection/fp_create.cc\<close>.  Equal options are stored
    once; adding a rule adds its path to a tree and nothing else; \<open>key_ops\<close> is interpreted on the
    tree comparison and hash, and replacing a tree by a stored one changes nothing.
  \<^item> \<^verbatim>\<open>Pigasus\<close>: \<^verbatim>\<open>pigasus/pigasus.cc\<close> with the matcher's rule map, the port groups and the main loop.
    The evaluation of a tree, the collection of rule identifiers, the rule map, and the verdict and
    counters of a PDU.
  \<^item> This theory composes the last with the ring: every PDU that leaves the ring is counted once, with
    the verdict that its own words and the rules determine.

  \<^bold>\<open>Conventions.\<close>  Machine integers are words of their width, or \<open>int\<close> with \<open>to_int32\<close> at every C \<open>int\<close>
  operation that can overflow.  Memory is a function from word index (\<open>mem\<close>) or a list of bytes.
  Errors and early returns are values of sums and options; where a loop of the source may not end,
  the definition is a \<open>partial_function\<close> whose value \<open>None\<close> is non-termination, and the theorems
  state that it returns.  No definition uses fuel.

  \<^bold>\<open>Bounds.\<close>  Contents are searched without signed overflow for buffers, patterns and window operands
  below 2^30; the payload of a PDU in the ring has at most 4096 bytes.  A PDU in the ring has at
  most 64 lines of 64 bytes (\<open>wf_pdu\<close>), the size of the area behind the ring that a wrapping PDU is
  completed in.  The hash table theorems hold for up to 2^31 rows and key and data sizes whose sum
  fits an \<open>int\<close>.

  \<^bold>\<open>Parameters.\<close>  The FPGA enters as the step \<open>fpga_write\<close>; system calls as arguments with their
  results; the PCRE and Hyperscan options as functions (\<open>LibraryObject\<close>) that return a verdict and
  leave the buffer alone; the signatures of the rules and the map to compressed identifiers as
  functions.

  \<^bold>\<open>Not modelled.\<close>  The software pipeline that the FPGA replaces (codecs, flow and stream handling,
  inspectors, and with them \<^verbatim>\<open>detection_option_node_evaluate\<close>, which depends on the packet, flow bits
  and profiling state); event queues, rate filters and logging; the rule language, configuration and plugin
  managers and the choice of fast patterns, which run at start-up on external Lua state; the
  Aho-Corasick engines and the Hyperscan library; address and port tables; threads, signals and
  packet I/O; the kernel driver and the FPGA design itself, which are C kernel code and SystemVerilog
  without a counterpart in the model except for the DMA step.
\<close>

unbundle bit_operations_syntax

section \<open>From the ring to the verdicts\<close>

text \<open>
  What a PDU says, read from its words: the header, the payload behind it and the lines of rule
  identifiers behind the payload.
\<close>

definition pdu_line :: "u32 list \<Rightarrow> nat" where
  "pdu_line p = (unat (p ! 6) + 63) div 64 + 1"

definition pdu_payload_bytes :: "u32 list \<Rightarrow> bytes" where
  "pdu_payload_bytes p = map (\<lambda>i. ucast (drop_bit (8 * (i mod 4)) (p ! (16 + i div 4)))) [0..<unat (p ! 6)]"

definition pdu_sids :: "u32 list \<Rightarrow> u16 set" where
  "pdu_sids p =
     (\<lambda>i. ucast (drop_bit (16 * (i mod 2)) (p ! (16 * pdu_line p + i div 2)))) ` {0..<32 * unat (p ! 5)} - {0}"

definition pdu_fits :: "u32 list \<Rightarrow> bool" where
  "pdu_fits p \<longleftrightarrow> 16 * (pdu_line p + unat (p ! 5)) \<le> length p"

text \<open>The groups for the ports of the PDU, and whether one of them has a matching rule.\<close>

definition pdu_groups :: "pigasus_conf \<Rightarrow> u32 list \<Rightarrow> port_group list" where
  "pdu_groups cfg p =
     (case prmFindRuleGroupTcp (conf_split cfg) (conf_prm cfg)
             (uint (ucast (p ! 1 AND 0xFFFF) :: u16)) (uint (ucast (drop_bit 16 (p ! 1) AND 0xFFFF) :: u16)) of
        None \<Rightarrow> []
      | Some (src, dst, any) \<Rightarrow> List.map_filter id [dst, src, any])"

definition pdu_matches :: "sig_info \<Rightarrow> (u32 \<rightharpoonup> u32) \<Rightarrow> pigasus_conf \<Rightarrow> u32 list \<Rightarrow> bool" where
  "pdu_matches sigs csid cfg p \<longleftrightarrow>
     list_ex (group_matches sigs csid cfg (pdu_payload_bytes p) (pdu_sids p)) (pdu_groups cfg p)"

definition count_pdu ::
    "sig_info \<Rightarrow> (u32 \<rightharpoonup> u32) \<Rightarrow> pigasus_conf \<Rightarrow> u32 list \<Rightarrow> pigasus_state \<Rightarrow> pigasus_state" where
  "count_pdu sigs csid cfg p st =
     (if pdu_matches sigs csid cfg p then st\<lparr>match_cntr := match_cntr st + 1\<rparr>
      else st\<lparr>no_match_cntr := no_match_cntr st + 1\<rparr>)"

text \<open>The lines that the payload takes up, as \<open>fill_block\<close> counts them.\<close>

lemma payload_lines:
  "(if 0 < (n AND 0x3F) then unat (drop_bit 6 n) + 1 else unat (drop_bit 6 n)) =
     (unat (n :: u32) + 63) div 64"
proof -
  have d: "unat (drop_bit 6 n) = unat n div 64"
    by (simp add: drop_bit_eq_div unat_div)
  have "n AND 0x3F = take_bit 6 n" by (simp add: take_bit_eq_mask mask_numeral)
  then have "unat (n AND 0x3F) = unat n mod 64"
    by (simp add: take_bit_eq_mod unat_mod)
  then have "0 < (n AND 0x3F) \<longleftrightarrow> 0 < unat n mod 64" by (simp only: word_less_nat_alt unsigned_0)
  moreover have "(if 0 < k mod 64 then k div 64 + 1 else k div 64) = (k + 63) div 64" for k :: nat
  proof -
    have "(k + 63) div 64 = k div 64 + (k mod 64 + 63) div 64"
      using div_mult_self2 [of 64 "k mod 64 + 63" "k div 64"] by (simp add: add.commute add.left_commute)
    moreover have "(k mod 64 + 63) div 64 = 1" if "0 < k mod 64"
      using that mod_less_divisor [of 64 k] by (intro div_nat_eqI) simp_all
    ultimately show ?thesis by simp
  qed
  ultimately show ?thesis unfolding d by (simp only:)
qed

lemma fill_block_read:
  assumes b: "b = fill_block m a b0" and w: "\<And>j. j < length p \<Longrightarrow> m (a + j) = p ! j"
    and wf: "wf_pdu p" and fits: "pdu_fits p"
  shows "num_rule_id b = p ! 5" and "pdu_size b = p ! 6"
    and "pdu_bytes m b = pdu_payload_bytes p"
    and "raw_sid m b ` {0..<32 * unat (p ! 5)} - {0} = pdu_sids p"
    and "selected_groups cfg b = pdu_groups cfg p"
proof -
  have l: "16 \<le> length p" using wf wf_pdu_pos [OF wf] by (auto simp: wf_pdu_def)
  have h: "m (a + 1) = p ! 1" "m (a + 5) = p ! 5" "m (a + 6) = p ! 6"
    using w [of 1] w [of 5] w [of 6] l by simp_all
  have r: "rule_id b = a + 16 * pdu_line p"
    unfolding b fill_block_def Let_def h(3) payload_lines by (simp add: pdu_line_def)
  show f: "num_rule_id b = p ! 5" "pdu_size b = p ! 6"
    by (simp_all add: b fill_block_def Let_def h)
  have pp: "pdu_payload b = a + 16" by (simp add: b fill_block_def Let_def)
  show "selected_groups cfg b = pdu_groups cfg p"
    using h by (simp add: selected_groups_def pdu_groups_def b fill_block_def Let_def)
  have line: "unat (p ! 6) \<le> 64 * (pdu_line p - 1)" by (simp add: pdu_line_def)
  have "m (pdu_payload b + i div 4) = p ! (16 + i div 4)" if "i < unat (p ! 6)" for i
    using w [of "16 + i div 4"] that line fits pp by (simp add: pdu_fits_def pdu_line_def add.assoc)
  then show "pdu_bytes m b = pdu_payload_bytes p"
    by (simp add: pdu_bytes_def pdu_payload_bytes_def payload_byte_def f)
  have "m (rule_id b + i div 2) = p ! (16 * pdu_line p + i div 2)" if "i < 32 * unat (p ! 5)" for i
    using w [of "16 * pdu_line p + i div 2"] that fits r by (simp add: pdu_fits_def add.assoc)
  then have "raw_sid m b i = ucast (drop_bit (16 * (i mod 2)) (p ! (16 * pdu_line p + i div 2)))"
    if "i < 32 * unat (p ! 5)" for i
    using that by (simp add: raw_sid_def)
  then have "raw_sid m b ` {0..<32 * unat (p ! 5)} =
      (\<lambda>i. ucast (drop_bit (16 * (i mod 2)) (p ! (16 * pdu_line p + i div 2)))) ` {0..<32 * unat (p ! 5)}"
    by (intro image_cong) simp_all
  then show "raw_sid m b ` {0..<32 * unat (p ! 5)} - {0} = pdu_sids p" by (simp add: pdu_sids_def)
qed

lemma process_pdu_window:
  assumes b: "b = fill_block m a b0" and w: "\<And>j. j < length p \<Longrightarrow> m (a + j) = p ! j"
    and wf: "wf_pdu p" and fits: "pdu_fits p" and opts: "store_ok (conf_opts cfg) (conf_vals cfg)"
    and ready: "list_all (group_ready sigs csid) (pdu_groups cfg p)"
  shows "process_pdu cfg m b st = Some (count_pdu sigs csid cfg p st)"
proof -
  note r = fill_block_read [OF b w wf fits]
  have len: "length p \<le> 1024" using wf by (simp add: wf_pdu_def)
  have n: "unat (p ! 5) \<le> 64" and s: "unat (p ! 6) \<le> 4096"
    using fits len by (simp_all add: pdu_fits_def pdu_line_def)
  have sb: "unat (sid_bound b) = 32 * unat (p ! 5)"
    using n r(1) unfolding sid_bound_def by (subst unat_mult_nowrap) (simp_all add: pcie_constants)
  show ?thesis
    using process_pdu_counts [OF opts, of sigs csid b m st] n s sb r ready by (simp add: count_pdu_def pdu_matches_def)
qed

lemma fill_block_cong:
  assumes "\<And>k. k < 8 \<Longrightarrow> m (a + k) = m' (a + k)"
  shows "fill_block m a b = fill_block m' a b"
  using assms [of 0] assms [of 1] assms [of 2] assms [of 3] assms [of 4] assms [of 5] assms [of 6] assms [of 7]
  by (simp add: fill_block_def Let_def)

text \<open>The header that an iteration parses is the first line of the PDU that the callback sees.\<close>

lemma iter_block:
  assumes inv: "ring_inv S q" and ne: "cpu_tail (dma S) \<noteq> cpu_head (dma S)"
    and it: "dma_iter proc_pkt (dma S) = Inr d" and p: "pdu_window (kdata d) (pdu d) = p" and wf: "wf_pdu p"
  obtains a b0 where "pdu d = fill_block (kdata d) a b0" "\<And>j. j < length p \<Longrightarrow> kdata d (a + j) = p ! j"
proof -
  let ?h = "cpu_head (dma S)" and ?m = "kdata (dma S)"
  let ?a = "unat ((?h + 1) * 16)"
  let ?b = "fill_block ?m ?a (pdu (dma S))"
  have h: "unat ?h < RING" using inv by (simp add: ring_inv_def Let_def)
  obtain m' where m': "round_copy ?h (pdu_flit ?b) ?m = Inr m'" and d: "kdata d = m'" "pdu d = ?b"
    using it ne by (auto simp: dma_iter_def Let_def split: sum.splits)
  have pp: "pdu_payload ?b - 16 = ?a" by (simp add: fill_block_def Let_def)
  have "length p = 16 * unat (pdu_flit ?b)" using p d by (auto simp: pdu_window_def)
  then have flit: "unat (pdu_flit ?b) \<le> 64" and len: "length p = 16 * unat (pdu_flit ?b)"
    using wf by (simp_all add: wf_pdu_def)
  have same: "m' x = ?m x" if "x < (RING + 1) * 16" for x
    using round_copy_window [OF h flit, of ?m] m' that by auto
  have "m' (?a + k) = ?m (?a + k)" if "k < 16" for k
    using same [of "?a + k"] that h unfolding head_index [OF h] by simp
  then have "fill_block m' ?a (pdu (dma S)) = ?b" by (intro fill_block_cong) simp
  then have "pdu d = fill_block (kdata d) ?a (pdu (dma S))" using d by simp
  moreover have "kdata d (?a + j) = p ! j" if "j < length p" for j
    using p that len unfolding d pdu_window_def pp by auto
  ultimately show thesis by (rule that)
qed

definition pdu_good :: "sig_info \<Rightarrow> (u32 \<rightharpoonup> u32) \<Rightarrow> pigasus_conf \<Rightarrow> u32 list \<Rightarrow> bool" where
  "pdu_good sigs csid cfg p \<longleftrightarrow> pdu_fits p \<and> list_all (group_ready sigs csid) (pdu_groups cfg p)"

lemma ring_step_counts:
  assumes step: "ring_step (pigasus_proc cfg) S T" and inv: "ring_inv S q"
    and sent: "sent S = done @ q" and user: "user (dma S) = Some (fold (count_pdu sigs csid cfg) done st)"
    and opts: "store_ok (conf_opts cfg) (conf_vals cfg)" and good: "list_all (pdu_good sigs csid cfg) (sent T)"
  shows "\<exists>done' q'. ring_inv T q' \<and> sent T = done' @ q' \<and>
    user (dma T) = Some (fold (count_pdu sigs csid cfg) done' st)"
  using step
proof (cases rule: ring_step.cases)
  case (fpga p m)
  then have "ring_inv T (q @ [p])" using ring_inv_fpga [OF inv] by simp
  then show ?thesis using fpga sent user by (intro exI [of _ "done"] exI [of _ "q @ [p]"]) simp
next
  case poll
  then have "ring_inv T q" using ring_inv_poll [OF inv] by simp
  then show ?thesis
    using poll sent user by (intro exI [of _ "done"] exI [of _ q]) (simp add: read_tail_def)
next
  case (iter d)
  show ?thesis
  proof (cases "cpu_tail (dma S) = cpu_head (dma S)")
    case True
    then have "T = S" using iter dma_iter_idle [OF True] by simp
    then show ?thesis using inv sent user by blast
  next
    case False
    obtain p q' d' where q: "q = p # q'" and it: "dma_iter (pigasus_proc cfg) (dma S) = Inr d'"
      and inv': "ring_inv (S\<lparr>dma := d'\<rparr>) q'" and p: "pdu_window (kdata d') (pdu d') = p"
      and us: "user d' = pigasus_proc cfg (kdata d') (pdu d') (user (dma S))"
      using ring_inv_iter [OF inv False, of "pigasus_proc cfg"] by blast
    have T: "T = S\<lparr>dma := d'\<rparr>" using iter it by simp
    have wf: "wf_pdu p" using inv q by (simp add: ring_inv_def Let_def)
    have g: "pdu_good sigs csid cfg p" using good sent q T by simp
    obtain a b0 where "pdu d' = fill_block (kdata d') a b0" "\<And>j. j < length p \<Longrightarrow> kdata d' (a + j) = p ! j"
      using iter_block [OF inv False it p wf] by blast
    then have "process_pdu cfg (kdata d') (pdu d') st' = Some (count_pdu sigs csid cfg p st')" for st'
      using g by (intro process_pdu_window [OF _ _ wf _ opts]) (simp_all add: pdu_good_def)
    then have "user (dma T) = Some (fold (count_pdu sigs csid cfg) (done @ [p]) st)"
      using T us user by (simp add: pigasus_proc_def)
    then show ?thesis
      using T inv' sent q by (intro exI [of _ "done @ [p]"] exI [of _ q']) simp
  qed
qed

lemma ring_step_sent: "ring_step proc_pkt S T \<Longrightarrow> \<exists>ps. sent T = sent S @ ps"
  by (auto elim!: ring_step.cases)

text \<open>
  C1: the system from the ring to the verdicts.  Whatever the interleaving of DMA transfers, tail
  reads and loop iterations, in every reachable state each PDU that was taken from the ring has
  been counted exactly once, as a match when in a port group for its ports a rule that it names
  has contents that match its payload in order, and otherwise as no match; the other PDUs that
  were sent are still queued.  This holds for a configuration whose options answer, PDUs whose
  payload and identifier lines fit their length, and port groups with a built matcher.
\<close>

theorem pigasus_counts_pdus:
  assumes "ring_reach (pigasus_proc cfg) (ring_init m pdu0 (Some st)) S"
    and "store_ok (conf_opts cfg) (conf_vals cfg)" and "list_all (pdu_good sigs csid cfg) (sent S)"
  shows "\<exists>handled queued. sent S = handled @ queued \<and>
     user (dma S) = Some (fold (count_pdu sigs csid cfg) handled st) \<and>
     flits queued = occupied RING (unat (cpu_head (dma S))) (unat (kdata (dma S) 0))"
proof -
  have "\<exists>handled queued. ring_inv S queued \<and> sent S = handled @ queued \<and>
      user (dma S) = Some (fold (count_pdu sigs csid cfg) handled st)"
    using assms(1,3)
  proof (induction rule: ring_reach.induct)
    case start
    show ?case using ring_inv_init by (auto simp: ring_init_def)
  next
    case (step S T)
    have "list_all (pdu_good sigs csid cfg) (sent S)" using ring_step_sent [OF step.hyps(2)] step.prems by auto
    then obtain handled queued where "ring_inv S queued" "sent S = handled @ queued"
      "user (dma S) = Some (fold (count_pdu sigs csid cfg) handled st)"
      using step.IH by blast
    with step.hyps(2) show ?case using assms(2) step.prems by (rule ring_step_counts)
  qed
  then obtain handled queued where "ring_inv S queued" "sent S = handled @ queued"
    "user (dma S) = Some (fold (count_pdu sigs csid cfg) handled st)" by blast
  then show ?thesis
    by (intro exI [of _ handled] exI [of _ queued]) (simp add: ring_inv_def Let_def)
qed

text \<open>A PDU for the example configuration: a header, a payload line and a line with the identifier 1.\<close>

definition pdu_example :: "u32 list" where
  "pdu_example =
     [1, 0x9C400050, 0, 0, 6, 1, 7, 3, 0, 0, 0, 0, 0, 0, 0, 0,
      0x78786261, 0x00786261, 0, 0, 0, 0, 0, 0, 0, 0, 0, 0, 0, 0, 0, 0,
      1, 0, 0, 0, 0, 0, 0, 0, 0, 0, 0, 0, 0, 0, 0, 0]"

lemma pdu_example_good:
  "wf_pdu pdu_example" "pdu_good sigs_example csid_example cfg_example pdu_example"
  "pdu_matches sigs_example csid_example cfg_example pdu_example"
proof -
  show "wf_pdu pdu_example" by (simp add: wf_pdu_def pdu_example_def)
  have g: "pdu_groups cfg_example pdu_example = [group_example]"
    by (simp add: pdu_groups_def pdu_example_def cfg_example_def prmFindRuleGroupTcp_def
        prmFindRuleGroup_def ANYPORT_def MAX_PORTS_def map_filter_simps)
  show "pdu_good sigs_example csid_example cfg_example pdu_example"
    using cfg_example_groups(2) g
    by (simp add: pdu_good_def pdu_fits_def pdu_line_def) (simp add: pdu_example_def)
  have b: "pdu_payload_bytes pdu_example = [97, 98, 120, 120, 97, 98, 120]"
    by (simp add: pdu_payload_bytes_def pdu_example_def upt_rec)
  have "1 \<in> pdu_sids pdu_example"
    by (simp add: pdu_sids_def image_iff pdu_line_def) (rule bexI [of _ 0], simp_all add: pdu_example_def)
  from group_example_matches [OF this] show "pdu_matches sigs_example csid_example cfg_example pdu_example"
    by (simp add: pdu_matches_def g b)
qed

lemma pdu_example_write:
  "fpga_write pdu_example 0 ((\<lambda>_. 0)(0 := 0)) = Some ((copy_dwords 16 pdu_example (\<lambda>_. 0))(0 := 3))"
proof -
  have l: "length pdu_example = 48" by (simp add: pdu_example_def)
  have z: "((\<lambda>_. 0)(0 := 0) :: mem) = (\<lambda>_. 0)" by (simp add: fun_eq_iff)
  show ?thesis unfolding z fpga_write_def Let_def l
    by (simp add: fpga_free_slot_def BUFFER_SIZE_def ring_advance_def)
qed

lemma pdu_example_run:
  "\<exists>S. ring_reach (pigasus_proc cfg_example) (ring_init (\<lambda>_. 0) ring_example_block (Some st)) S \<and>
     sent S = [pdu_example] \<and> occupied RING (unat (cpu_head (dma S))) (unat (kdata (dma S) 0)) = 0"
proof -
  let ?S0 = "ring_init (\<lambda>_. 0) ring_example_block (Some st)"
  let ?m = "(copy_dwords 16 pdu_example (\<lambda>_. 0))(0 := 3)"
  let ?S1 = "?S0\<lparr>dma := (dma ?S0)\<lparr>kdata := ?m\<rparr>, sent := sent ?S0 @ [pdu_example]\<rparr>"
  let ?S2 = "?S1\<lparr>dma := read_tail (dma ?S1)\<rparr>"
  have w: "fpga_write pdu_example (cpu_head_reg (dma ?S0)) (kdata (dma ?S0)) = Some ?m"
    unfolding pdu_example_write [symmetric] by (simp add: ring_init_def)
  have r1: "ring_reach (pigasus_proc cfg_example) ?S0 ?S1"
    using pdu_example_good(1) w by (intro ring_reach.step [OF ring_reach.start] ring_step.fpga)
  have r2: "ring_reach (pigasus_proc cfg_example) ?S0 ?S2"
    using r1 by (rule ring_reach.step) (rule ring_step.poll)
  have "ring_inv ?S2 ([] @ [pdu_example])"
    by (intro ring_inv_poll ring_inv_fpga [OF ring_inv_init pdu_example_good(1) w])
  moreover have "cpu_tail (dma ?S2) \<noteq> cpu_head (dma ?S2)" by (simp add: ring_init_def read_tail_def)
  ultimately obtain d where "dma_iter (pigasus_proc cfg_example) (dma ?S2) = Inr d"
    and i: "ring_inv (?S2\<lparr>dma := d\<rparr>) []"
    using ring_inv_iter [of ?S2 "[] @ [pdu_example]" "pigasus_proc cfg_example"] by auto
  then have "ring_reach (pigasus_proc cfg_example) ?S0 (?S2\<lparr>dma := d\<rparr>)"
    using ring_reach.step [OF r2 ring_step.iter] by blast
  then show ?thesis
    using i by (intro exI [of _ "?S2\<lparr>dma := d\<rparr>"]) (simp add: ring_inv_def Let_def flits_def ring_init_def)
qed

theorem pigasus_counts_pdus_witness:
  "\<exists>S. ring_reach (pigasus_proc cfg_example)
       (ring_init (\<lambda>_. 0) ring_example_block (Some \<lparr>match_cntr = 0, no_match_cntr = 0\<rparr>)) S \<and>
     store_ok (conf_opts cfg_example) (conf_vals cfg_example) \<and>
     list_all (pdu_good sigs_example csid_example cfg_example) (sent S) \<and>
     user (dma S) = Some \<lparr>match_cntr = 1, no_match_cntr = 0\<rparr>"
proof -
  let ?st = "\<lparr>match_cntr = 0, no_match_cntr = 0\<rparr>"
  obtain S where S: "ring_reach (pigasus_proc cfg_example) (ring_init (\<lambda>_. 0) ring_example_block (Some ?st)) S"
    "sent S = [pdu_example]" "occupied RING (unat (cpu_head (dma S))) (unat (kdata (dma S) 0)) = 0"
    using pdu_example_run by blast
  have g: "list_all (pdu_good sigs_example csid_example cfg_example) (sent S)"
    using S(2) pdu_example_good(2) by simp
  obtain handled queued where h: "[pdu_example] = handled @ queued"
    "user (dma S) = Some (fold (count_pdu sigs_example csid_example cfg_example) handled ?st)" "flits queued = 0"
    using pigasus_counts_pdus [OF S(1) cfg_example_store g] S(2,3) by auto
  have "flits [pdu_example] \<noteq> 0" by (simp add: flits_def pdu_example_def)
  then have "handled = [pdu_example]" using h(1,3) by (auto simp: Cons_eq_append_conv)
  then show ?thesis
    using S(1) g h(2) cfg_example_store pdu_example_good(3)
    by (intro exI [of _ S]) (simp add: count_pdu_def)
qed

end
